(* ===== verification/Prelude.thy ===== *)
theory Prelude
  imports Main "HOL-Library.Word"
begin

text \<open>
  Shared vocabulary of the development: the machine types the C++ code uses, its integer
  conversions, the byte-buffer operations that stand for \<^verbatim>\<open>memcpy\<close>, and the generic lemmas on
  lists, words and power-of-two masks that the component theories build on.

  Conventions.
  \<^item> \<open>uint8_t\<close>, \<open>uint16_t\<close>, \<open>uint32_t\<close>, \<open>uint64_t\<close> and \<open>size_t\<close> are words of their
    width, so wrap-around is the word's own.
  \<^item> \<open>int\<close>, \<open>long\<close> and \<open>int64_t\<close> are HOL integers.  Signed overflow is undefined in C++;
    where a computation could reach it the component proves the bound that excludes it.
  \<^item> \<open>static_cast\<close> between the two is explicit: \<open>size_of_int\<close> and \<open>int_of_size\<close>.
\<close>

unbundle bit_operations_syntax

type_synonym u8 = "8 word"
type_synonym u16 = "16 word"
type_synonym u32 = "32 word"
type_synonym u64 = "64 word"
type_synonym bytes = "u8 list"

text \<open>Fact collections: unfolding rules of pure arithmetic helpers, and frame rules saying
  which fields an operation leaves alone.\<close>

named_theorems sched_defs \<open>definitions of the pure scheduling helpers\<close>
named_theorems frame \<open>fields an operation does not change\<close>

section \<open>Integer limits and conversions\<close>

abbreviation (input) INT_MAX :: int where "INT_MAX \<equiv> 2147483647"
abbreviation (input) INT_MIN :: int where "INT_MIN \<equiv> -2147483648"
abbreviation (input) UINT64_MAX :: u64 where "UINT64_MAX \<equiv> 18446744073709551615"

text \<open>\<open>std::clamp\<close> for \<open>lo \<le> hi\<close>.\<close>

definition clamp :: "int \<Rightarrow> int \<Rightarrow> int \<Rightarrow> int" where
  "clamp v lo hi = (if v < lo then lo else if hi < v then hi else v)"

text \<open>\<open>static_cast<size_t>(int)\<close> sign-extends modulo \<open>2^64\<close>; \<open>static_cast<int>(size_t)\<close> keeps
  the low 32 bits as two's complement.\<close>

definition size_of_int :: "int \<Rightarrow> u64" where
  "size_of_int n = word_of_int n"

definition int_of_size :: "u64 \<Rightarrow> int" where
  "int_of_size w = sint (ucast w :: u32)"

text \<open>\<open>static_cast<uint32_t>\<close> of a signed and of a 64-bit unsigned value.\<close>

definition u32_of_int :: "int \<Rightarrow> u32" where
  "u32_of_int n = word_of_int n"

definition u32_of_size :: "u64 \<Rightarrow> u32" where
  "u32_of_size w = ucast w"

text \<open>C++ integer division truncates towards zero; this is it on HOL integers.\<close>

definition cdiv :: "int \<Rightarrow> int \<Rightarrow> int" where
  "cdiv a b = sgn a * sgn b * (\<bar>a\<bar> div \<bar>b\<bar>)"

lemma cdiv_nonneg [simp]: "0 \<le> a \<Longrightarrow> 0 < b \<Longrightarrow> cdiv a b = a div b"
  by (cases "a = 0") (auto simp: cdiv_def)

lemma clamp_bounds: "lo \<le> hi \<Longrightarrow> lo \<le> clamp v lo hi \<and> clamp v lo hi \<le> hi"
  by (auto simp: clamp_def)

lemma clamp_id [simp]: "lo \<le> v \<Longrightarrow> v \<le> hi \<Longrightarrow> clamp v lo hi = v"
  by (auto simp: clamp_def)

lemma unat_size_of_int [simp]:
  "0 \<le> n \<Longrightarrow> n < 2 ^ 64 \<Longrightarrow> unat (size_of_int n) = nat n"
  by (simp add: size_of_int_def unat_eq_nat_uint uint_word_of_int)

lemma int_of_size_small:
  assumes a: "unat w < 2 ^ 31"
  shows "int_of_size w = int (unat w)"
proof -
  have n: "unat (ucast w :: u32) = unat w"
    using a by (simp add: unsigned_ucast_eq take_bit_nat_eq_self)
  have u: "uint (ucast w :: u32) = int (unat w)"
    by (simp only: uint_nat n)
  have "int (unat w) < int (2 ^ 31)" using a by (simp only: of_nat_less_iff)
  moreover have "- (2 ^ 31) \<le> int (unat w)" by (rule order_trans [of _ 0]) simp_all
  ultimately have "signed_take_bit 31 (int (unat w)) = int (unat w)"
    by (intro signed_take_bit_int_eq_self) auto
  then show ?thesis by (simp add: int_of_size_def sint_uint u)
qed

section \<open>Words and power-of-two masks\<close>

text \<open>Masking a cursor with \<open>2^k - 1\<close> is reduction modulo \<open>2^k\<close>; because \<open>2^k\<close> divides
  \<open>2^64\<close> this is insensitive to the cursor itself wrapping.\<close>

lemma unat_and_mask:
  "k \<le> 64 \<Longrightarrow> unat ((w::u64) AND mask k) = unat w mod 2 ^ k"
  by (simp only: take_bit_eq_mask [symmetric] unsigned_take_bit_eq)
    (simp add: take_bit_eq_mod)

lemma unat_add_mod_pow2:
  assumes "k \<le> 64"
  shows "unat ((w::u64) + of_nat i) mod 2 ^ k = (unat w + i) mod 2 ^ k"
proof -
  have d: "(2::nat) ^ k dvd 2 ^ 64" using assms by (rule le_imp_power_dvd)
  have "unat (w + of_nat i) mod 2 ^ k = (unat w + i) mod 2 ^ 64 mod 2 ^ k"
    by (simp add: unat_word_ariths unat_of_nat mod_simps)
  also have "\<dots> = (unat w + i) mod 2 ^ k" using d by (rule mod_mod_cancel)
  finally show ?thesis .
qed

text \<open>A wrapping cursor distance: advancing the head by \<open>n\<close> adds \<open>n\<close> to the distance,
  advancing the tail by \<open>n\<close> removes it, as long as the distance stays below \<open>2^64\<close>.\<close>

lemma unat_of_nat64 [simp]: "n < 2 ^ 64 \<Longrightarrow> unat (of_nat n :: u64) = n"
  by (simp add: unat_of_nat)

lemma cursor_advance_head:
  assumes "unat ((h::u64) - t) + n < 2 ^ 64"
  shows "unat (h + of_nat n - t) = unat (h - t) + n"
proof -
  have "h + of_nat n - t = (h - t) + of_nat n" by simp
  then show ?thesis using assms by (simp only: unat_word_ariths)
      (simp add: unat_of_nat mod_simps)
qed

lemma unat_less_2p64: "unat (w::u64) < 2 ^ 64"
  using unsigned_less [where 'a = nat, of w] by simp

lemma cursor_advance_tail:
  assumes "n \<le> unat ((h::u64) - t)"
  shows "unat (h - (t + of_nat n)) = unat (h - t) - n"
proof -
  have n: "unat (of_nat n :: u64) = n"
    using assms unat_less_2p64 [of "h - t"] by (intro unat_of_nat64) simp
  have "of_nat n \<le> h - t" using assms n by (simp add: word_le_nat_alt)
  then have "unat ((h - t) - of_nat n) = unat (h - t) - n"
    by (simp add: unat_sub n)
  then show ?thesis by (simp add: algebra_simps)
qed

text \<open>\<open>x & (x - 1) == 0\<close> for a nonzero \<open>x\<close> is the usual power-of-two test.\<close>

definition is_pow2 :: "u64 \<Rightarrow> bool" where
  "is_pow2 w \<longleftrightarrow> w AND (w - 1) = 0"

section \<open>Byte buffers\<close>

text \<open>\<open>memcpy\<close> of \<open>bs\<close> into a buffer at offset \<open>off\<close>.  The callers keep
  \<open>off + length bs\<close> within the buffer; outside that range the C++ call is undefined, and
  the model keeps the buffer's length only inside it.\<close>

definition memcpy_at :: "nat \<Rightarrow> bytes \<Rightarrow> bytes \<Rightarrow> bytes" where
  "memcpy_at off bs xs = take off xs @ bs @ drop (off + length bs) xs"

lemma length_memcpy_at [simp]:
  "off + length bs \<le> length xs \<Longrightarrow> length (memcpy_at off bs xs) = length xs"
  by (simp add: memcpy_at_def)

lemma nth_memcpy_at:
  assumes "off + length bs \<le> length xs" "i < length xs"
  shows "memcpy_at off bs xs ! i =
    (if off \<le> i \<and> i < off + length bs then bs ! (i - off) else xs ! i)"
  using assms by (auto simp: memcpy_at_def nth_append min_def)

lemma memcpy_at_Nil [simp]: "memcpy_at off [] xs = xs"
  by (simp add: memcpy_at_def)

lemma take_memcpy_at_0: "take (length bs) (memcpy_at 0 bs xs) = bs"
  by (simp add: memcpy_at_def)

section \<open>Little-endian fields\<close>

text \<open>The shift-and-or assembly of little-endian fields that the descriptor, control and
  feedback code repeats.\<close>

definition le16 :: "u8 \<Rightarrow> u8 \<Rightarrow> u16" where
  "le16 a b = ucast a OR push_bit 8 (ucast b)"

definition le24 :: "u8 \<Rightarrow> u8 \<Rightarrow> u8 \<Rightarrow> u32" where
  "le24 a b c = ucast a OR push_bit 8 (ucast b) OR push_bit 16 (ucast c)"

definition le32 :: "u8 \<Rightarrow> u8 \<Rightarrow> u8 \<Rightarrow> u8 \<Rightarrow> u32" where
  "le32 a b c d = ucast a OR push_bit 8 (ucast b) OR push_bit 16 (ucast c) OR push_bit 24 (ucast d)"

section \<open>Sums over lists\<close>

lemma sum_list_map_const_mult:
  "(\<Sum>x\<leftarrow>xs. f x * (c::nat)) = (\<Sum>x\<leftarrow>xs. f x) * c"
  by (induction xs) (simp_all add: algebra_simps)

end
