(* ===== verification/Scheduling.thy ===== *)
theory Scheduling
  imports Prelude
begin

text \<open>
  \<^verbatim>\<open>include/liblowlatencyaudio/UsbScheduling.h\<close>: the frame-budget arithmetic and the exact
  rational packet scheduler.  The free functions on \<open>int\<close> are total functions on HOL integers;
  \<open>playbackRunwayNanoseconds\<close> and \<open>RationalPacketScheduler\<close>, whose unsigned arithmetic is the
  point, stay on words.
\<close>

section \<open>Constants and configuration records\<close>

abbreviation (input) kMinGraphQuantum :: int where "kMinGraphQuantum \<equiv> 4"
abbreviation (input) kMaxGraphQuantum :: int where "kMaxGraphQuantum \<equiv> 1024"
abbreviation (input) kPlaybackRingBytes :: nat where "kPlaybackRingBytes \<equiv> 65536"
abbreviation (input) kMaxTransportChannels :: int where "kMaxTransportChannels \<equiv> 8"
abbreviation (input) kMaxSubslotBytes :: int where "kMaxSubslotBytes \<equiv> 4"
abbreviation (input) kExplicitZeroFrames :: int where "kExplicitZeroFrames \<equiv> -1"
abbreviation (input) kDefaultPeriodMultiplier :: int where "kDefaultPeriodMultiplier \<equiv> 3"
abbreviation (input) kMinPeriodMultiplier :: int where "kMinPeriodMultiplier \<equiv> 1"
abbreviation (input) kMaxPeriodMultiplier :: int where "kMaxPeriodMultiplier \<equiv> 8"
abbreviation (input) kMinPacketsPerTransfer :: int where "kMinPacketsPerTransfer \<equiv> 1"
abbreviation (input) kMaxPacketsPerTransfer :: int where "kMaxPacketsPerTransfer \<equiv> 8"

record PlaybackWatermarkConfig =
  wmGraphQuantum :: int
  wmTargetFrames :: int
  wmFrameLimit :: int

record UserspaceBufferConfig =
  ucPlaybackTargetFrames :: int
  ucStartupPrimeFrames :: int
  ucWriteHeadroomFrames :: int
  ucCaptureLimitFrames :: int
  ucCaptureTargetFrames :: int
  ucCaptureHeadroomFrames :: int
  ucCaptureDeadlineSlackFrames :: int
  ucTransferCount :: int
  ucPacketsPerTransfer :: int
  ucRingCapacityBytes :: u64

text \<open>The member initialisers: every term automatic.\<close>

definition defaultUserspaceBufferConfig :: UserspaceBufferConfig where
  "defaultUserspaceBufferConfig =
     \<lparr>ucPlaybackTargetFrames = 0, ucStartupPrimeFrames = 0, ucWriteHeadroomFrames = 0,
      ucCaptureLimitFrames = 0, ucCaptureTargetFrames = 0, ucCaptureHeadroomFrames = 0,
      ucCaptureDeadlineSlackFrames = 0, ucTransferCount = 0, ucPacketsPerTransfer = 0,
      ucRingCapacityBytes = 0\<rparr>"

section \<open>Frame-budget helpers\<close>

definition resolveOptionalFrames :: "int \<Rightarrow> int \<Rightarrow> int" where
  "resolveOptionalFrames requested automatic =
     (if requested = kExplicitZeroFrames then 0
      else if requested = 0 then automatic else requested)"

definition checkedFrameBudgetFits :: "int \<Rightarrow> int \<Rightarrow> int \<Rightarrow> int \<Rightarrow> bool" where
  "checkedFrameBudgetFits first second third capacity =
     (if first < 0 \<or> second < 0 \<or> third < 0 \<or> capacity < 0 then False
      else first + second + third \<le> capacity)"

definition checkedFrameSum :: "int \<Rightarrow> int \<Rightarrow> int" where
  "checkedFrameSum first second =
     (if first < 0 \<or> second < 0 \<or> first + second > INT_MAX then 0 else first + second)"

definition isCompleteCaptureQuantum :: "int \<Rightarrow> int \<Rightarrow> bool" where
  "isCompleteCaptureQuantum availableFrames requiredFrames \<longleftrightarrow>
     requiredFrames > 0 \<and> availableFrames \<ge> requiredFrames"

text \<open>Time points are nanosecond counts of the steady clock.  The result is narrowed to
  \<open>int\<close>.\<close>

definition pollMillisUntil :: "int \<Rightarrow> int \<Rightarrow> int" where
  "pollMillisUntil deadline now =
     (let remainingNs = deadline - now in
      if remainingNs \<le> 0 then 0
      else let ms = cdiv (remainingNs + 999999) 1000000
           in sint (word_of_int (if ms > 0 then ms else 1) :: u32))"

definition packetsPerSecondForInterval :: "bool \<Rightarrow> int \<Rightarrow> int" where
  "packetsPerSecondForInterval highSpeed bInterval =
     (let hostPeriods = (if highSpeed then 8000 else 1000);
          interval = (if highSpeed then 2 ^ nat (clamp (bInterval - 1) 0 15)
                      else max 1 bInterval)
      in max 1 (cdiv hostPeriods interval))"

definition packetsPerTransferForRate :: "int \<Rightarrow> int" where
  "packetsPerTransferForRate packetsPerSecond =
     (if packetsPerSecond \<ge> 8000 then 8
      else if packetsPerSecond \<ge> 4000 then 4
      else if packetsPerSecond \<ge> 2000 then 2
      else 1)"

definition nominalTransferFrames :: "int \<Rightarrow> int \<Rightarrow> int \<Rightarrow> int" where
  "nominalTransferFrames sampleRate packetsPerTransfer packetsPerSecond =
     (if sampleRate \<le> 0 \<or> packetsPerTransfer \<le> 0 \<or> packetsPerSecond \<le> 0 then 0
      else let numerator = sampleRate * packetsPerTransfer
           in min INT_MAX (cdiv (numerator + packetsPerSecond - 1) packetsPerSecond))"

definition clampPeriodMultiplier :: "int \<Rightarrow> int" where
  "clampPeriodMultiplier multiplier = clamp multiplier kMinPeriodMultiplier kMaxPeriodMultiplier"

definition playbackWatermarkTransferCount :: "int \<Rightarrow> int \<Rightarrow> bool \<Rightarrow> int" where
  "playbackWatermarkTransferCount inflightTransfers reserveTransfers exactInFlightAccounting =
     (let inflight = max 0 inflightTransfers; reserve = max 0 reserveTransfers in
      if exactInFlightAccounting then reserve
      else if inflight > INT_MAX - reserve then INT_MAX else inflight + reserve)"

definition automaticWriteHeadroomFrames :: "int \<Rightarrow> int \<Rightarrow> int" where
  "automaticWriteHeadroomFrames graphQuantum drainChunkFrames =
     (let quantum = max 0 graphQuantum in
      if drainChunkFrames \<le> 0 then quantum
      else let step = (if quantum > drainChunkFrames then quantum - drainChunkFrames else 0)
           in if quantum > INT_MAX - step then INT_MAX else quantum + step)"

definition playbackWatermarkConfig :: "int \<Rightarrow> int \<Rightarrow> PlaybackWatermarkConfig" where
  "playbackWatermarkConfig requestedFrames periodMultiplier =
     (let quantum = clamp requestedFrames kMinGraphQuantum kMaxGraphQuantum;
          multiplier = clampPeriodMultiplier periodMultiplier;
          target = min kMaxGraphQuantum (quantum * multiplier)
      in \<lparr>wmGraphQuantum = quantum, wmTargetFrames = target, wmFrameLimit = quantum + target\<rparr>)"

definition automaticPlaybackTargetFrames :: "int \<Rightarrow> int \<Rightarrow> int \<Rightarrow> int" where
  "automaticPlaybackTargetFrames quantum drainChunkFrames periodTargetFrames =
     (if quantum \<le> 0 \<or> drainChunkFrames \<le> 0 then periodTargetFrames
      else if quantum > kMaxGraphQuantum - drainChunkFrames then kMaxGraphQuantum
      else quantum + drainChunkFrames)"

definition effectivePlaybackTargetFrames :: "int \<Rightarrow> int \<Rightarrow> int" where
  "effectivePlaybackTargetFrames configured queuedTransferFrames =
     max 0 (max configured queuedTransferFrames)"

text \<open>The graph quantum parameter is ignored by the code.\<close>

definition resolvedPlaybackTargetFrames :: "int \<Rightarrow> int \<Rightarrow> int \<Rightarrow> int \<Rightarrow> int" where
  "resolvedPlaybackTargetFrames automaticTargetFrames manualTargetFrames graphQuantum maxTargetFrames =
     (let maximum = max 0 maxTargetFrames in
      if maximum = 0 then 0
      else let automatic = min maximum (max 0 automaticTargetFrames)
           in if manualTargetFrames \<le> 0 then automatic else min maximum manualTargetFrames)"

definition playbackRunwayNanoseconds :: "u64 \<Rightarrow> u32 \<Rightarrow> u64" where
  "playbackRunwayNanoseconds queuedFrames sampleRate =
     (if queuedFrames = 0 \<or> sampleRate = 0 then 0
      else let wholeSeconds = queuedFrames div ucast sampleRate;
               remainderFrames = queuedFrames mod ucast sampleRate
           in if wholeSeconds > UINT64_MAX div 1000000000 then UINT64_MAX
              else let runway = wholeSeconds * 1000000000;
                       remainderNs = (remainderFrames * 1000000000) div ucast sampleRate
                   in if runway > UINT64_MAX - remainderNs then UINT64_MAX
                      else runway + remainderNs)"

definition startupPlaybackPrimeFrames :: "int \<Rightarrow> int \<Rightarrow> int \<Rightarrow> int" where
  "startupPlaybackPrimeFrames maxTarget exactInitialPacketFrames playbackTargetFrames =
     (if maxTarget \<le> 0 then 0
      else min maxTarget (max 0 (max exactInitialPacketFrames playbackTargetFrames)))"

lemmas budget_defs [sched_defs] =
  resolveOptionalFrames_def checkedFrameBudgetFits_def checkedFrameSum_def
  isCompleteCaptureQuantum_def packetsPerTransferForRate_def nominalTransferFrames_def
  clampPeriodMultiplier_def playbackWatermarkTransferCount_def
  automaticWriteHeadroomFrames_def playbackWatermarkConfig_def
  automaticPlaybackTargetFrames_def effectivePlaybackTargetFrames_def
  resolvedPlaybackTargetFrames_def startupPlaybackPrimeFrames_def Let_def

section \<open>The exact rational packet scheduler\<close>

record RationalPacketScheduler =
  whole :: u32
  fraction :: u32
  period :: u32
  remainder :: u32

definition initScheduler :: RationalPacketScheduler where
  "initScheduler = \<lparr>whole = 0, fraction = 0, period = 1, remainder = 0\<rparr>"

definition scheduler_reset :: "u32 \<Rightarrow> u32 \<Rightarrow> RationalPacketScheduler" where
  "scheduler_reset rate packetsPerSecond =
     (let p = (if packetsPerSecond \<noteq> 0 then packetsPerSecond else 1)
      in \<lparr>whole = rate div p, fraction = rate mod p, period = p, remainder = 0\<rparr>)"

definition scheduler_next ::
    "RationalPacketScheduler \<Rightarrow> u32 \<times> RationalPacketScheduler" where
  "scheduler_next s =
     (if remainder s \<ge> period s - fraction s
      then (whole s + 1, s\<lparr>remainder := remainder s - (period s - fraction s)\<rparr>)
      else (whole s, s\<lparr>remainder := remainder s + fraction s\<rparr>))"

text \<open>The first \<open>n\<close> packet sizes of a scheduler and the state after them.\<close>

primrec scheduler_run ::
    "nat \<Rightarrow> RationalPacketScheduler \<Rightarrow> u32 list \<times> RationalPacketScheduler" where
  "scheduler_run 0 s = ([], s)"
| "scheduler_run (Suc n) s =
     (let (f, s1) = scheduler_next s; (fs, s2) = scheduler_run n s1 in (f # fs, s2))"

section \<open>Lemmas: the scheduler\<close>

text \<open>What a scheduler configured for \<open>rate\<close> keeps true: the quotient and remainder of the
  rate by the period, and a carried remainder below the period.\<close>

definition sched_inv :: "nat \<Rightarrow> RationalPacketScheduler \<Rightarrow> bool" where
  "sched_inv rate s \<longleftrightarrow>
     rate < 2 ^ 32 \<and> fraction s < period s \<and> remainder s < period s \<and>
     unat (whole s) * unat (period s) + unat (fraction s) = rate"

lemma sched_inv_reset: "sched_inv (unat rate) (scheduler_reset rate pps)"
proof -
  have "unat (rate div p) * unat p + unat (rate mod p) = unat rate" for p :: u32
    by (simp add: unat_div unat_mod)
  moreover have "unat rate < 2 ^ 32" using unsigned_less [where 'a = nat, of rate] by simp
  ultimately show ?thesis
    by (auto simp: sched_inv_def scheduler_reset_def Let_def word_less_nat_alt unat_mod
        unat_gt_0)
qed

text \<open>One packet: \<open>frames \<cdot> period + remainder' = rate + remainder\<close>, exactly, with no
  wrap-around in any of the 32-bit operations.\<close>

lemma scheduler_next_exact:
  assumes inv: "sched_inv rate s" and step: "scheduler_next s = (f, s')"
  shows "sched_inv rate s'" and "period s' = period s"
    and "unat f * unat (period s) + unat (remainder s') = rate + unat (remainder s)"
    and "unat f = rate div unat (period s) \<or> unat f = Suc (rate div unat (period s))"
proof -
  let ?p = "unat (period s)" and ?f = "unat (fraction s)" and ?r = "unat (remainder s)"
    and ?w = "unat (whole s)"
  from inv have fp: "?f < ?p" and rp: "?r < ?p" and rate: "?w * ?p + ?f = rate"
    and small: "rate < 4294967296"
    by (simp_all add: sched_inv_def word_less_nat_alt)
  have gap: "unat (period s - fraction s) = ?p - ?f"
    using fp by (intro unat_sub) (simp add: word_le_nat_alt)
  have w: "rate div ?p = ?w" using fp rate by (intro div_nat_eqI) auto
  have "sched_inv rate s' \<and> period s' = period s \<and>
    unat f * ?p + unat (remainder s') = rate + ?r \<and> (unat f = ?w \<or> unat f = Suc ?w)"
  proof (cases "?p - ?f \<le> ?r")
    case True
    then have c: "remainder s \<ge> period s - fraction s" by (simp add: word_le_nat_alt gap)
    have "2 \<le> ?p" using True fp rp by linarith
    then have "?w * 2 \<le> ?w * ?p" by simp
    then have "Suc ?w < 4294967296" using rate small by linarith
    then have f: "unat (whole s + 1) = Suc ?w" by (simp add: unat_word_ariths)
    have r: "unat (remainder s - (period s - fraction s)) = ?r - (?p - ?f)"
      using True by (subst unat_sub) (simp_all add: word_le_nat_alt gap)
    have "f = whole s + 1" "s' = s\<lparr>remainder := remainder s - (period s - fraction s)\<rparr>"
      using step c by (simp_all add: scheduler_next_def)
    then show ?thesis using True fp rp rate inv f r
      by (simp add: sched_inv_def word_less_nat_alt)
  next
    case False
    then have c: "\<not> remainder s \<ge> period s - fraction s" by (simp add: word_le_nat_alt gap)
    have "?p < 2 ^ 32" using unsigned_less [where 'a = nat, of "period s"] by simp
    then have r: "unat (remainder s + fraction s) = ?r + ?f"
      using False by (simp add: unat_word_ariths)
    have "f = whole s" "s' = s\<lparr>remainder := remainder s + fraction s\<rparr>"
      using step c by (simp_all add: scheduler_next_def)
    then show ?thesis using False fp rp rate inv r
      by (simp add: sched_inv_def word_less_nat_alt)
  qed
  then show "sched_inv rate s'" and "period s' = period s"
    and "unat f * unat (period s) + unat (remainder s') = rate + unat (remainder s)"
    and "unat f = rate div unat (period s) \<or> unat f = Suc (rate div unat (period s))"
    by (simp_all add: w)
qed

lemma scheduler_run_exact:
  assumes "sched_inv rate s" and "scheduler_run n s = (fs, s')"
  shows "sched_inv rate s' \<and> period s' = period s \<and> length fs = n \<and>
    (\<Sum>f\<leftarrow>fs. unat f) * unat (period s) + unat (remainder s') = n * rate + unat (remainder s) \<and>
    (\<forall>f \<in> set fs. unat f = rate div unat (period s) \<or> unat f = Suc (rate div unat (period s)))"
  using assms
proof (induction n arbitrary: s fs)
  case 0
  then show ?case by simp
next
  case (Suc n)
  obtain f s1 where n1: "scheduler_next s = (f, s1)" by fastforce
  obtain gs s2 where n2: "scheduler_run n s1 = (gs, s2)" by fastforce
  from Suc.prems(2) have fs: "fs = f # gs" and s2: "s' = s2"
    by (simp_all add: n1 n2)
  note one = scheduler_next_exact [OF Suc.prems(1) n1]
  have rest: "scheduler_run n s1 = (gs, s')" using n2 s2 by simp
  show ?case using Suc.IH [OF one(1) rest] one(2-4)
    by (simp add: fs algebra_simps)
qed

lemma sum_times_period_div:
  fixes p :: nat
  assumes "S * p + r = t" "r < p"
  shows "S = t div p"
  using assms by (intro div_nat_eqI [symmetric]) (auto simp: algebra_simps)

lemma remainder_less_period: "sched_inv rate s \<Longrightarrow> unat (remainder s) < unat (period s)"
  by (simp add: sched_inv_def word_less_nat_alt)

lemma cdiv_ceil_bounds:
  fixes a :: int
  assumes "0 < a" "0 < b"
  shows "a \<le> cdiv (a + b - 1) b * b" and "cdiv (a + b - 1) b * b < a + b"
proof -
  have q: "cdiv (a + b - 1) b = (a + b - 1) div b" using assms by simp
  have "(a + b - 1) div b * b + (a + b - 1) mod b = a + b - 1" by simp
  moreover have "0 \<le> (a + b - 1) mod b" "(a + b - 1) mod b < b" using assms by simp_all
  ultimately show "a \<le> cdiv (a + b - 1) b * b" and "cdiv (a + b - 1) b * b < a + b"
    unfolding q by linarith+
qed

lemma nat_ceil_bound:
  assumes "S * p \<le> N + p - 1" "0 < (p::nat)"
  shows "int S \<le> (int N + int p - 1) div int p"
proof -
  have "int (S * p) \<le> int N + int p - 1" using assms by linarith
  then have "int S * int p \<le> int N + int p - 1" by (simp only: of_nat_mult)
  then have "int S * int p div int p \<le> (int N + int p - 1) div int p"
    using assms(2) by (intro zdiv_mono1) simp_all
  then show ?thesis using assms(2) by simp
qed

lemma ceil_div_le_self:
  assumes "1 \<le> (a::int)" "0 < p"
  shows "(a + p - 1) div p \<le> a"
proof -
  have "0 \<le> (a - 1) * (p - 1)" using assms by simp
  then have "a + p - 1 \<le> a * p" by (simp add: algebra_simps)
  then have "(a + p - 1) div p \<le> (a * p) div p" using assms by (intro zdiv_mono1) simp_all
  then show ?thesis using assms by simp
qed

lemma div_mult_split:
  assumes "0 < (s::nat)"
  shows "q * K div s = q div s * K + q mod s * K div s"
proof -
  have "q * K = (q div s * s + q mod s) * K" by (simp only: div_mult_mod_eq)
  also have "\<dots> = q mod s * K + (q div s * K) * s" by (simp only: add_mult_distrib add_mult_distrib2 ac_simps)
  finally show ?thesis using assms by simp
qed

lemma sint_word32_id:
  assumes "- 2147483648 \<le> n" "n \<le> INT_MAX"
  shows "sint (word_of_int n :: u32) = n"
  using assms by (simp add: sint_sbintrunc' signed_take_bit_int_eq_self)

section \<open>Properties\<close>

text \<open>C26. The packet scheduler is exact: the first \<open>n\<close> packets after \<open>reset(rate, pps)\<close> carry
  exactly \<open>\<lfloor>n \<cdot> rate / pps\<rfloor>\<close> frames, for every 32-bit rate and cadence and every \<open>n\<close>, so no
  drift accumulates and every \<open>pps\<close> packets carry exactly \<open>rate\<close> frames.  A cadence of zero
  counts as one.\<close>

theorem scheduler_exact_cadence:
  "(\<Sum>f\<leftarrow>fst (scheduler_run n (scheduler_reset rate pps)). unat f) =
     n * unat rate div max 1 (unat pps)"
proof -
  let ?s = "scheduler_reset rate pps"
  obtain fs s' where r: "scheduler_run n ?s = (fs, s')" by fastforce
  note x = scheduler_run_exact [OF sched_inv_reset r]
  have p: "unat (period ?s) = max 1 (unat pps)"
    by (auto simp: scheduler_reset_def Let_def unat_gt_0 max_def Suc_le_eq)
  have "remainder ?s = 0" by (simp add: scheduler_reset_def Let_def)
  moreover have "unat (remainder s') < unat (period ?s)"
    using x remainder_less_period [of "unat rate" s'] by simp
  ultimately show ?thesis
    using x sum_times_period_div [of "\<Sum>f\<leftarrow>fs. unat f" "unat (period ?s)" "unat (remainder s')"
        "n * unat rate"] by (simp add: r p)
qed

text \<open>From any state the scheduler can be in, a transfer of \<open>k\<close> packets never carries more
  frames than \<open>nominalTransferFrames(rate, k, packetsPerSecond)\<close>, and every packet carries the
  floor of the nominal packet size or one frame more.\<close>

theorem scheduler_transfer_fits_nominal:
  assumes inv: "sched_inv rate s" and run: "scheduler_run k s = (fs, s')"
    and rate: "0 < rate" "rate < 2 ^ 28" and k: "0 < k" "k \<le> 8"
  shows "int (\<Sum>f\<leftarrow>fs. unat f) \<le> nominalTransferFrames (int rate) (int k) (int (unat (period s))) \<and>
    (\<forall>f\<in>set fs. unat f = rate div unat (period s) \<or> unat f = Suc (rate div unat (period s)))"
proof -
  define p where "p = unat (period s)"
  let ?S = "\<Sum>f\<leftarrow>fs. unat f" and ?a = "int rate * int k"
  note x = scheduler_run_exact [OF inv run, folded p_def]
  have r: "unat (remainder s) < p" using remainder_less_period [OF inv] by (simp add: p_def)
  have "?S * p \<le> k * rate + unat (remainder s)" using x by linarith
  then have "?S * p \<le> rate * k + p - 1" using r by (simp add: mult.commute)
  then have le: "int ?S \<le> (?a + int p - 1) div int p"
    using nat_ceil_bound [of ?S p "rate * k"] r by simp
  have "rate * k \<le> 2147483647"
    using mult_le_mono [of rate 268435455 k 8] rate k by simp
  then have big: "?a \<le> INT_MAX" by (simp flip: of_nat_mult)
  have "1 \<le> ?a" using rate k by (simp flip: of_nat_mult)
  then have "(?a + int p - 1) div int p \<le> ?a" using r by (intro ceil_div_le_self) auto
  moreover have "cdiv (?a + int p - 1) (int p) = (?a + int p - 1) div int p"
    using r \<open>1 \<le> ?a\<close> by (intro cdiv_nonneg) auto
  ultimately have "nominalTransferFrames (int rate) (int k) (int p) = (?a + int p - 1) div int p"
    using rate k r big by (simp add: nominalTransferFrames_def Let_def)
  with le x show ?thesis by (auto simp: p_def)
qed

theorem scheduler_transfer_fits_nominal_witness:
  "scheduler_run 8 (scheduler_reset 44100 8000) =
     ([5, 6, 5, 6, 5, 6, 5, 6], scheduler_reset 44100 8000\<lparr>remainder := 800\<rparr>) \<and>
   int (\<Sum>f\<leftarrow>[5, 6, 5, 6, 5, 6, 5, 6 :: u32]. unat f) \<le> nominalTransferFrames 44100 8 8000"
proof -
  have run: "scheduler_run 8 (scheduler_reset 44100 8000) =
     ([5, 6, 5, 6, 5, 6, 5, 6], scheduler_reset 44100 8000\<lparr>remainder := 800\<rparr>)"
    by code_simp
  have inv: "sched_inv 44100 (scheduler_reset 44100 8000)"
    using sched_inv_reset [of 44100 8000] by simp
  show ?thesis
    using run scheduler_transfer_fits_nominal [OF inv run] by (simp add: scheduler_reset_def)
qed

text \<open>The two products of the runway computation do not wrap.\<close>

lemma runway_words:
  fixes q :: u64 and sr :: u64
  assumes s: "0 < unat sr" "unat sr < 4294967296"
  shows "unat (q mod sr * 1000000000 div sr) = unat q mod unat sr * 1000000000 div unat sr"
    and "unat q mod unat sr * 1000000000 div unat sr < 1000000000"
    and "unat q div unat sr \<le> 18446744073 \<Longrightarrow>
      unat (q div sr * 1000000000) = unat q div unat sr * 1000000000"
proof -
  have m: "unat q mod unat sr < unat sr" using s by simp
  then have "unat q mod unat sr * 1000000000 < 18446744073709551616" using s by linarith
  then have "unat (q mod sr * 1000000000) = unat q mod unat sr * 1000000000"
    by (simp add: unat_word_ariths unat_mod)
  then show "unat (q mod sr * 1000000000 div sr) = unat q mod unat sr * 1000000000 div unat sr"
    by (simp only: unat_div)
  show "unat q mod unat sr * 1000000000 div unat sr < 1000000000"
    using m s by (simp add: div_less_iff_less_mult mult.commute)
  assume "unat q div unat sr \<le> 18446744073"
  then show "unat (q div sr * 1000000000) = unat q div unat sr * 1000000000"
    by (simp add: unat_word_ariths unat_div)
qed

text \<open>Saturating addition by comparison with \<open>UINT64_MAX - b\<close>.\<close>

lemma saturating_add_u64:
  fixes a b :: u64
  shows "unat (if a > UINT64_MAX - b then UINT64_MAX else a + b) =
    min 18446744073709551615 (unat a + unat b)"
proof -
  have b: "unat b \<le> 18446744073709551615" using unat_less_2p64 [of b] by simp
  have "unat (UINT64_MAX - b) = 18446744073709551615 - unat b"
    using b by (subst unat_sub) (simp_all add: word_le_nat_alt)
  then have c: "a > UINT64_MAX - b \<longleftrightarrow> 18446744073709551615 < unat a + unat b"
    using b by (simp only: word_less_nat_alt) linarith
  show ?thesis
  proof (cases "18446744073709551615 < unat a + unat b")
    case True
    then show ?thesis by (simp only: c if_True simp_thms) simp
  next
    case False
    then have "unat (a + b) = unat a + unat b" by (simp add: unat_word_ariths)
    with False show ?thesis by (simp only: c if_False)
  qed
qed

text \<open>\<open>playbackRunwayNanoseconds\<close> is the runway in nanoseconds rounded down,
  \<open>\<lfloor>queuedFrames \<cdot> 10^9 / sampleRate\<rfloor>\<close>, saturating at \<open>UINT64_MAX\<close>: the split into whole
  seconds and remainder never wraps, for all 64-bit counts and 32-bit rates.\<close>

theorem playbackRunwayNanoseconds_exact:
  "unat (playbackRunwayNanoseconds queuedFrames sampleRate) =
     (if sampleRate = 0 then 0
      else min (2 ^ 64 - 1) (unat queuedFrames * 1000000000 div unat sampleRate))"
proof (cases "queuedFrames = 0 \<or> sampleRate = 0")
  case True
  then show ?thesis by (auto simp: playbackRunwayNanoseconds_def)
next
  case False
  define sr :: u64 where "sr = ucast sampleRate"
  have s32: "unat sampleRate < 4294967296"
    using unsigned_less [where 'a = nat, of sampleRate] by simp
  have sr: "unat sr = unat sampleRate"
    using s32 by (simp add: sr_def unsigned_ucast_eq take_bit_nat_eq_self)
  have s: "0 < unat sr" "unat sr < 4294967296" using False s32 sr by (simp_all add: unat_gt_0)
  note w = runway_words [OF s, of queuedFrames]
  note q = div_mult_split [OF s(1), of "unat queuedFrames" 1000000000]
  have uw: "queuedFrames div sr > UINT64_MAX div 1000000000 \<longleftrightarrow>
      18446744073 < unat queuedFrames div unat sr"
    by (simp add: word_less_nat_alt unat_div)
  show ?thesis
  proof (cases "18446744073 < unat queuedFrames div unat sr")
    case True
    then have "18446744073709551615 < unat queuedFrames * 1000000000 div unat sr"
      unfolding q by linarith
    then show ?thesis using False True uw
      by (simp add: playbackRunwayNanoseconds_def Let_def sr flip: sr_def)
  next
    case small: False
    then have "playbackRunwayNanoseconds queuedFrames sampleRate =
        (if queuedFrames div sr * 1000000000 > UINT64_MAX - queuedFrames mod sr * 1000000000 div sr
         then UINT64_MAX
         else queuedFrames div sr * 1000000000 + queuedFrames mod sr * 1000000000 div sr)"
      using False uw by (simp only: playbackRunwayNanoseconds_def Let_def flip: sr_def) simp
    then show ?thesis using False small w(1) w(3) q
      by (simp only: saturating_add_u64) (simp add: sr)
  qed
qed

text \<open>\<open>pollMillisUntil\<close> rounds a wait up to whole milliseconds: an expired deadline gives 0,
  and any future deadline within \<open>INT_MAX\<close> milliseconds gives at least one millisecond, never
  less than the time remaining and less than one millisecond more.\<close>

theorem pollMillisUntil_rounds_up:
  assumes "now < deadline" "deadline - now \<le> INT_MAX * 1000000"
  shows "1 \<le> pollMillisUntil deadline now \<and>
    deadline - now \<le> pollMillisUntil deadline now * 1000000 \<and>
    pollMillisUntil deadline now * 1000000 < deadline - now + 1000000 \<and>
    pollMillisUntil now deadline = 0"
proof -
  let ?ms = "cdiv (deadline - now + 999999) 1000000"
  have b: "deadline - now \<le> ?ms * 1000000" "?ms * 1000000 < deadline - now + 1000000"
    using cdiv_ceil_bounds [of "deadline - now" 1000000] assms by simp_all
  have pos: "1 \<le> ?ms" "?ms \<le> INT_MAX" using b assms by linarith+
  then have "pollMillisUntil deadline now = ?ms"
    using assms by (simp add: pollMillisUntil_def Let_def sint_word32_id)
  moreover have "pollMillisUntil now deadline = 0" using assms by (simp add: pollMillisUntil_def)
  ultimately show ?thesis using b pos by simp
qed

theorem pollMillisUntil_rounds_up_witness:
  "pollMillisUntil 667000 0 = 1 \<and> 667000 \<le> pollMillisUntil 667000 0 * 1000000"
  using pollMillisUntil_rounds_up [of 0 667000] by (simp add: pollMillisUntil_def Let_def)

text \<open>The period rule stays inside the default ring: the graph quantum is in \<open>4..1024\<close>, the
  target holds at least one quantum and at most 1024 frames, and quantum plus target at the
  widest supported transport frame (8 channels of 4 bytes) fits the 64 KiB playback ring.\<close>

theorem playbackWatermarkConfig_fits_ring:
  "let c = playbackWatermarkConfig frames multiplier in
     4 \<le> wmGraphQuantum c \<and> wmGraphQuantum c \<le> 1024 \<and>
     wmGraphQuantum c \<le> wmTargetFrames c \<and> wmTargetFrames c \<le> 1024 \<and>
     wmFrameLimit c = wmGraphQuantum c + wmTargetFrames c \<and>
     wmFrameLimit c * (kMaxTransportChannels * kMaxSubslotBytes) \<le> int kPlaybackRingBytes"
proof -
  have q: "4 \<le> clamp frames 4 1024" "clamp frames 4 1024 \<le> 1024"
    by (auto simp: clamp_def)
  have m: "1 \<le> clamp multiplier 1 8" by (auto simp: clamp_def)
  have "clamp frames 4 1024 * 1 \<le> clamp frames 4 1024 * clamp multiplier 1 8"
    using q m by (intro mult_left_mono) simp_all
  then show ?thesis using q by (simp add: sched_defs min_def)
qed

end
