(* ===== verification/Byte_Ring.thy ===== *)
theory Byte_Ring
  imports Prelude
begin

text \<open>
  The single-producer/single-consumer byte ring that \<^verbatim>\<open>src/libusb_uac_driver.cpp\<close> instantiates
  twice, as \<open>ring_\<close>/\<open>ringMask_\<close>/\<open>ringHead_\<close>/\<open>ringTail_\<close> (playback) and as
  \<open>captureRing_\<close>/\<open>captureRingMask_\<close>/\<open>captureHead_\<close>/\<open>captureTail_\<close> (capture).  The cursors are
  free-running 64-bit counters masked at access time; every copy into or out of the storage is
  split into at most two spans at the physical end of the buffer.

  The abstraction of a ring is the list of its unread bytes, \<open>ring_contents\<close>.  The locale
  \<open>byte_fifo\<close> states the contract of a byte queue over such an abstraction and proves once that
  any interleaving of writes and reads is first-in first-out and loses nothing; the
  interpretation at the end discharges the contract for the masked two-span ring.
\<close>

section \<open>The ring and its two-span copies\<close>

record spsc_ring =
  store :: bytes
  rmask :: u64
  rhead :: u64
  rtail :: u64

text \<open>\<open>ringSize(head, tail)\<close>: produced minus consumed bytes, wrapping.\<close>

definition ringSize :: "u64 \<Rightarrow> u64 \<Rightarrow> u64" where
  "ringSize head tail = head - tail"

text \<open>The offset of a cursor and the length of the span before the physical end.\<close>

definition ring_offset :: "spsc_ring \<Rightarrow> u64 \<Rightarrow> nat" where
  "ring_offset r cursor = unat (cursor AND rmask r)"

definition first_span :: "spsc_ring \<Rightarrow> u64 \<Rightarrow> nat \<Rightarrow> nat" where
  "first_span r cursor n = min n (length (store r) - ring_offset r cursor)"

text \<open>The pair of \<open>memcpy\<close> calls that fill and read the two spans.\<close>

definition span_write :: "nat \<Rightarrow> nat \<Rightarrow> bytes \<Rightarrow> bytes \<Rightarrow> bytes" where
  "span_write off first bs st = memcpy_at 0 (drop first bs) (memcpy_at off (take first bs) st)"

definition span_read :: "nat \<Rightarrow> nat \<Rightarrow> nat \<Rightarrow> bytes \<Rightarrow> bytes" where
  "span_read off first second st = take first (drop off st) @ take second st"

text \<open>Copy at the producer cursor and publish it; copy at the consumer cursor and release it.\<close>

definition ring_put :: "bytes \<Rightarrow> spsc_ring \<Rightarrow> spsc_ring" where
  "ring_put bs r =
     r\<lparr>store := span_write (ring_offset r (rhead r)) (first_span r (rhead r) (length bs)) bs (store r),
       rhead := rhead r + of_nat (length bs)\<rparr>"

definition ring_get :: "nat \<Rightarrow> spsc_ring \<Rightarrow> bytes \<times> spsc_ring" where
  "ring_get n r =
     (let first = first_span r (rtail r) n
      in (span_read (ring_offset r (rtail r)) first (n - first) (store r),
          r\<lparr>rtail := rtail r + of_nat n\<rparr>))"

section \<open>Abstraction and invariant\<close>

definition ring_len :: "spsc_ring \<Rightarrow> nat" where
  "ring_len r = unat (ringSize (rhead r) (rtail r))"

definition ring_byte :: "spsc_ring \<Rightarrow> u64 \<Rightarrow> nat \<Rightarrow> u8" where
  "ring_byte r cursor i = store r ! unat ((cursor + of_nat i) AND rmask r)"

definition ring_contents :: "spsc_ring \<Rightarrow> bytes" where
  "ring_contents r = map (ring_byte r (rtail r)) [0..<ring_len r]"

text \<open>Capacities are powers of two up to 1 MiB, the bound \<open>configureUserspaceBuffers\<close> enforces.\<close>

definition ring_shape :: "spsc_ring \<Rightarrow> bool" where
  "ring_shape r \<longleftrightarrow> (\<exists>k\<le>20. length (store r) = 2 ^ k \<and> rmask r = mask k)"

definition ring_inv :: "spsc_ring \<Rightarrow> bool" where
  "ring_inv r \<longleftrightarrow> ring_shape r \<and> ring_len r \<le> length (store r)"

definition ring_room :: "spsc_ring \<Rightarrow> nat" where
  "ring_room r = length (store r) - ring_len r"

section \<open>Lemmas: offsets and spans\<close>

lemma ring_shape_len: "ring_shape r \<Longrightarrow> 0 < length (store r) \<and> length (store r) \<le> 1048576"
proof -
  assume "ring_shape r"
  then obtain k where "k \<le> 20" "length (store r) = 2 ^ k" by (auto simp: ring_shape_def)
  moreover have "(2::nat) ^ k \<le> 2 ^ 20" using \<open>k \<le> 20\<close> by (intro power_increasing) simp_all
  ultimately show ?thesis by simp
qed

lemma ring_index:
  assumes "ring_shape r"
  shows "unat ((c + of_nat i) AND rmask r) = (unat c + i) mod length (store r)"
  using assms by (auto simp: ring_shape_def unat_and_mask unat_add_mod_pow2)

lemma ring_offset_mod: "ring_shape r \<Longrightarrow> ring_offset r c = unat c mod length (store r)"
  using ring_index [of r c 0] by (simp add: ring_offset_def)

lemma ring_offset_less: "ring_shape r \<Longrightarrow> ring_offset r c < length (store r)"
  using ring_shape_len [of r] by (simp add: ring_offset_mod)

lemma mod_span:
  fixes N :: nat
  assumes "i < N"
  shows "(c + i) mod N = (if i < N - c mod N then c mod N + i else i - (N - c mod N))"
proof -
  have o: "c mod N < N" using assms by simp
  have lap: "x mod N = (if x < N then x else x - N)" if "x < 2 * N" for x
    using that by (auto simp: le_mod_geq)
  have "(c + i) mod N = (c mod N + i) mod N" by (simp add: mod_simps)
  also have "\<dots> = (if c mod N + i < N then c mod N + i else c mod N + i - N)"
    using o assms by (intro lap) linarith
  finally show ?thesis using o by auto
qed

lemma ring_byte_span:
  assumes "ring_shape r" "i < length (store r)"
  shows "ring_byte r c i = store r !
    (if i < length (store r) - ring_offset r c then ring_offset r c + i
     else i - (length (store r) - ring_offset r c))"
  using assms by (simp add: ring_byte_def ring_index mod_span ring_offset_mod)

lemma span_read_ring:
  assumes "ring_shape r" "n \<le> length (store r)"
  shows "span_read (ring_offset r c) (first_span r c n) (n - first_span r c n) (store r) =
    map (ring_byte r c) [0..<n]"
proof (rule nth_equalityI)
  have o: "ring_offset r c < length (store r)" using assms(1) by (rule ring_offset_less)
  show len: "length (span_read (ring_offset r c) (first_span r c n) (n - first_span r c n) (store r)) =
      length (map (ring_byte r c) [0..<n])"
    using o assms(2) by (auto simp: span_read_def first_span_def)
  fix i assume "i < length (span_read (ring_offset r c) (first_span r c n) (n - first_span r c n) (store r))"
  then have "i < n" using len by simp
  then show "span_read (ring_offset r c) (first_span r c n) (n - first_span r c n) (store r) ! i =
      map (ring_byte r c) [0..<n] ! i"
    using o assms by (auto simp: span_read_def first_span_def nth_append ring_byte_span min_def)
qed

lemma length_span_write:
  assumes "ring_shape r" "length bs \<le> length (store r)"
  shows "length (span_write (ring_offset r c) (first_span r c (length bs)) bs (store r)) = length (store r)"
  using ring_offset_less [OF assms(1), of c] assms(2)
  by (auto simp: span_write_def first_span_def min_def)

text \<open>After a two-span write at cursor \<open>c\<close>, the byte at distance \<open>j\<close> from \<open>c\<close> is the \<open>j\<close>-th
  byte written, and every byte further on up to one full lap is untouched.\<close>

lemma span_write_nth:
  assumes "ring_shape r" "length bs \<le> length (store r)" "j < length (store r)"
  shows "span_write (ring_offset r c) (first_span r c (length bs)) bs (store r) !
      ((unat c + j) mod length (store r)) =
    (if j < length bs then bs ! j else store r ! ((unat c + j) mod length (store r)))"
proof -
  let ?N = "length (store r)" and ?o = "ring_offset r c"
  have o: "?o < ?N" using assms(1) by (rule ring_offset_less)
  have ix: "(unat c + j) mod ?N = (if j < ?N - ?o then ?o + j else j - (?N - ?o))"
    using mod_span [OF assms(3), of "unat c"] by (simp add: ring_offset_mod assms(1))
  show ?thesis
    using assms o by (auto simp: ix span_write_def first_span_def nth_memcpy_at min_def)
qed

lemma length_ring_contents [simp]: "length (ring_contents r) = ring_len r"
  by (simp add: ring_contents_def)

section \<open>Lemmas: put and get\<close>

lemma ring_put_shape:
  assumes "ring_shape r" "length bs \<le> length (store r)"
  shows "ring_shape (ring_put bs r)" "length (store (ring_put bs r)) = length (store r)"
  using assms by (auto simp: ring_put_def ring_shape_def length_span_write)

lemma ring_put_len:
  assumes "ring_inv r" "length bs \<le> ring_room r"
  shows "ring_len (ring_put bs r) = ring_len r + length bs"
proof -
  have "ring_len r + length bs \<le> 1048576"
    using assms ring_shape_len [of r] unfolding ring_inv_def ring_room_def by linarith
  then show ?thesis
    using cursor_advance_head [of "rhead r" "rtail r" "length bs"]
    by (simp add: ring_len_def ringSize_def ring_put_def)
qed

lemma ring_put_inv:
  assumes "ring_inv r" "length bs \<le> ring_room r"
  shows "ring_inv (ring_put bs r)"
proof -
  have "length bs \<le> length (store r)" using assms(2) by (simp add: ring_room_def)
  then show ?thesis
    using assms ring_put_len [OF assms] ring_put_shape [of r bs]
    by (auto simp: ring_inv_def ring_room_def)
qed

lemma ring_put_contents:
  assumes inv: "ring_inv r" and room: "length bs \<le> ring_room r"
  shows "ring_contents (ring_put bs r) = ring_contents r @ bs"
proof (rule nth_equalityI)
  let ?N = "length (store r)"
  have sh: "ring_shape r" and len: "ring_len r \<le> ?N" and bs: "length bs \<le> ?N"
    using assms by (auto simp: ring_inv_def ring_room_def)
  show l: "length (ring_contents (ring_put bs r)) = length (ring_contents r @ bs)"
    using ring_put_len [OF assms] by simp
  fix i assume "i < length (ring_contents (ring_put bs r))"
  then have i: "i < ring_len r + length bs" using l by simp
  then have iN: "i < ?N" using room len by (simp add: ring_room_def)
  have head: "(unat (rtail r) + ring_len r) mod ?N = unat (rhead r) mod ?N"
  proof -
    obtain k where k: "k \<le> 20" "?N = 2 ^ k" using sh by (auto simp: ring_shape_def)
    have "rhead r = rtail r + of_nat (ring_len r)" by (simp add: ring_len_def ringSize_def)
    then show ?thesis using unat_add_mod_pow2 [of k "rtail r" "ring_len r"] k by simp
  qed
  have lhs: "ring_contents (ring_put bs r) ! i =
      span_write (ring_offset r (rhead r)) (first_span r (rhead r) (length bs)) bs (store r) !
        ((unat (rtail r) + i) mod ?N)"
    using i ring_put_len [OF assms] ring_put_shape [OF sh bs]
      ring_index [of "ring_put bs r" "rtail r" i]
    by (simp add: ring_contents_def ring_byte_def ring_put_def)
  show "ring_contents (ring_put bs r) ! i = (ring_contents r @ bs) ! i"
  proof (cases "i < ring_len r")
    case True
    let ?j = "?N - ring_len r + i"
    have jN: "?j < ?N" and jb: "\<not> ?j < length bs" using True len room by (auto simp: ring_room_def)
    have "(unat (rhead r) + ?j) mod ?N = ((unat (rtail r) + ring_len r) + ?j) mod ?N"
      using head by (metis mod_add_left_eq)
    also have "\<dots> = (unat (rtail r) + i + ?N) mod ?N" using len by (simp add: algebra_simps)
    finally have ix: "(unat (rtail r) + i) mod ?N = (unat (rhead r) + ?j) mod ?N" by simp
    show ?thesis
      using True span_write_nth [OF sh bs jN, of "rhead r"] jb ring_index [OF sh, of "rtail r" i]
      by (simp add: lhs ix nth_append) (simp add: ring_contents_def ring_byte_def ix)
  next
    case False
    let ?j = "i - ring_len r"
    have j: "?j < length bs" "?j < ?N" using False i bs by auto
    have "(unat (rhead r) + ?j) mod ?N = ((unat (rtail r) + ring_len r) + ?j) mod ?N"
      using head by (metis mod_add_left_eq)
    then have ix: "(unat (rtail r) + i) mod ?N = (unat (rhead r) + ?j) mod ?N"
      using False by simp
    show ?thesis
      using False span_write_nth [OF sh bs j(2), of "rhead r"] j by (simp add: lhs ix nth_append)
  qed
qed

lemma ring_get_shape [simp]:
  "ring_shape (snd (ring_get n r)) = ring_shape r"
  "store (snd (ring_get n r)) = store r" "rmask (snd (ring_get n r)) = rmask r"
  "rhead (snd (ring_get n r)) = rhead r"
  by (simp_all add: ring_get_def ring_shape_def Let_def)

lemma ring_get_len:
  "n \<le> ring_len r \<Longrightarrow> ring_len (snd (ring_get n r)) = ring_len r - n"
  using cursor_advance_tail [of n "rhead r" "rtail r"]
  by (simp add: ring_len_def ringSize_def ring_get_def Let_def)

lemma ring_get_out:
  assumes "ring_inv r" "n \<le> ring_len r"
  shows "fst (ring_get n r) = take n (ring_contents r)"
  using assms span_read_ring [of r n "rtail r"]
  by (simp add: ring_inv_def ring_get_def Let_def ring_contents_def take_map)

lemma ring_get_contents:
  assumes "n \<le> ring_len r"
  shows "ring_contents (snd (ring_get n r)) = drop n (ring_contents r)"
proof -
  have "ring_byte (snd (ring_get n r)) (rtail (snd (ring_get n r))) =
      (\<lambda>i. ring_byte r (rtail r) (n + i))"
    by (rule ext) (simp add: ring_byte_def ring_get_def Let_def add.assoc)
  then have "ring_contents (snd (ring_get n r)) =
      map (\<lambda>i. ring_byte r (rtail r) (n + i)) [0..<ring_len r - n]"
    by (simp add: ring_contents_def ring_get_len assms)
  also have "\<dots> = map (ring_byte r (rtail r)) (map ((+) n) [0..<ring_len r - n])" by simp
  also have "map ((+) n) [0..<ring_len r - n] = [n..<ring_len r]"
    using assms map_add_upt [of n "ring_len r - n"] by (simp add: add.commute [of n] cong: map_cong)
  finally show ?thesis by (simp add: ring_contents_def drop_map)
qed

lemma ring_get_inv: "ring_inv r \<Longrightarrow> n \<le> ring_len r \<Longrightarrow> ring_inv (snd (ring_get n r))"
  by (auto simp: ring_inv_def ring_get_len)

section \<open>The contract of a byte queue\<close>

text \<open>Operations a producer and a consumer interleave: the producer offers bytes it knows to
  fit, the consumer takes up to \<open>n\<close> bytes.\<close>

datatype fifo_op = Put bytes | Get nat

fun fifo_run :: "(bytes \<Rightarrow> 'q \<Rightarrow> 'q) \<Rightarrow> (nat \<Rightarrow> 'q \<Rightarrow> bytes \<times> 'q) \<Rightarrow> fifo_op list \<Rightarrow> 'q \<Rightarrow> bytes \<times> 'q" where
  "fifo_run put get [] q = ([], q)"
| "fifo_run put get (Put bs # ops) q = fifo_run put get ops (put bs q)"
| "fifo_run put get (Get n # ops) q =
     (let (out, q1) = get n q; (rest, q2) = fifo_run put get ops q1 in (out @ rest, q2))"

fun offered :: "fifo_op list \<Rightarrow> bytes" where
  "offered [] = []"
| "offered (Put bs # ops) = bs @ offered ops"
| "offered (Get n # ops) = offered ops"

text \<open>Every \<open>Put\<close> of the run fits at its point, and every \<open>Get\<close> asks for no more than is there.\<close>

fun fifo_fits :: "(bytes \<Rightarrow> 'q \<Rightarrow> 'q) \<Rightarrow> (nat \<Rightarrow> 'q \<Rightarrow> bytes \<times> 'q) \<Rightarrow> ('q \<Rightarrow> nat) \<Rightarrow> ('q \<Rightarrow> nat) \<Rightarrow>
    fifo_op list \<Rightarrow> 'q \<Rightarrow> bool" where
  "fifo_fits put get room len [] q = True"
| "fifo_fits put get room len (Put bs # ops) q =
     (length bs \<le> room q \<and> fifo_fits put get room len ops (put bs q))"
| "fifo_fits put get room len (Get n # ops) q =
     (n \<le> len q \<and> fifo_fits put get room len ops (snd (get n q)))"

locale byte_fifo =
  fixes contents :: "'q \<Rightarrow> bytes"
    and invar :: "'q \<Rightarrow> bool"
    and room :: "'q \<Rightarrow> nat"
    and put :: "bytes \<Rightarrow> 'q \<Rightarrow> 'q"
    and get :: "nat \<Rightarrow> 'q \<Rightarrow> bytes \<times> 'q"
  assumes put_contents: "invar q \<Longrightarrow> length bs \<le> room q \<Longrightarrow> contents (put bs q) = contents q @ bs"
    and put_invar: "invar q \<Longrightarrow> length bs \<le> room q \<Longrightarrow> invar (put bs q)"
    and get_out: "invar q \<Longrightarrow> n \<le> length (contents q) \<Longrightarrow> fst (get n q) = take n (contents q)"
    and get_contents: "invar q \<Longrightarrow> n \<le> length (contents q) \<Longrightarrow>
      contents (snd (get n q)) = drop n (contents q)"
    and get_invar: "invar q \<Longrightarrow> n \<le> length (contents q) \<Longrightarrow> invar (snd (get n q))"
begin

text \<open>First-in first-out and nothing lost: what was read so far followed by what is still queued
  is what was queued at the start followed by everything offered, in order.\<close>

lemma run_fifo:
  assumes "invar q" "fifo_fits put get room (\<lambda>q. length (contents q)) ops q"
    and "fifo_run put get ops q = (out, q')"
  shows "invar q' \<and> out @ contents q' = contents q @ offered ops"
  using assms
proof (induction ops arbitrary: q out)
  case Nil
  then show ?case by simp
next
  case (Cons op ops)
  show ?case
  proof (cases op)
    case (Put bs)
    with Cons.prems Cons.IH [of "put bs q" out] show ?thesis
      by (simp add: put_invar put_contents)
  next
    case (Get n)
    obtain o1 q1 where g: "get n q = (o1, q1)" by fastforce
    obtain rest where r: "fifo_run put get ops q1 = (rest, q')" and out: "out = o1 @ rest"
      using Cons.prems(3) by (auto simp: Get g split: prod.splits)
    have "n \<le> length (contents q)" using Cons.prems(2) by (simp add: Get)
    then have "invar q1" "contents q1 = drop n (contents q)" "o1 = take n (contents q)"
      using Cons.prems(1) get_invar [of q n] get_contents [of q n] get_out [of q n] g by simp_all
    then show ?thesis
      using Cons.IH [of q1 rest] Cons.prems(2) r out by (simp add: Get g)
  qed
qed

end

interpretation ring: byte_fifo ring_contents ring_inv ring_room ring_put ring_get
  by unfold_locales
    (simp_all add: ring_put_contents ring_put_inv ring_get_out ring_get_contents ring_get_inv)

section \<open>Byte pipes\<close>

text \<open>A component that takes bytes in at one end and lets them out at the other: every operation
  reports what it accepted and what it emitted.  If each single operation keeps the bytes in
  order, so does every interleaving.\<close>

fun pipe_run :: "('op \<Rightarrow> 's \<Rightarrow> bytes \<times> bytes \<times> 's) \<Rightarrow> 'op list \<Rightarrow> 's \<Rightarrow> bytes \<times> bytes \<times> 's" where
  "pipe_run step [] s = ([], [], s)"
| "pipe_run step (op # ops) s =
     (case step op s of (inn, out, s1) \<Rightarrow>
        case pipe_run step ops s1 of (inns, outs, s2) \<Rightarrow> (inn @ inns, out @ outs, s2))"

fun pipe_ok :: "('op \<Rightarrow> 's \<Rightarrow> bytes \<times> bytes \<times> 's) \<Rightarrow> ('op \<Rightarrow> 's \<Rightarrow> bool) \<Rightarrow> 'op list \<Rightarrow> 's \<Rightarrow> bool" where
  "pipe_ok step allowed [] s \<longleftrightarrow> True"
| "pipe_ok step allowed (op # ops) s \<longleftrightarrow>
     allowed op s \<and> pipe_ok step allowed ops (snd (snd (step op s)))"

locale byte_pipe =
  fixes contents :: "'s \<Rightarrow> bytes" and invar :: "'s \<Rightarrow> bool"
    and allowed :: "'op \<Rightarrow> 's \<Rightarrow> bool" and step :: "'op \<Rightarrow> 's \<Rightarrow> bytes \<times> bytes \<times> 's"
  assumes step_flow: "invar s \<Longrightarrow> allowed op s \<Longrightarrow> step op s = (inn, out, s') \<Longrightarrow>
      out @ contents s' = contents s @ inn"
    and step_invar: "invar s \<Longrightarrow> allowed op s \<Longrightarrow> step op s = (inn, out, s') \<Longrightarrow> invar s'"
begin

lemma run_flow:
  assumes "invar s" "pipe_ok step allowed ops s" "pipe_run step ops s = (inns, outs, s')"
  shows "invar s' \<and> outs @ contents s' = contents s @ inns"
  using assms
proof (induction ops arbitrary: s inns outs)
  case Nil
  then show ?case by simp
next
  case (Cons op ops)
  obtain inn out s1 where st: "step op s = (inn, out, s1)" by (metis prod_cases3)
  obtain inns1 outs1 where r: "pipe_run step ops s1 = (inns1, outs1, s')"
    and io: "inns = inn @ inns1" "outs = out @ outs1"
    using Cons.prems(3) by (auto simp: st split: prod.splits)
  have "invar s1" "out @ contents s1 = contents s @ inn"
    using Cons.prems st step_invar step_flow by (auto simp: st)
  moreover have "invar s' \<and> outs1 @ contents s' = contents s1 @ inns1"
    using Cons.IH [OF \<open>invar s1\<close> _ r] Cons.prems(2) st by simp
  ultimately show ?case using io by (metis append_assoc)
qed

end

end
