(* ===== verification/Flight_Recorder.thy ===== *)
theory Flight_Recorder
  imports Prelude
begin

text \<open>
  \<^verbatim>\<open>include/liblowlatencyaudio/PacketFlightRecorder.h\<close>: the fixed-size event recorder.  Records go
  into a power-of-two array at \<open>sequence & mask\<close>; the oldest are overwritten.  An operation is
  one step of the model, so the torn-record window that concurrent producers leave to the
  reader (\<open>snapshot\<close> runs after production stopped) is outside it.

  The abstraction is the list of accepted events, oldest first (\<open>recorder_holds\<close>).  The
  properties say that a snapshot returns exactly the newest accepted events in order, whatever
  the mask and the freeze trigger.
\<close>

section \<open>Data\<close>

datatype Event = Unknown | PlaybackComplete | QuantumOffered | QuantumRefused | CaptureComplete
  | PlaybackUnderrun | TransferDeferred | DeferredNoMetadata | DeferredNoPcm | SignalDiscontinuity
  | TransferDiscontinuity | CaptureDiscontinuity | CaptureModulation | QuantumLost

fun event_code :: "Event \<Rightarrow> nat" where
  "event_code Unknown = 0"
| "event_code PlaybackComplete = 1"
| "event_code QuantumOffered = 2"
| "event_code QuantumRefused = 3"
| "event_code CaptureComplete = 4"
| "event_code PlaybackUnderrun = 5"
| "event_code TransferDeferred = 6"
| "event_code DeferredNoMetadata = 7"
| "event_code DeferredNoPcm = 8"
| "event_code SignalDiscontinuity = 9"
| "event_code TransferDiscontinuity = 10"
| "event_code CaptureDiscontinuity = 11"
| "event_code CaptureModulation = 12"
| "event_code QuantumLost = 13"

record Record =
  rec_sequence :: u64
  rec_timestampNs :: u64
  rec_a :: u32
  rec_b :: u32
  rec_ringFrames :: u32
  rec_queuedFrames :: u32
  rec_event :: Event
  rec_reserved :: u16

definition emptyRecord :: Record where
  "emptyRecord = \<lparr>rec_sequence = 0, rec_timestampNs = 0, rec_a = 0, rec_b = 0, rec_ringFrames = 0,
     rec_queuedFrames = 0, rec_event = Unknown, rec_reserved = 0\<rparr>"

record PacketFlightRecorder =
  records :: "Record list"
  fr_capacity :: u64
  fr_mask :: u64
  nextSequence :: u64
  fr_enabled :: bool
  fr_frozen :: bool
  freezeTrigger :: Event
  eventMask :: u32

section \<open>Operations\<close>

lemma pow2_below_limit: "(2::nat) ^ e < 1048576 \<Longrightarrow> e < 20"
  using power_less_imp_less_exp [of "2::nat" e 20] by simp

text \<open>The capacity loop of the constructor doubles from 1; after \<open>e\<close> rounds it holds \<open>2^e\<close>.\<close>

function capacity_loop :: "nat \<Rightarrow> nat \<Rightarrow> nat" where
  "capacity_loop requested e =
     (if 2 ^ e < requested \<and> (2::nat) ^ e < 2 ^ 20 then capacity_loop requested (Suc e) else 2 ^ e)"
  by pat_completeness auto
termination
  by (relation "measure (\<lambda>(req, e). 20 - e)") (auto dest: pow2_below_limit)

declare capacity_loop.simps [simp del]

definition newRecorder :: "u64 \<Rightarrow> PacketFlightRecorder" where
  "newRecorder requestedCapacity =
     (let c = capacity_loop (unat requestedCapacity) 0
      in \<lparr>records = replicate c emptyRecord, fr_capacity = of_nat c, fr_mask = of_nat c - 1,
          nextSequence = 0, fr_enabled = False, fr_frozen = False, freezeTrigger = Unknown,
          eventMask = 0\<rparr>)"

definition recorder_reset :: "PacketFlightRecorder \<Rightarrow> PacketFlightRecorder" where
  "recorder_reset r =
     r\<lparr>records := map (\<lambda>x. x\<lparr>rec_sequence := 0, rec_event := Unknown\<rparr>) (records r),
       nextSequence := 0, fr_frozen := False\<rparr>"

definition setEnabled :: "bool \<Rightarrow> PacketFlightRecorder \<Rightarrow> PacketFlightRecorder" where
  "setEnabled en r =
     (let r1 = (if en then recorder_reset r else r) in r1\<lparr>fr_frozen := False, fr_enabled := en\<rparr>)"

definition setEventMask :: "u32 \<Rightarrow> PacketFlightRecorder \<Rightarrow> PacketFlightRecorder" where
  "setEventMask m r = r\<lparr>eventMask := m\<rparr>"

definition maskOf :: "Event \<Rightarrow> u32" where
  "maskOf ev = push_bit (event_code ev) 1"

text \<open>The filter of \<open>record\<close>: a nonzero mask without the event's bit.\<close>

definition mask_rejects :: "u32 \<Rightarrow> Event \<Rightarrow> bool" where
  "mask_rejects m ev \<longleftrightarrow> m \<noteq> 0 \<and> m AND maskOf ev = 0"

definition anomalyMask :: u32 where
  "anomalyMask = maskOf QuantumRefused OR maskOf PlaybackUnderrun OR maskOf TransferDeferred OR
     maskOf DeferredNoMetadata OR maskOf DeferredNoPcm OR maskOf SignalDiscontinuity OR
     maskOf TransferDiscontinuity OR maskOf CaptureDiscontinuity OR maskOf CaptureModulation OR
     maskOf QuantumLost"

definition setFreezeTrigger :: "Event \<Rightarrow> PacketFlightRecorder \<Rightarrow> PacketFlightRecorder" where
  "setFreezeTrigger trigger r = r\<lparr>freezeTrigger := trigger\<rparr>"

definition recorder_record ::
    "Event \<Rightarrow> u64 \<Rightarrow> u32 \<Rightarrow> u32 \<Rightarrow> u32 \<Rightarrow> u32 \<Rightarrow> PacketFlightRecorder \<Rightarrow> PacketFlightRecorder" where
  "recorder_record ev timestampNs a b ringFrames queuedFrames r =
     (if \<not> fr_enabled r then r
      else if fr_frozen r then r
      else if mask_rejects (eventMask r) ev then r
      else
        let sequence = nextSequence r;
            slot = unat (sequence AND fr_mask r);
            written = (records r ! slot)\<lparr>rec_timestampNs := timestampNs, rec_a := a, rec_b := b,
              rec_ringFrames := ringFrames, rec_queuedFrames := queuedFrames, rec_event := ev,
              rec_sequence := sequence + 1\<rparr>;
            r1 = r\<lparr>nextSequence := sequence + 1, records := (records r)[slot := written]\<rparr>
        in if ev = freezeTrigger r then r1\<lparr>fr_frozen := True\<rparr> else r1)"

definition recorded :: "PacketFlightRecorder \<Rightarrow> u64" where
  "recorded r = nextSequence r"

definition dropped :: "PacketFlightRecorder \<Rightarrow> u64" where
  "dropped r = (if recorded r > fr_capacity r then recorded r - fr_capacity r else 0)"

text \<open>A snapshot into a caller's array of the given capacity; the list is the array's prefix
  the call writes, its length the value returned.  A null array is capacity 0.\<close>

definition snapshot :: "u64 \<Rightarrow> PacketFlightRecorder \<Rightarrow> Record list" where
  "snapshot outCapacity r =
     (if outCapacity = 0 then []
      else
        let total = recorded r;
            available = (if total < fr_capacity r then total else fr_capacity r);
            first = total - available;
            wanted = (if available < outCapacity then available else outCapacity);
            start = first + (available - wanted)
        in map (\<lambda>i. records r ! unat ((start + of_nat i) AND fr_mask r)) [0..<unat wanted])"

section \<open>Abstraction: the accepted events\<close>

text \<open>An offered event: its kind, time and the four values recorded with it.\<close>

type_synonym offer = "Event \<times> u64 \<times> u32 \<times> u32 \<times> u32 \<times> u32"

definition offer_to :: "offer \<Rightarrow> PacketFlightRecorder \<Rightarrow> PacketFlightRecorder" where
  "offer_to x r = (case x of (ev, t, a, b, rf, qf) \<Rightarrow> recorder_record ev t a b rf qf r)"

text \<open>What an enabled, unfrozen recorder keeps of a sequence of offers: those the mask lets
  through, up to and including the first one of the trigger's kind.\<close>

fun accepted :: "Event \<Rightarrow> u32 \<Rightarrow> offer list \<Rightarrow> offer list" where
  "accepted trigger m [] = []"
| "accepted trigger m (x # xs) =
     (if mask_rejects m (fst x) then accepted trigger m xs
      else if fst x = trigger then [x] else x # accepted trigger m xs)"

definition shows_offer :: "Record \<Rightarrow> nat \<Rightarrow> offer \<Rightarrow> bool" where
  "shows_offer c i x \<longleftrightarrow>
     (rec_event c, rec_timestampNs c, rec_a c, rec_b c, rec_ringFrames c, rec_queuedFrames c) = x \<and>
     rec_sequence c = of_nat (Suc i)"

definition recorder_shape :: "PacketFlightRecorder \<Rightarrow> nat \<Rightarrow> bool" where
  "recorder_shape r k \<longleftrightarrow> k \<le> 20 \<and> length (records r) = 2 ^ k \<and> fr_capacity r = 2 ^ k \<and> fr_mask r = mask k"

text \<open>The array holds the newest \<open>capacity\<close> entries of the history \<open>h\<close>, each in its slot and
  carrying its one-based sequence number.\<close>

definition recorder_holds :: "PacketFlightRecorder \<Rightarrow> nat \<Rightarrow> offer list \<Rightarrow> bool" where
  "recorder_holds r k h \<longleftrightarrow>
     recorder_shape r k \<and> nextSequence r = of_nat (length h) \<and>
     (\<forall>i < length h. length h \<le> i + 2 ^ k \<longrightarrow> shows_offer (records r ! (i mod 2 ^ k)) i (h ! i))"

lemma maskOf_table: "maskOf ev = 2 ^ event_code ev"
  by (simp add: maskOf_def push_bit_eq_mult)

section \<open>Lemmas\<close>

lemma capacity_loop_pow2: "e \<le> 20 \<Longrightarrow> \<exists>k\<le>20. capacity_loop n e = 2 ^ k"
proof (induction n e rule: capacity_loop.induct)
  case (1 requested e)
  show ?case
  proof (cases "2 ^ e < requested \<and> (2::nat) ^ e < 2 ^ 20")
    case True
    then have "Suc e \<le> 20" using pow2_below_limit [of e] by simp
    with True "1.IH" show ?thesis by (simp add: capacity_loop.simps [of requested e])
  next
    case False
    with "1.prems" show ?thesis by (auto simp: capacity_loop.simps [of requested e])
  qed
qed

lemma newRecorder_holds: "\<exists>k. recorder_holds (setEnabled True (f (newRecorder n))) k []"
  if "\<And>r. records (f r) = records r" "\<And>r. fr_capacity (f r) = fr_capacity r"
    "\<And>r. fr_mask (f r) = fr_mask r" for f
proof -
  obtain k where k: "k \<le> 20" "capacity_loop (unat n) 0 = 2 ^ k"
    using capacity_loop_pow2 [of 0 "unat n"] by auto
  have "recorder_holds (setEnabled True (f (newRecorder n))) k []"
    using k that by (simp add: recorder_holds_def recorder_shape_def newRecorder_def setEnabled_def
        recorder_reset_def Let_def mask_eq_exp_minus_1)
  then show ?thesis by blast
qed

text \<open>An accepted event extends the history by itself; a refused one leaves the recorder alone.\<close>

lemma record_extends:
  assumes h: "recorder_holds r k h" and en: "fr_enabled r" "\<not> fr_frozen r"
    and m: "\<not> mask_rejects (eventMask r) (fst x)"
    and small: "Suc (length h) < 2 ^ 64"
  shows "recorder_holds (offer_to x r) k (h @ [x])"
proof -
  obtain ev t a b rf qf where x: "x = (ev, t, a, b, rf, qf)" by (cases x) auto
  let ?n = "length h"
  have sh: "k \<le> 20" "length (records r) = 2 ^ k" "fr_mask r = mask k"
    and ns: "nextSequence r = of_nat ?n"
    using h by (auto simp: recorder_holds_def recorder_shape_def)
  have slot: "unat (nextSequence r AND fr_mask r) = ?n mod 2 ^ k"
    using sh ns small by (simp add: unat_and_mask)
  let ?w = "(records r ! (?n mod 2 ^ k))\<lparr>rec_timestampNs := t, rec_a := a, rec_b := b,
      rec_ringFrames := rf, rec_queuedFrames := qf, rec_event := ev,
      rec_sequence := nextSequence r + 1\<rparr>"
  have rec': "records (offer_to x r) = (records r)[?n mod 2 ^ k := ?w]"
    and ns': "nextSequence (offer_to x r) = nextSequence r + 1"
    and sh': "fr_capacity (offer_to x r) = fr_capacity r" "fr_mask (offer_to x r) = fr_mask r"
    using en m by (simp_all add: x offer_to_def recorder_record_def Let_def slot)
  have old: "shows_offer (records (offer_to x r) ! (i mod 2 ^ k)) i ((h @ [x]) ! i)"
    if i: "i < Suc ?n" "Suc ?n \<le> i + 2 ^ k" for i
  proof (cases "i = ?n")
    case True
    have "shows_offer ?w ?n x" by (simp add: shows_offer_def x ns)
    then show ?thesis using True sh by (simp add: rec')
  next
    case False
    then have lt: "i < ?n" "?n \<le> i + 2 ^ k" using i by auto
    then have "?n mod 2 ^ k \<noteq> i mod 2 ^ k"
    proof -
      have "?n - i < 2 ^ k" "0 < ?n - i" using i False by auto
      then have "(?n - i) mod 2 ^ k \<noteq> 0" by simp
      then show ?thesis using lt by (metis less_imp_le mod_eq_dvd_iff_nat mod_eq_0_iff_dvd)
    qed
    then show ?thesis using lt h by (simp add: rec' nth_append recorder_holds_def)
  qed
  then show ?thesis using h sh' ns' rec' ns
    by (auto simp: recorder_holds_def recorder_shape_def)
qed

lemma offer_config [simp]:
  "freezeTrigger (offer_to x r) = freezeTrigger r" "eventMask (offer_to x r) = eventMask r"
  "fr_enabled (offer_to x r) = fr_enabled r"
  by (auto simp: offer_to_def recorder_record_def Let_def split: prod.splits)

lemma offer_frozen:
  "fr_enabled r \<Longrightarrow> \<not> fr_frozen r \<Longrightarrow> fr_frozen (offer_to x r) \<longleftrightarrow>
     \<not> mask_rejects (eventMask r) (fst x) \<and> fst x = freezeTrigger r"
  by (auto simp: offer_to_def recorder_record_def Let_def split: prod.splits)

lemma offers_frozen: "fr_frozen r \<Longrightarrow> fold offer_to xs r = r"
  by (induction xs) (auto simp: offer_to_def recorder_record_def split: prod.splits)

lemma offers_hold:
  assumes "recorder_holds r k h" "fr_enabled r" "\<not> fr_frozen r"
    and "length h + length xs < 2 ^ 64"
  shows "recorder_holds (fold offer_to xs r) k (h @ accepted (freezeTrigger r) (eventMask r) xs)"
  using assms
proof (induction xs arbitrary: r h)
  case Nil
  then show ?case by simp
next
  case (Cons x xs)
  show ?case
  proof (cases "mask_rejects (eventMask r) (fst x)")
    case True
    then have "offer_to x r = r" by (auto simp: offer_to_def recorder_record_def split: prod.splits)
    with Cons.IH [of r h] Cons.prems True show ?thesis by simp
  next
    case False
    have n: "Suc (length h) < 2 ^ 64" using Cons.prems(4) by simp
    note ext = record_extends [OF Cons.prems(1-3) False n]
    show ?thesis
    proof (cases "fst x = freezeTrigger r")
      case True
      then have "fr_frozen (offer_to x r)" using Cons.prems False by (simp add: offer_frozen)
      then show ?thesis using ext True False by (simp add: offers_frozen)
    next
      case keep: False
      then have "\<not> fr_frozen (offer_to x r)" using Cons.prems False by (simp add: offer_frozen)
      then show ?thesis using Cons.IH [OF ext] Cons.prems keep False by simp
    qed
  qed
qed

lemma snapshot_holds:
  fixes n :: u64
  assumes h: "recorder_holds r k h" and small: "length h < 2 ^ 64"
  defines "w \<equiv> min (unat n) (min (length h) (2 ^ k))"
  shows "length (snapshot n r) = w \<and>
    (\<forall>i<w. shows_offer (snapshot n r ! i) (length h - w + i) (h ! (length h - w + i)))"
proof (cases "n = 0")
  case True
  then show ?thesis by (simp add: snapshot_def w_def)
next
  case False
  let ?L = "length h"
  have sh: "k \<le> 20" "fr_mask r = mask k" and ns: "nextSequence r = of_nat ?L"
    and cap: "fr_capacity r = of_nat (2 ^ k)"
    using h by (auto simp: recorder_holds_def recorder_shape_def)
  have k64: "(2::nat) ^ k < 2 ^ 64" using sh by (intro power_strict_increasing) auto
  define av :: u64 where "av = of_nat (min ?L (2 ^ k))"
  have av: "(if recorded r < fr_capacity r then recorded r else fr_capacity r) = av"
    using small k64 unfolding recorded_def ns cap av_def word_less_nat_alt
    by (simp only: unat_of_nat64) (auto simp: min_def)
  have uav: "unat av = min ?L (2 ^ k)" using small k64 by (simp add: av_def min_def)
  define wa :: u64 where "wa = of_nat w"
  have w64: "w < 2 ^ 64" using small by (simp add: w_def)
  have uwa: "unat wa = w" using w64 by (simp add: wa_def)
  have wa: "(if av < n then av else n) = wa"
    by (auto simp: word_unat_eq_iff uwa uav w_def word_less_nat_alt)
  have start: "recorded r - av + (av - wa) + of_nat i = of_nat (?L - w + i)" for i
    by (simp add: recorded_def ns wa_def w_def)
  have snap: "snapshot n r = map (\<lambda>i. records r ! ((?L - w + i) mod 2 ^ k)) [0..<w]"
  proof -
    have "unat (of_nat (?L - w + i) AND mask k :: u64) = (?L - w + i) mod 2 ^ k" if "i < w" for i
    proof -
      have "w \<le> ?L" by (simp add: w_def)
      then have "?L - w + i < 2 ^ 64" using that small by linarith
      moreover have "k \<le> 64" using sh(1) by simp
      ultimately show ?thesis by (simp only: unat_and_mask unat_of_nat64)
    qed
    moreover have "snapshot n r =
        map (\<lambda>i. records r ! unat (of_nat (?L - w + i) AND mask k :: u64)) [0..<w]"
      by (simp only: snapshot_def Let_def False if_False av wa start uwa sh)
    ultimately show ?thesis by (simp cong: map_cong)
  qed
  show ?thesis
    using h by (auto simp: snap recorder_holds_def w_def)
qed

section \<open>Properties\<close>

text \<open>C28. Whatever event mask and freeze trigger are configured, and whatever events the producers
  then offer, a snapshot returns exactly the newest accepted events in chronological order: as
  many as the caller's array, the recorder's capacity and the history allow, each with the
  values it was offered with and its own sequence number.  Accepted are the events the mask lets
  through up to and including the first trigger event, which holds of the trigger \<open>Unknown\<close> too: the
  comment on \<open>setFreezeTrigger\<close> says it disables freezing, the code freezes at the first Unknown event.\<close>

theorem snapshot_returns_newest_accepted:
  fixes offers :: "offer list" and trigger :: Event and m :: u32 and requested n :: u64
  assumes "length offers < 2 ^ 64"
  defines "r \<equiv> setEnabled True (setFreezeTrigger trigger (setEventMask m (newRecorder requested)))"
    and "h \<equiv> accepted trigger m offers"
  shows "\<exists>k\<le>20. fr_capacity r = 2 ^ k \<and>
    (let w = min (unat n) (min (length h) (2 ^ k)); out = snapshot n (fold offer_to offers r) in
       length out = w \<and>
       (\<forall>i<w. shows_offer (out ! i) (length h - w + i) (h ! (length h - w + i))))"
proof -
  obtain k where k: "recorder_holds r k []"
    using newRecorder_holds [of "setFreezeTrigger trigger \<circ> setEventMask m" requested]
    by (auto simp: r_def setFreezeTrigger_def setEventMask_def)
  have cfg: "fr_enabled r" "\<not> fr_frozen r" "freezeTrigger r = trigger" "eventMask r = m"
    by (simp_all add: r_def setEnabled_def setFreezeTrigger_def setEventMask_def recorder_reset_def)
  have len: "length h \<le> length offers"
    unfolding h_def by (induction offers) auto
  have "recorder_holds (fold offer_to offers r) k h"
    using offers_hold [OF k cfg(1,2)] assms(1) cfg by (simp add: h_def)
  then have "length (snapshot n (fold offer_to offers r)) = min (unat n) (min (length h) (2 ^ k)) \<and>
      (\<forall>i<min (unat n) (min (length h) (2 ^ k)).
         shows_offer (snapshot n (fold offer_to offers r) ! i)
           (length h - min (unat n) (min (length h) (2 ^ k)) + i)
           (h ! (length h - min (unat n) (min (length h) (2 ^ k)) + i)))"
    using len assms(1) by (intro snapshot_holds) simp_all
  moreover have "k \<le> 20" "fr_capacity r = 2 ^ k"
    using k by (simp_all add: recorder_holds_def recorder_shape_def)
  ultimately show ?thesis by (auto simp: Let_def)
qed

theorem snapshot_returns_newest_accepted_witness:
  "\<exists>k\<le>20. fr_capacity (setEnabled True (setFreezeTrigger QuantumRefused (setEventMask 0 (newRecorder 2)))) = 2 ^ k \<and>
    (let h = accepted QuantumRefused 0 [(PlaybackComplete, 1, 0, 0, 0, 0), (QuantumRefused, 2, 0, 0, 0, 0),
           (PlaybackComplete, 3, 0, 0, 0, 0)];
         w = min (unat (8::u64)) (min (length h) (2 ^ k));
         out = snapshot 8 (fold offer_to [(PlaybackComplete, 1, 0, 0, 0, 0), (QuantumRefused, 2, 0, 0, 0, 0),
           (PlaybackComplete, 3, 0, 0, 0, 0)]
           (setEnabled True (setFreezeTrigger QuantumRefused (setEventMask 0 (newRecorder 2))))) in
       length out = w \<and>
       (\<forall>i<w. shows_offer (out ! i) (length h - w + i) (h ! (length h - w + i))))"
  unfolding Let_def
  by (rule snapshot_returns_newest_accepted [of "[(PlaybackComplete, 1, 0, 0, 0, 0),
      (QuantumRefused, 2, 0, 0, 0, 0), (PlaybackComplete, 3, 0, 0, 0, 0)]" QuantumRefused 0 2 8,
      unfolded Let_def]) simp

text \<open>\<open>dropped()\<close> plus the records a full snapshot returns is the number of events accepted:
  nothing is lost without being counted.\<close>

theorem dropped_accounts_for_overwritten:
  assumes "recorder_holds r k h" "length h < 2 ^ 64"
  shows "unat (dropped r) + length (snapshot (fr_capacity r) r) = length h \<and>
    unat (recorded r) = length h"
proof -
  have sh: "k \<le> 20" "fr_capacity r = of_nat (2 ^ k)" and ns: "nextSequence r = of_nat (length h)"
    using assms(1) by (simp_all add: recorder_holds_def recorder_shape_def)
  have "(2::nat) ^ k < 2 ^ 64" using sh by (intro power_strict_increasing) auto
  then have uc: "unat (fr_capacity r) = 2 ^ k" unfolding sh(2) by (rule unat_of_nat64)
  have un: "unat (recorded r) = length h" using assms(2) by (simp add: recorded_def ns)
  have "unat (dropped r) = length h - 2 ^ k"
    by (auto simp: dropped_def word_less_nat_alt un uc unat_sub word_le_nat_alt)
  then show ?thesis using snapshot_holds [OF assms, of "fr_capacity r"] un by (simp add: uc)
qed

lemma recorder_example:
  "recorder_holds (setEnabled True (newRecorder 0)) 0 []"
  by (simp add: recorder_holds_def recorder_shape_def newRecorder_def setEnabled_def
      recorder_reset_def capacity_loop.simps Let_def)

theorem dropped_accounts_for_overwritten_witness:
  "unat (dropped (fold offer_to [(PlaybackComplete, 1, 0, 0, 0, 0), (PlaybackComplete, 2, 0, 0, 0, 0)]
     (setFreezeTrigger QuantumLost (setEnabled True (newRecorder 0))))) + 1 = 2"
proof -
  let ?r = "setFreezeTrigger QuantumLost (setEnabled True (newRecorder 0))"
  let ?xs = "[(PlaybackComplete, 1, 0, 0, 0, 0), (PlaybackComplete, 2, 0, 0, 0, 0)] :: offer list"
  have "recorder_holds ?r 0 []"
    using recorder_example by (simp add: recorder_holds_def recorder_shape_def setFreezeTrigger_def)
  moreover have "fr_enabled ?r" "\<not> fr_frozen ?r" "freezeTrigger ?r = QuantumLost" "eventMask ?r = 0"
    by (simp_all add: setFreezeTrigger_def setEnabled_def recorder_reset_def newRecorder_def Let_def)
  ultimately have h: "recorder_holds (fold offer_to ?xs ?r) 0 ?xs"
    using offers_hold [of ?r 0 "[]" ?xs] by (simp add: mask_rejects_def)
  have "length (snapshot (fr_capacity (fold offer_to ?xs ?r)) (fold offer_to ?xs ?r)) = 1"
    using snapshot_holds [OF h, of "fr_capacity (fold offer_to ?xs ?r)"] h
    by (simp add: recorder_holds_def recorder_shape_def)
  then show ?thesis using dropped_accounts_for_overwritten [OF h] by simp
qed

end
