(* ===== verification/Wake_Channel.thy ===== *)
theory Wake_Channel
  imports Prelude
begin

text \<open>
  \<^verbatim>\<open>include/liblowlatencyaudio/WakeChannel.h\<close>: an eventfd plus a count of registered waiters.  The
  kernel object is its counter: a write of one adds one unless the counter is at its maximum
  (non-blocking descriptors), a read resets it, and the descriptor polls readable while the
  counter is nonzero.

  The second half models one producer and one waiter as a step relation over sequentially
  consistent steps, the order the seq-cst fence and read-modify-writes of the code establish, and
  proves the lost-wakeup argument of the class comment by rule induction.  The producer's steps are
  those of \<open>signalIfWaiting\<close> after a publication, the waiter's are the constructor and destructor of
  \<open>Registration\<close> around a wait loop that checks, polls and drains, as the capture waits and
  \<open>waitForWritableFrames\<close> do.  The two playback waits with a deadline poll without draining; they are
  modelled as they are in \<open>Waits\<close>.
\<close>

section \<open>The channel\<close>

record wake =
  wk_fd :: int
  wk_count :: u64
  wk_waiters :: int

definition newWake :: wake where
  "newWake = \<lparr>wk_fd = -1, wk_count = 0, wk_waiters = 0\<rparr>"

text \<open>\<open>open\<close> and \<open>close\<close>; the argument is what the \<open>eventfd\<close> call returned.\<close>

definition wake_open :: "int \<Rightarrow> wake \<Rightarrow> bool \<times> wake" where
  "wake_open fd w =
     (if wk_fd w \<ge> 0 then (True, w)
      else (fd \<ge> 0, w\<lparr>wk_fd := fd, wk_count := 0\<rparr>))"

definition wake_close :: "wake \<Rightarrow> wake" where
  "wake_close w = (if wk_fd w < 0 then w else w\<lparr>wk_fd := -1\<rparr>)"

definition wake_valid :: "wake \<Rightarrow> bool" where
  "wake_valid w \<longleftrightarrow> wk_fd w \<ge> 0"

definition eventfd_write1 :: "u64 \<Rightarrow> u64" where
  "eventfd_write1 c = (if c \<ge> 18446744073709551614 then c else c + 1)"

definition wake_signal :: "wake \<Rightarrow> wake" where
  "wake_signal w = (if wk_fd w < 0 then w else w\<lparr>wk_count := eventfd_write1 (wk_count w)\<rparr>)"

definition wake_signalIfWaiting :: "wake \<Rightarrow> wake" where
  "wake_signalIfWaiting w =
     (if wk_fd w < 0 then w else if wk_waiters w > 0 then wake_signal w else w)"

definition wake_register :: "wake \<Rightarrow> wake" where
  "wake_register w = w\<lparr>wk_waiters := wk_waiters w + 1\<rparr>"

definition wake_unregister :: "wake \<Rightarrow> wake" where
  "wake_unregister w = w\<lparr>wk_waiters := wk_waiters w - 1\<rparr>"

definition wake_drain :: "wake \<Rightarrow> wake" where
  "wake_drain w = (if wk_fd w < 0 then w else w\<lparr>wk_count := 0\<rparr>)"

text \<open>The retry loop of \<open>poll\<close>: the arguments are the successive results of the \<open>poll\<close> system
  call, each with whether \<open>errno\<close> was \<open>EINTR\<close>.  \<open>None\<close> is a call that never returns.\<close>

fun poll_retry :: "(int \<times> bool) list \<Rightarrow> bool option" where
  "poll_retry [] = None"
| "poll_retry ((result, eintr) # rest) =
     (if result < 0 \<and> eintr then poll_retry rest else Some (result > 0))"

definition wake_poll :: "(int \<times> bool) list \<Rightarrow> wake \<Rightarrow> bool option" where
  "wake_poll results w = (if wk_fd w < 0 then Some False else poll_retry results)"

text \<open>The loop of \<open>pollUntil\<close>: each round reads the clock and, before the deadline, calls
  \<open>ppoll\<close> with the time that remains.\<close>

fun ppoll_until :: "int \<Rightarrow> (int \<times> int \<times> bool) list \<Rightarrow> bool option" where
  "ppoll_until deadline [] = None"
| "ppoll_until deadline ((now, result, eintr) # rest) =
     (if now \<ge> deadline then Some False
      else if result > 0 then Some True
      else if result = 0 then Some False
      else if \<not> eintr then Some False
      else ppoll_until deadline rest)"

definition wake_pollUntil :: "int \<Rightarrow> (int \<times> int \<times> bool) list \<Rightarrow> wake \<Rightarrow> bool option" where
  "wake_pollUntil deadline rounds w =
     (if wk_fd w < 0 then Some False else ppoll_until deadline rounds)"

lemmas wake_defs = wake_signal_def wake_signalIfWaiting_def wake_register_def
  wake_unregister_def wake_drain_def

lemma eventfd_write1_nonzero [simp]: "eventfd_write1 c \<noteq> 0"
proof (cases "c \<ge> 18446744073709551614")
  case True
  then show ?thesis by (auto simp: eventfd_write1_def word_le_nat_alt)
next
  case False
  then have "unat c < 18446744073709551614" by (simp add: word_le_nat_alt)
  then have "unat (c + 1) = unat c + 1" by (simp add: unat_word_ariths)
  then show ?thesis using False by (auto simp: eventfd_write1_def)
qed

lemma wake_fd_frame [simp, frame]:
  "wk_fd (wake_signal w) = wk_fd w" "wk_fd (wake_signalIfWaiting w) = wk_fd w"
  "wk_fd (wake_register w) = wk_fd w" "wk_fd (wake_unregister w) = wk_fd w"
  "wk_fd (wake_drain w) = wk_fd w"
  "wk_waiters (wake_signal w) = wk_waiters w" "wk_waiters (wake_signalIfWaiting w) = wk_waiters w"
  "wk_waiters (wake_drain w) = wk_waiters w"
  by (simp_all add: wake_defs)

section \<open>One producer and one waiter\<close>

text \<open>The producer publishes frames, reads the waiter count after the fence, and signals if it was
  positive.  The waiter registers, then alternates between checking the state and blocking in
  \<open>poll\<close>, draining after each wake-up, and unregisters once it has its frames
  (\<open>waitForCaptureFrames\<close>, \<open>waitForWritableFrames\<close>).\<close>

datatype producer_pc = P_idle | P_load | P_signal
datatype waiter_pc = W_idle | W_check | W_poll | W_drain | W_done

record wake_sys =
  chan :: wake
  avail :: nat
  need :: nat
  ppc :: producer_pc
  wpc :: waiter_pc

definition wake_start :: "int \<Rightarrow> nat \<Rightarrow> wake_sys" where
  "wake_start fd n = \<lparr>chan = newWake\<lparr>wk_fd := fd\<rparr>, avail = 0, need = n, ppc = P_idle, wpc = W_idle\<rparr>"

inductive wake_step :: "wake_sys \<Rightarrow> wake_sys \<Rightarrow> bool" where
  publish: "ppc s = P_idle \<Longrightarrow> wake_step s (s\<lparr>avail := avail s + n, ppc := P_load\<rparr>)"
| load_waiting: "ppc s = P_load \<Longrightarrow> wk_waiters (chan s) > 0 \<Longrightarrow> wake_step s (s\<lparr>ppc := P_signal\<rparr>)"
| load_none: "ppc s = P_load \<Longrightarrow> \<not> wk_waiters (chan s) > 0 \<Longrightarrow> wake_step s (s\<lparr>ppc := P_idle\<rparr>)"
| signal: "ppc s = P_signal \<Longrightarrow> wake_step s (s\<lparr>chan := wake_signal (chan s), ppc := P_idle\<rparr>)"
| register: "wpc s = W_idle \<Longrightarrow> wake_step s (s\<lparr>chan := wake_register (chan s), wpc := W_check\<rparr>)"
| check_ready: "wpc s = W_check \<Longrightarrow> avail s \<ge> need s \<Longrightarrow> wake_step s (s\<lparr>wpc := W_done\<rparr>)"
| check_wait: "wpc s = W_check \<Longrightarrow> \<not> avail s \<ge> need s \<Longrightarrow> wake_step s (s\<lparr>wpc := W_poll\<rparr>)"
| woken: "wpc s = W_poll \<Longrightarrow> wk_count (chan s) \<noteq> 0 \<Longrightarrow> wake_step s (s\<lparr>wpc := W_drain\<rparr>)"
| drain: "wpc s = W_drain \<Longrightarrow> wake_step s (s\<lparr>chan := wake_drain (chan s), wpc := W_check\<rparr>)"
| leave: "wpc s = W_done \<Longrightarrow>
    wake_step s (s\<lparr>chan := wake_unregister (chan s), avail := avail s - need s, wpc := W_idle\<rparr>)"

inductive wake_reach :: "int \<Rightarrow> nat \<Rightarrow> wake_sys \<Rightarrow> bool" for fd n where
  start: "wake_reach fd n (wake_start fd n)"
| step: "wake_reach fd n s \<Longrightarrow> wake_step s t \<Longrightarrow> wake_reach fd n t"

inductive_cases wake_stepE: "wake_step s t"

text \<open>The waiter count is one exactly between registration and leaving, and a waiter blocked
  although its frames are there has a wake-up coming: the counter is nonzero, or the producer
  has published and not yet finished signalling.\<close>

definition wake_inv :: "wake_sys \<Rightarrow> bool" where
  "wake_inv s \<longleftrightarrow>
     wk_fd (chan s) \<ge> 0 \<and>
     wk_waiters (chan s) = (if wpc s = W_idle then 0 else 1) \<and>
     (wpc s = W_poll \<and> need s \<le> avail s \<longrightarrow> wk_count (chan s) \<noteq> 0 \<or> ppc s \<noteq> P_idle)"

lemma wake_step_inv: "wake_step s t \<Longrightarrow> wake_inv s \<Longrightarrow> wake_inv t"
  by (erule wake_stepE) (auto simp: wake_inv_def wake_defs split: if_splits)

lemma wake_reach_inv: "wake_reach fd n s \<Longrightarrow> fd \<ge> 0 \<Longrightarrow> wake_inv s"
proof (induction rule: wake_reach.induct)
  case start
  then show ?case by (simp add: wake_inv_def wake_start_def newWake_def)
next
  case (step s t)
  then show ?case by (blast intro: wake_step_inv)
qed

section \<open>Properties\<close>

text \<open>C27. No lost wake-up: in every interleaving, a waiter blocked in \<open>poll\<close> while the frames it
  needs are already published either finds the eventfd signalled, or the producer is still
  between its publication and the end of its signal and the only step it can take next leads to a
  signal.  In particular, once the producer has finished, the waiter is not blocked.\<close>

theorem no_lost_wakeup:
  assumes "wake_reach fd n s" "fd \<ge> 0" "wpc s = W_poll" "need s \<le> avail s"
  shows "wk_count (chan s) \<noteq> 0 \<or>
    (ppc s = P_load \<and> wk_waiters (chan s) > 0) \<or>
    (ppc s = P_signal \<and> wk_count (wake_signal (chan s)) \<noteq> 0)"
proof -
  have "wake_inv s" using assms(1,2) by (rule wake_reach_inv)
  then show ?thesis
    using assms by (cases "ppc s") (auto simp: wake_inv_def wake_signal_def)
qed

theorem no_lost_wakeup_witness:
  "\<exists>s. wake_reach 3 1 s \<and> wpc s = W_poll \<and> need s \<le> avail s \<and> wk_count (chan s) = 0 \<and>
     (ppc s = P_signal \<or> (ppc s = P_load \<and> wk_waiters (chan s) > 0))"
proof -
  let ?s0 = "wake_start 3 1"
  let ?s1 = "?s0\<lparr>chan := wake_register (chan ?s0), wpc := W_check\<rparr>"
  let ?s2 = "?s1\<lparr>wpc := W_poll\<rparr>"
  let ?s3 = "?s2\<lparr>avail := avail ?s2 + 1, ppc := P_load\<rparr>"
  have "wake_reach 3 1 ?s1"
    by (rule wake_reach.step [OF wake_reach.start], rule wake_step.register) (simp add: wake_start_def)
  then have "wake_reach 3 1 ?s2"
    by (rule wake_reach.step, intro wake_step.check_wait) (simp_all add: wake_start_def)
  then have r: "wake_reach 3 1 ?s3"
    by (rule wake_reach.step, intro wake_step.publish) (simp add: wake_start_def)
  have h: "wpc ?s3 = W_poll" "need ?s3 \<le> avail ?s3" "wk_count (chan ?s3) = 0"
    by (simp_all add: wake_start_def wake_register_def newWake_def)
  show ?thesis using no_lost_wakeup [OF r _ h(1,2)] r h by auto
qed

end
