(* ===== verification/Driver_State.thy ===== *)
theory Driver_State
  imports Complex_Main Scheduling Byte_Ring Flight_Recorder Wake_Channel
begin

text \<open>
  The state of \<open>LibusbUacDriver\<close> (\<^verbatim>\<open>include/liblowlatencyaudio/libusb_uac_driver.h\<close>) as one record
  of nested records, grouped the way the class groups its members, and the small operations the
  header defines inline.

  What lies outside the repository is a parameter:
  \<^item> \<open>env\<close> holds the answers of libusb (the return code and the data of a call, as a function of
    the calls made before it), the placement of an isochronous packet inside its transfer buffer
    (\<open>libusb_get_iso_packet_buffer\<close>), the successive readings of the monotonic clock, and a bound
    on how many readings the one deliberate busy-wait of the code takes;
  \<^item> every libusb call the driver makes is appended to the ghost field \<open>bus\<close> with its return
    code, so the transfers that reached the wire, in order, are a function of the state.

  A transfer is a value: the driver owns it between its completion and its resubmission, which
  is when its buffer and packet descriptors are read and written.
\<close>

section \<open>Stream formats and statistics\<close>

datatype StartError = Ok | NoDevice | NoMatchingAlt | ClaimInterfaceFailed | SetAltFailed
  | SetSampleRateFailed | IsoPumpAllocFailed | IsoPumpSubmitFailed | TransportStoppedUnexpectedly
  | UnknownError

record ClockRateRange =
  cr_clockId :: u8
  cr_minHz :: u32
  cr_maxHz :: u32
  cr_resHz :: u32

record UsbFormatCandidate =
  fc_sampleRateHz :: int
  fc_bitsPerSample :: int
  fc_bytesPerSample :: int
  fc_channels :: int

record StreamFormat =
  sampleRateHz :: int
  bitsPerSample :: int
  bytesPerSample :: int
  channels :: int
  interfaceNumber :: u8
  altSetting :: u8
  endpointAddress :: u8
  syncEndpointAddress :: u8
  terminalLink :: u8
  maxPacketSize :: u16
  clockSourceId :: u8
  controlInterfaceNum :: u8
  isHighSpeed :: bool
  bInterval :: u8
  uacVersion :: u16
  feedbackEndpointAddress :: u8
  feedbackMaxPacketSize :: u16
  feedbackInterval :: u8
  implicitFeedback :: bool
  candidateClockIds :: "u8 list"

definition defaultStreamFormat :: StreamFormat where
  "defaultStreamFormat =
     \<lparr>sampleRateHz = 0, bitsPerSample = 0, bytesPerSample = 0, channels = 0, interfaceNumber = 0,
      altSetting = 0, endpointAddress = 0, syncEndpointAddress = 0, terminalLink = 0,
      maxPacketSize = 0, clockSourceId = 0, controlInterfaceNum = 0, isHighSpeed = True,
      bInterval = 1, uacVersion = 0x0200, feedbackEndpointAddress = 0, feedbackMaxPacketSize = 0,
      feedbackInterval = 0, implicitFeedback = False, candidateClockIds = []\<rparr>"

text \<open>Bytes per frame, the product the code calls \<open>stride\<close> or \<open>frameStride\<close>.\<close>

definition strideOf :: "StreamFormat \<Rightarrow> int" where
  "strideOf f = channels f * bytesPerSample f"

record CaptureStats =
  cs_overruns :: u64
  cs_underruns :: u64
  cs_sequence :: u64

record ImplicitFeedbackStats =
  if_fifoDepth :: u64
  if_deferredTransfers :: u64
  if_metadataFifoOverruns :: u64
  if_captureTransferErrors :: u64
  if_playbackTransferErrors :: u64
  if_ringFrames :: u64
  if_captureRingFrames :: u64
  if_lifecycleFailures :: u64
  if_transportFailed :: bool
  if_eventThreadUrgentAudio :: bool
  if_pendingDepth :: u64
  if_pendingHighWater :: u64
  if_zeroRunwayEvents :: u64
  if_maxPendingAgeNs :: u64

section \<open>libusb transfers and calls\<close>

datatype transfer_status = Completed | Error | TimedOut | Cancelled | Stall | NoDeviceStatus | Overflow

datatype endpoint_kind = OutEndpoint | InEndpoint | FeedbackEndpoint

record iso_packet =
  pk_length :: u32
  pk_actual :: u32
  pk_status :: transfer_status

record xfer =
  xf_id :: nat
  xf_kind :: endpoint_kind
  xf_status :: transfer_status
  xf_buffer :: bytes
  xf_pkts :: "iso_packet list"

text \<open>The libusb calls of the driver; a control transfer carries its setup fields, the data it
  sends and the length it asks for.\<close>

datatype usb_call =
    Submit xfer
  | Cancel nat
  | Alloc int
  | ClaimInterface u8
  | ReleaseInterface u8
  | SetInterfaceAlt u8 u8
  | Control u8 u8 u16 u16 bytes u16
  | SetNoDeviceDiscovery
  | InitContext
  | WrapSysDevice int
  | SetAutoDetach
  | CloseDevice
  | ExitContext

record env =
  usb_rc :: "(usb_call \<times> int) list \<Rightarrow> usb_call \<Rightarrow> int"
  usb_data :: "(usb_call \<times> int) list \<Rightarrow> usb_call \<Rightarrow> bytes"
  packet_offset :: "xfer \<Rightarrow> nat \<Rightarrow> nat"
  clock_ns :: "nat \<Rightarrow> u64"
  spin_fuel :: nat

abbreviation (input) LIBUSB_SUCCESS :: int where "LIBUSB_SUCCESS \<equiv> 0"

section \<open>The driver's members\<close>

text \<open>Latency budget and transfer geometry.\<close>

record buffering =
  graphQuantum :: int
  playbackTargetFrames :: int
  startupPrimeFrames :: int
  writeHeadroomFrames :: int
  captureLimitFrames :: int
  captureTargetFrames :: int
  captureHeadroomFrames :: int
  captureDeadlineSlackFrames :: int
  userspaceBufferConfig :: UserspaceBufferConfig
  playbackFrameStride :: int
  captureFrameStride :: int
  transferCount :: int
  playbackPacketsPerTransfer :: int
  capturePacketsPerTransfer :: int
  captureTransferFrames :: int
  captureMaxFramesPerPacket :: int
  exactInitialPacketFrames :: int

record modes =
  streaming :: bool
  stopRequested :: bool
  captureActive :: bool
  captureLive :: bool
  playbackStarted :: bool
  deferOutputStart :: bool
  transportFailed :: bool
  playbackOverrunActive :: bool
  playbackUnderrunActive :: bool
  implicitZeroRunwayActive :: bool
  eventThreadUrgentAudio :: bool
  measureServiceRunqueue :: bool

text \<open>The packet-size FIFO capture completions feed to implicit-feedback playback.\<close>

record implicit_fifo =
  implicitFrames :: "u32 list"
  implicitRead :: u64
  implicitWrite :: u64

text \<open>Position, queue and credit ledgers.\<close>

record ledger =
  queuedOutFrames :: u64
  inflight :: int
  captureInflight :: int
  writtenFrames :: int
  playedFrames :: int
  playbackCredit :: int
  playbackCreditReserve :: int

text \<open>Fault and pressure counters of the two directions.\<close>

record capture_counters =
  captureOverruns :: u64
  captureUnderruns :: u64
  captureSequence :: u64
  capturePacketDrops :: u64
  captureTransferErrors :: u64
  startupCaptureDiscardFrames :: u64
  metadataFifoOverruns :: u64
  implicitMetadataInvalid :: u64

record playback_counters =
  deferredTransfers :: u64
  playbackTransferErrors :: u64
  lifecycleFailures :: u64
  pendingDepth :: u64
  pendingHighWater :: u64
  zeroRunwayEvents :: u64
  maxPendingAgeNs :: u64
  playbackOverruns :: u64
  playbackUnderruns :: u64
  transferDiscontinuities :: u64
  deferredNoMetadata :: u64
  deferredNoPcm :: u64
  playbackShortPackets :: u64
  playbackShortFrames :: u64

text \<open>The jitter envelope: completion gaps and drains, ring occupancy, and event-thread service.\<close>

record gap_envelope =
  lastCompletionNs :: u64
  nominalTransferNs :: int
  maxCompletionGapNs :: u64
  serviceGapCount :: u64
  worstGapInflight :: int
  worstGapPending :: int
  worstGapRing :: int
  maxMissingDrains :: u64

record fill_envelope =
  drainFramesMin :: u64
  drainFramesMax :: u64
  writesSinceDrain :: u64
  maxWritesBetweenDrains :: u64
  ringOccupancy :: "u32 list"
  ringOccupancySamples :: u64
  ringLowWater :: u64
  ringHighWater :: u64
  queuedOutLowWater :: u64

record service_envelope =
  worstServiceOffCpuNs :: u64
  callbacksThisPoll :: u32
  maxCallbacksPerPoll :: u32
  worstMultiCollectSpanNs :: u64
  worstMultiCollectRunqueueNs :: u64
  serviceStallUs :: int
  serviceStallsFired :: u64

text \<open>Packet pacing and the continuity check's memory.  The threshold is the finite value of the
  \<open>float\<close> member.\<close>

record pacing =
  nominalScheduler :: RationalPacketScheduler
  framesPerUframe_q16 :: u32
  microframesPerSec :: int
  maxFramesPerPacket :: int
  packetIntervalUframes :: int
  fracAccumulator_q16 :: u32
  transferDiscontinuityThreshold :: rat
  lastTransferSample :: int
  transferContinuitySeeded :: bool

text \<open>Session resources: context, device handle, claims, allocated transfers, the event thread and
  the error report.\<close>

record claims =
  interfaceClaimed :: bool
  controlInterfaceClaimed :: bool
  claimedControlIface :: u8
  captureInterfaceClaimed :: bool
  claimedCaptureIface :: u8

record session =
  contextReady :: bool
  device :: "int option"
  fileDescriptor :: int
  driverCode :: int
  line6Profile :: bool
  transfers :: "xfer list"
  feedbackTransfers :: "xfer list"
  captureTransfers :: "xfer list"
  eventThread :: bool
  eventThreadTid :: int
  lastError :: StartError
  lastErrorDetail :: string
  supportedRates :: "ClockRateRange list"

record driver =
  ring :: spsc_ring
  captureRing :: spsc_ring
  fmt :: StreamFormat
  captureFormat :: StreamFormat
  buf :: buffering
  mode :: modes
  fifo :: implicit_fifo
  pendingImplicit :: "(xfer \<times> u64) list"
  led :: ledger
  ccnt :: capture_counters
  pcnt :: playback_counters
  gaps :: gap_envelope
  fill :: fill_envelope
  service :: service_envelope
  pace :: pacing
  ses :: session
  claim :: claims
  captureWake :: wake
  playbackWake :: wake
  flightRecorder :: PacketFlightRecorder
  clock_reads :: nat
  bus :: "(usb_call \<times> int) list"

abbreviation (input) kImplicitFifoCapacity :: nat where "kImplicitFifoCapacity \<equiv> 256"
abbreviation (input) kMaxTransferCount :: nat where "kMaxTransferCount \<equiv> 8"
abbreviation (input) kOccupancyBuckets :: nat where "kOccupancyBuckets \<equiv> 512"
abbreviation (input) kOccupancyBucketFrames :: nat where "kOccupancyBucketFrames \<equiv> 8"

section \<open>Construction\<close>

definition initBuffering :: buffering where
  "initBuffering =
     \<lparr>graphQuantum = 64, playbackTargetFrames = 128, startupPrimeFrames = 128,
      writeHeadroomFrames = 64, captureLimitFrames = 0, captureTargetFrames = 0,
      captureHeadroomFrames = 0, captureDeadlineSlackFrames = 0,
      userspaceBufferConfig = defaultUserspaceBufferConfig, playbackFrameStride = 1,
      captureFrameStride = 1, transferCount = 4, playbackPacketsPerTransfer = 1,
      capturePacketsPerTransfer = 1, captureTransferFrames = 0, captureMaxFramesPerPacket = 0,
      exactInitialPacketFrames = 0\<rparr>"

definition initModes :: modes where
  "initModes =
     \<lparr>streaming = False, stopRequested = False, captureActive = False, captureLive = False,
      playbackStarted = False, deferOutputStart = False, transportFailed = False,
      playbackOverrunActive = False, playbackUnderrunActive = False,
      implicitZeroRunwayActive = False, eventThreadUrgentAudio = False,
      measureServiceRunqueue = False\<rparr>"

definition initFifo :: implicit_fifo where
  "initFifo = \<lparr>implicitFrames = replicate kImplicitFifoCapacity 0, implicitRead = 0, implicitWrite = 0\<rparr>"

definition initLedger :: ledger where
  "initLedger = \<lparr>queuedOutFrames = 0, inflight = 0, captureInflight = 0, writtenFrames = 0,
     playedFrames = 0, playbackCredit = 0, playbackCreditReserve = 0\<rparr>"

definition initCaptureCounters :: capture_counters where
  "initCaptureCounters = \<lparr>captureOverruns = 0, captureUnderruns = 0, captureSequence = 0,
     capturePacketDrops = 0, captureTransferErrors = 0, startupCaptureDiscardFrames = 0,
     metadataFifoOverruns = 0, implicitMetadataInvalid = 0\<rparr>"

definition initPlaybackCounters :: playback_counters where
  "initPlaybackCounters = \<lparr>deferredTransfers = 0, playbackTransferErrors = 0, lifecycleFailures = 0,
     pendingDepth = 0, pendingHighWater = 0, zeroRunwayEvents = 0, maxPendingAgeNs = 0,
     playbackOverruns = 0, playbackUnderruns = 0, transferDiscontinuities = 0,
     deferredNoMetadata = 0, deferredNoPcm = 0, playbackShortPackets = 0, playbackShortFrames = 0\<rparr>"

definition initGaps :: gap_envelope where
  "initGaps = \<lparr>lastCompletionNs = 0, nominalTransferNs = 0, maxCompletionGapNs = 0,
     serviceGapCount = 0, worstGapInflight = -1, worstGapPending = -1, worstGapRing = -1,
     maxMissingDrains = 0\<rparr>"

definition initFill :: fill_envelope where
  "initFill = \<lparr>drainFramesMin = UINT64_MAX, drainFramesMax = 0, writesSinceDrain = 0,
     maxWritesBetweenDrains = 0, ringOccupancy = replicate kOccupancyBuckets 0,
     ringOccupancySamples = 0, ringLowWater = UINT64_MAX, ringHighWater = 0,
     queuedOutLowWater = UINT64_MAX\<rparr>"

definition initService :: service_envelope where
  "initService = \<lparr>worstServiceOffCpuNs = 0, callbacksThisPoll = 0, maxCallbacksPerPoll = 0,
     worstMultiCollectSpanNs = 0, worstMultiCollectRunqueueNs = 0, serviceStallUs = 0,
     serviceStallsFired = 0\<rparr>"

definition initPacing :: pacing where
  "initPacing = \<lparr>nominalScheduler = initScheduler, framesPerUframe_q16 = 0, microframesPerSec = 8000,
     maxFramesPerPacket = 0, packetIntervalUframes = 1, fracAccumulator_q16 = 0,
     transferDiscontinuityThreshold = 0, lastTransferSample = 0, transferContinuitySeeded = False\<rparr>"

definition initSession :: session where
  "initSession = \<lparr>contextReady = False, device = None, fileDescriptor = -1, driverCode = 0,
     line6Profile = False, transfers = [], feedbackTransfers = [], captureTransfers = [],
     eventThread = False, eventThreadTid = 0, lastError = Ok, lastErrorDetail = [],
     supportedRates = []\<rparr>"

definition initClaims :: claims where
  "initClaims = \<lparr>interfaceClaimed = False, controlInterfaceClaimed = False,
     claimedControlIface = 0xFF, captureInterfaceClaimed = False, claimedCaptureIface = 0xFF\<rparr>"

definition emptyRing :: "nat \<Rightarrow> spsc_ring" where
  "emptyRing capacity = \<lparr>store = replicate capacity 0, rmask = of_nat capacity - 1, rhead = 0, rtail = 0\<rparr>"

text \<open>The constructor; \<open>cfd\<close> and \<open>pfd\<close> are the descriptors the two \<open>eventfd\<close> calls return.\<close>

definition newDriver :: "int \<Rightarrow> int \<Rightarrow> driver" where
  "newDriver cfd pfd =
     \<lparr>ring = emptyRing kPlaybackRingBytes, captureRing = emptyRing kPlaybackRingBytes,
      fmt = defaultStreamFormat, captureFormat = defaultStreamFormat, buf = initBuffering,
      mode = initModes, fifo = initFifo, pendingImplicit = [], led = initLedger,
      ccnt = initCaptureCounters, pcnt = initPlaybackCounters, gaps = initGaps, fill = initFill,
      service = initService, pace = initPacing, ses = initSession, claim = initClaims,
      captureWake = snd (wake_open cfd newWake), playbackWake = snd (wake_open pfd newWake),
      flightRecorder = newRecorder 4096, clock_reads = 0, bus = []\<rparr>"

section \<open>Primitive effects\<close>

text \<open>Reading the monotonic clock, calling libusb, and recording an event at the current time.\<close>

definition monotonicNowNs :: "env \<Rightarrow> driver \<Rightarrow> u64 \<times> driver" where
  "monotonicNowNs e d = (clock_ns e (clock_reads d), d\<lparr>clock_reads := Suc (clock_reads d)\<rparr>)"

definition usb :: "env \<Rightarrow> usb_call \<Rightarrow> driver \<Rightarrow> int \<times> driver" where
  "usb e call d =
     (let rc = usb_rc e (bus d) call in (rc, d\<lparr>bus := bus d @ [(call, rc)]\<rparr>))"

definition record_event :: "env \<Rightarrow> Event \<Rightarrow> u32 \<Rightarrow> u32 \<Rightarrow> u32 \<Rightarrow> u32 \<Rightarrow> driver \<Rightarrow> driver" where
  "record_event e ev a b ringFrames queuedFrames d =
     (case monotonicNowNs e d of (now, d1) \<Rightarrow>
        d1\<lparr>flightRecorder := recorder_record ev now a b ringFrames queuedFrames (flightRecorder d1)\<rparr>)"

text \<open>The compare-exchange loops that keep a maximum or a minimum.\<close>

definition keep_max :: "u64 \<Rightarrow> u64 \<Rightarrow> u64" where
  "keep_max v old = (if v > old then v else old)"

definition keep_min :: "u64 \<Rightarrow> u64 \<Rightarrow> u64" where
  "keep_min v old = (if v < old then v else old)"

definition bufferedFrames :: "driver \<Rightarrow> int" where
  "bufferedFrames d =
     (let stride = strideOf (fmt d) in
      if stride \<le> 0 then 0
      else int_of_size (ringSize (rhead (ring d)) (rtail (ring d)) div size_of_int stride))"

lemma record_event_frame [simp, frame]:
  "ring (record_event e ev a b rf qf d) = ring d"
  "captureRing (record_event e ev a b rf qf d) = captureRing d"
  "fmt (record_event e ev a b rf qf d) = fmt d"
  "captureFormat (record_event e ev a b rf qf d) = captureFormat d"
  "buf (record_event e ev a b rf qf d) = buf d"
  "mode (record_event e ev a b rf qf d) = mode d"
  "fifo (record_event e ev a b rf qf d) = fifo d"
  "pendingImplicit (record_event e ev a b rf qf d) = pendingImplicit d"
  "led (record_event e ev a b rf qf d) = led d"
  "ccnt (record_event e ev a b rf qf d) = ccnt d"
  "pcnt (record_event e ev a b rf qf d) = pcnt d"
  "gaps (record_event e ev a b rf qf d) = gaps d"
  "fill (record_event e ev a b rf qf d) = fill d"
  "service (record_event e ev a b rf qf d) = service d"
  "pace (record_event e ev a b rf qf d) = pace d"
  "ses (record_event e ev a b rf qf d) = ses d"
  "claim (record_event e ev a b rf qf d) = claim d"
  "captureWake (record_event e ev a b rf qf d) = captureWake d"
  "playbackWake (record_event e ev a b rf qf d) = playbackWake d"
  "bus (record_event e ev a b rf qf d) = bus d"
  by (simp_all add: record_event_def monotonicNowNs_def)

text \<open>The transfers that reached the bus through an endpoint kind, in submission order.\<close>

fun submitted_call :: "endpoint_kind \<Rightarrow> usb_call \<times> int \<Rightarrow> xfer list" where
  "submitted_call k (Submit x, rc) = (if rc = LIBUSB_SUCCESS \<and> xf_kind x = k then [x] else [])"
| "submitted_call k (_, rc) = []"

definition submitted_xfers :: "endpoint_kind \<Rightarrow> (usb_call \<times> int) list \<Rightarrow> xfer list" where
  "submitted_xfers k calls = concat (map (submitted_call k) calls)"

lemma submitted_xfers_Nil [simp]: "submitted_xfers k [] = []"
  by (simp add: submitted_xfers_def)

lemma submitted_xfers_append [simp]:
  "submitted_xfers k (xs @ ys) = submitted_xfers k xs @ submitted_xfers k ys"
  by (simp add: submitted_xfers_def)

lemma submitted_xfers_single [simp]:
  "submitted_xfers k [c] = submitted_call k c"
  by (simp add: submitted_xfers_def)

end
