(* ===== verification/Playback.thy ===== *)
theory Playback
  imports Driver_State
begin

text \<open>
  The playback side of the driver's ring (\<^verbatim>\<open>src/libusb_uac_driver.cpp\<close>, section Ring buffer): the
  two-phase write of the render thread (\<open>preparePlaybackWrite\<close>, \<open>commitPlaybackWrite\<close>,
  \<open>writePcm\<close>), the drain of the event thread (\<open>drainRing\<close> with its continuity check), and the
  admission arithmetic (\<open>writableFrames\<close>, \<open>writableToTargetFrames\<close>, \<open>bufferedFrames\<close>).

  A write region names its spans by offset into the ring's storage instead of by pointer.
\<close>

section \<open>Continuity of the packed stream\<close>

text \<open>Single-precision arithmetic on the integers that occur here: conversion, difference and
  product round to 24 significant bits, ties to even; dividing by \<open>2^31\<close> is exact.\<close>

function bit_length :: "nat \<Rightarrow> nat" where
  "bit_length n = (if n = 0 then 0 else Suc (bit_length (n div 2)))"
  by pat_completeness auto
termination by (relation "measure id") auto

declare bit_length.simps [simp del]

definition round24_nat :: "nat \<Rightarrow> nat" where
  "round24_nat n =
     (let s = bit_length n - 24; q = n div 2 ^ s; r = n mod 2 ^ s
      in if s = 0 then n
         else if 2 * r < 2 ^ s \<or> (2 * r = 2 ^ s \<and> even q) then q * 2 ^ s else (q + 1) * 2 ^ s)"

definition round24 :: "int \<Rightarrow> int" where
  "round24 i = sgn i * int (round24_nat (nat \<bar>i\<bar>))"

text \<open>The step between two samples in units of \<open>2^-31\<close>.\<close>

definition sample_step :: "int \<Rightarrow> int \<Rightarrow> int" where
  "sample_step value prev = \<bar>round24 (round24 value - round24 prev)\<bar>"

definition inspect_sample :: "env \<Rightarrow> int \<Rightarrow> int \<Rightarrow> driver \<Rightarrow> driver" where
  "inspect_sample e frame value d =
     (let step = sample_step value (lastTransferSample (pace d));
          d1 = (if transferContinuitySeeded (pace d) \<and>
                   of_int step / 2147483648 > transferDiscontinuityThreshold (pace d)
                then record_event e TransferDiscontinuity
                       (u32_of_int (round24 (step * 10000) div 2147483648)) (u32_of_int frame) 0
                       (u32_of_int (playedFrames (led d)))
                       (pcnt_update (transferDiscontinuities_update (\<lambda>x. x + 1)) d)
                else d)
      in pace_update (lastTransferSample_update (\<lambda>_. value) \<circ>
                      transferContinuitySeeded_update (\<lambda>_. True)) d1)"

text \<open>The loop over the first channel's 32-bit sample of every frame.\<close>

fun inspect_frames :: "env \<Rightarrow> nat \<Rightarrow> nat \<Rightarrow> nat \<Rightarrow> bytes \<Rightarrow> driver \<Rightarrow> driver" where
  "inspect_frames e stride 0 i data d = d"
| "inspect_frames e stride (Suc left) i data d =
     (let o1 = i * stride;
          value = sint (le32 (data ! o1) (data ! (o1 + 1)) (data ! (o1 + 2)) (data ! (o1 + 3)))
      in inspect_frames e stride left (Suc i) data (inspect_sample e (int i) value d))"

definition inspectTransferContinuity :: "env \<Rightarrow> bytes \<Rightarrow> driver \<Rightarrow> driver" where
  "inspectTransferContinuity e data d =
     (let stride = strideOf (fmt d) in
      if transferDiscontinuityThreshold (pace d) \<le> 0 \<or> \<not> fr_enabled (flightRecorder d) then d
      else if stride \<le> 0 \<or> bytesPerSample (fmt d) \<noteq> 4 then d
      else inspect_frames e (nat stride) (length data div nat stride) 0 data d)"

section \<open>Draining\<close>

text \<open>The copy out of the ring: as much of \<open>bytes\<close> as is queued.\<close>

definition drain_copy :: "int \<Rightarrow> driver \<Rightarrow> bytes \<times> driver" where
  "drain_copy bytes d =
     (let available = ringSize (rhead (ring d)) (rtail (ring d));
          n = int_of_size (min available (size_of_int bytes))
      in if n > 0
         then (case ring_get (nat n) (ring d) of (out, r) \<Rightarrow>
                 (out, fill_update (writesSinceDrain_update (\<lambda>_. 0)) (d\<lparr>ring := r\<rparr>)))
         else ([], d))"

text \<open>The accounting of a short packet; \<open>available\<close> is the queue length before the copy.\<close>

definition drain_short :: "env \<Rightarrow> u64 \<Rightarrow> int \<Rightarrow> int \<Rightarrow> driver \<Rightarrow> driver" where
  "drain_short e available n bytes d =
     (let d1 = (if playbackStarted (mode d)
                then if playbackUnderrunActive (mode d) then d
                     else pcnt_update (playbackUnderruns_update (\<lambda>x. x + 1))
                            (mode_update (playbackUnderrunActive_update (\<lambda>_. True)) d)
                else d);
          frameStride = strideOf (fmt d)
      in if frameStride > 0
         then record_event e PlaybackUnderrun
                (u32_of_int (cdiv n frameStride)) (u32_of_int (cdiv bytes frameStride))
                (u32_of_size (available div size_of_int frameStride))
                (u32_of_size (queuedOutFrames (led d1)))
                (pcnt_update (playbackShortPackets_update (\<lambda>x. x + 1) \<circ>
                   playbackShortFrames_update (\<lambda>x. x + size_of_int (cdiv (bytes - n) frameStride))) d1)
         else d1)"

definition drainRing :: "env \<Rightarrow> int \<Rightarrow> driver \<Rightarrow> bytes \<times> driver" where
  "drainRing e bytes d =
     (let available = ringSize (rhead (ring d)) (rtail (ring d)) in
      case drain_copy bytes d of (out, d1) \<Rightarrow>
        let n = int (length out);
            d2 = (if n < bytes then drain_short e available n bytes d1
                  else mode_update (playbackUnderrunActive_update (\<lambda>_. False)) d1);
            d3 = inspectTransferContinuity e out d2;
            frameStride = strideOf (fmt d)
        in (out, if frameStride > 0
                 then led_update (playedFrames_update (\<lambda>x. x + cdiv n frameStride)) d3
                 else d3))"

section \<open>Writing\<close>

record PlaybackWriteRegion =
  wr_first :: nat
  wr_firstBytes :: u64
  wr_second :: nat
  wr_secondBytes :: u64
  wr_producerCursor :: u64
  wr_frames :: int
  wr_frameStride :: int

definition emptyWriteRegion :: PlaybackWriteRegion where
  "emptyWriteRegion = \<lparr>wr_first = 0, wr_firstBytes = 0, wr_second = 0, wr_secondBytes = 0,
     wr_producerCursor = 0, wr_frames = 0, wr_frameStride = 0\<rparr>"

text \<open>The admission ceiling: the target once playback runs, the startup prime before, plus the
  write headroom.\<close>

definition admission_limit :: "driver \<Rightarrow> int" where
  "admission_limit d =
     (if playbackStarted (mode d) then playbackTargetFrames (buf d) else startupPrimeFrames (buf d)) +
     writeHeadroomFrames (buf d)"

definition logical_free :: "u64 \<Rightarrow> u64 \<Rightarrow> u64" where
  "logical_free queued limit = (if queued < limit then limit - queued else 0)"

definition physical_free :: "driver \<Rightarrow> u64 \<Rightarrow> u64" where
  "physical_free d stride =
     (of_nat (length (store (ring d))) - ringSize (rhead (ring d)) (rtail (ring d))) div stride"

text \<open>The edge-triggered backpressure counter.\<close>

definition note_overrun :: "bool \<Rightarrow> driver \<Rightarrow> driver" where
  "note_overrun refused d =
     (if refused
      then if playbackOverrunActive (mode d) then d
           else pcnt_update (playbackOverruns_update (\<lambda>x. x + 1))
                  (mode_update (playbackOverrunActive_update (\<lambda>_. True)) d)
      else mode_update (playbackOverrunActive_update (\<lambda>_. False)) d)"

definition preparePlaybackWrite :: "int \<Rightarrow> driver \<Rightarrow> PlaybackWriteRegion \<times> driver" where
  "preparePlaybackWrite requestedFrames d =
     (let frameStride = strideOf (fmt d) in
      if requestedFrames \<le> 0 \<or> frameStride \<le> 0 \<or> store (ring d) = [] then (emptyWriteRegion, d)
      else
        let head = rhead (ring d);
            stride = size_of_int frameStride;
            queuedFrames = ringSize head (rtail (ring d)) div stride;
            logicalFrames = logical_free queuedFrames (size_of_int (admission_limit d));
            admitted = min (size_of_int requestedFrames) (min (physical_free d stride) logicalFrames);
            d1 = note_overrun (admitted < size_of_int requestedFrames) d
        in if admitted = 0 then (emptyWriteRegion, d1)
           else
             let bytes = admitted * stride;
                 offset = head AND rmask (ring d);
                 first = min bytes (of_nat (length (store (ring d))) - offset)
             in (\<lparr>wr_first = unat offset, wr_firstBytes = first, wr_second = 0,
                  wr_secondBytes = bytes - first, wr_producerCursor = head,
                  wr_frames = int_of_size admitted, wr_frameStride = frameStride\<rparr>, d1))"

definition commitPlaybackWrite :: "PlaybackWriteRegion \<Rightarrow> driver \<Rightarrow> driver" where
  "commitPlaybackWrite reg d =
     (if wr_frames reg \<le> 0 \<or> wr_frameStride reg \<le> 0 then d
      else
        let written = size_of_int (wr_frames reg) * size_of_int (wr_frameStride reg);
            d1 = led_update (writtenFrames_update (\<lambda>x. x + wr_frames reg))
                   (ring_update (rhead_update (\<lambda>_. wr_producerCursor reg + written)) d)
        in if playbackStarted (mode d1)
           then fill_update (ringHighWater_update
                  (\<lambda>high. keep_max (size_of_int (max 0 (bufferedFrames d1))) high)) d1
           else d1)"

text \<open>Filling both spans of a region from a contiguous source.\<close>

definition fill_region :: "PlaybackWriteRegion \<Rightarrow> bytes \<Rightarrow> driver \<Rightarrow> driver" where
  "fill_region reg data d =
     ring_update (store_update (span_write (wr_first reg) (unat (wr_firstBytes reg))
       (take (unat (wr_firstBytes reg) + unat (wr_secondBytes reg)) data))) d"

text \<open>\<open>writePcm\<close>; a null pointer is \<open>None\<close>.\<close>

definition writePcm :: "bytes option \<Rightarrow> int \<Rightarrow> driver \<Rightarrow> int \<times> driver" where
  "writePcm src frames d =
     (case src of
        None \<Rightarrow> (0, d)
      | Some data \<Rightarrow>
          if frames \<le> 0 then (0, d)
          else (case preparePlaybackWrite frames d of (reg, d1) \<Rightarrow>
                  (wr_frames reg, commitPlaybackWrite reg (fill_region reg data d1))))"

section \<open>Room\<close>

definition writableFrames :: "driver \<Rightarrow> int" where
  "writableFrames d =
     (let frameStride = strideOf (fmt d) in
      if frameStride \<le> 0 then 0
      else
        let stride = size_of_int frameStride;
            queuedFrames = ringSize (rhead (ring d)) (rtail (ring d)) div stride
        in int_of_size (min (physical_free d stride)
             (logical_free queuedFrames (size_of_int (admission_limit d)))))"

definition writableToTargetFrames :: "driver \<Rightarrow> int" where
  "writableToTargetFrames d =
     (let frameStride = strideOf (fmt d) in
      if frameStride \<le> 0 then 0
      else
        let stride = size_of_int frameStride;
            queued = ringSize (rhead (ring d)) (rtail (ring d)) div stride;
            target = (if playbackStarted (mode d) then playbackTargetFrames (buf d)
                      else startupPrimeFrames (buf d))
        in if target \<le> 0 then writableFrames d
           else int_of_size (min (physical_free d stride) (logical_free queued (size_of_int target))))"

definition flushRing :: "driver \<Rightarrow> driver" where
  "flushRing d =
     led_update (playedFrames_update (\<lambda>_. 0) \<circ> writtenFrames_update (\<lambda>_. 0))
       (ring_update (rhead_update (\<lambda>_. 0) \<circ> rtail_update (\<lambda>_. 0)) d)"

section \<open>Well-formed playback state\<close>

definition budget_ok :: "buffering \<Rightarrow> bool" where
  "budget_ok b \<longleftrightarrow> 0 \<le> playbackTargetFrames b \<and> 0 \<le> startupPrimeFrames b \<and> 0 \<le> writeHeadroomFrames b \<and>
     playbackTargetFrames b + writeHeadroomFrames b \<le> INT_MAX \<and>
     startupPrimeFrames b + writeHeadroomFrames b \<le> INT_MAX"

definition frameBytes :: "driver \<Rightarrow> nat" where
  "frameBytes d = nat (strideOf (fmt d))"

definition stride_ok :: "driver \<Rightarrow> bool" where
  "stride_ok d \<longleftrightarrow> 0 < strideOf (fmt d) \<and> strideOf (fmt d) \<le> 4096"

text \<open>The ring invariant, a usable frame size, and whole frames only.\<close>

definition playback_ok :: "driver \<Rightarrow> bool" where
  "playback_ok d \<longleftrightarrow> ring_inv (ring d) \<and> stride_ok d \<and> frameBytes d dvd ring_len (ring d)"

definition queued_frames :: "driver \<Rightarrow> nat" where
  "queued_frames d = ring_len (ring d) div frameBytes d"

definition free_frames :: "driver \<Rightarrow> nat" where
  "free_frames d = ring_room (ring d) div frameBytes d"

text \<open>What a write of \<open>n\<close> frames is granted: bounded by the physical room and by the distance
  to the admission ceiling.\<close>

definition admitted_frames :: "driver \<Rightarrow> int \<Rightarrow> nat" where
  "admitted_frames d n =
     min (nat n) (min (free_frames d) (nat (admission_limit d) - queued_frames d))"

section \<open>Word arithmetic of the queue\<close>

lemma word_of_unat: "unat (w::u64) = n \<Longrightarrow> w = of_nat n"
  by auto

lemma int_min_nat: "0 < r \<Longrightarrow> int (min (nat r) m) = min r (int m)"
  by (auto simp: min_def)

lemma stride_word:
  assumes "stride_ok d"
  shows "unat (size_of_int (strideOf (fmt d))) = frameBytes d" "0 < frameBytes d" "frameBytes d \<le> 4096"
  using assms by (auto simp: stride_ok_def frameBytes_def)

lemma stride_int: "stride_ok d \<Longrightarrow> strideOf (fmt d) = int (frameBytes d)"
  by (simp add: stride_ok_def frameBytes_def)

lemma ring_inv_len:
  assumes "ring_inv r"
  shows "ring_len r \<le> length (store r)" "0 < length (store r)" "length (store r) \<le> 1048576"
  using assms ring_shape_len [of r] by (auto simp: ring_inv_def)

lemma capacity_word:
  "ring_inv r \<Longrightarrow> unat (of_nat (length (store r)) :: u64) = length (store r)"
  using ring_inv_len [of r] by (intro unat_of_nat64) simp

lemma queued_word:
  "stride_ok d \<Longrightarrow>
   unat (ringSize (rhead (ring d)) (rtail (ring d)) div size_of_int (strideOf (fmt d))) = queued_frames d"
  by (simp add: unat_div stride_word queued_frames_def ring_len_def)

lemma physical_free_word:
  assumes "ring_inv (ring d)" "stride_ok d"
  shows "unat (physical_free d (size_of_int (strideOf (fmt d)))) = free_frames d"
proof -
  have "ringSize (rhead (ring d)) (rtail (ring d)) \<le> of_nat (length (store (ring d)))"
    using ring_inv_len(1) [OF assms(1)] capacity_word [OF assms(1)]
    by (simp add: word_le_nat_alt ring_len_def)
  then show ?thesis
    using assms by (simp add: physical_free_def unat_div stride_word unat_sub capacity_word
        free_frames_def ring_room_def ring_len_def)
qed

lemma logical_free_word:
  "0 \<le> limit \<Longrightarrow> limit \<le> INT_MAX \<Longrightarrow>
   unat (logical_free q (size_of_int limit)) = nat limit - unat q"
  by (auto simp: logical_free_def word_less_nat_alt unat_sub word_le_nat_alt)

lemma unat_min: "unat (min a b :: u64) = min (unat a) (unat b)"
  by (simp add: min_def word_le_nat_alt)

lemma admission_limit_bounds:
  "budget_ok (buf d) \<Longrightarrow> 0 \<le> admission_limit d \<and> admission_limit d \<le> INT_MAX"
  by (auto simp: admission_limit_def budget_ok_def)

lemma free_frames_small: "ring_inv (ring d) \<Longrightarrow> stride_ok d \<Longrightarrow> free_frames d \<le> 1048576"
  unfolding free_frames_def ring_room_def
  using ring_inv_len(3) [of "ring d"] by (intro order_trans [OF div_le_dividend]) simp

lemma queued_frames_small: "ring_inv (ring d) \<Longrightarrow> queued_frames d \<le> 1048576"
  unfolding queued_frames_def
  using ring_inv_len [of "ring d"] by (intro order_trans [OF div_le_dividend]) simp

lemma bufferedFrames_eq:
  assumes "ring_inv (ring d)" "stride_ok d"
  shows "bufferedFrames d = int (queued_frames d)"
  using assms queued_frames_small [of d]
  by (simp add: bufferedFrames_def Let_def int_of_size_small queued_word stride_ok_def)

lemma writableFrames_eq:
  assumes "ring_inv (ring d)" "stride_ok d" "budget_ok (buf d)"
  shows "writableFrames d = int (min (free_frames d) (nat (admission_limit d) - queued_frames d))"
proof -
  let ?s = "size_of_int (strideOf (fmt d))"
  let ?w = "min (physical_free d ?s)
    (logical_free (ringSize (rhead (ring d)) (rtail (ring d)) div ?s) (size_of_int (admission_limit d)))"
  have "unat ?w = min (free_frames d) (nat (admission_limit d) - queued_frames d)"
    using assms admission_limit_bounds [of d]
    by (simp add: unat_min physical_free_word logical_free_word queued_word)
  moreover have "free_frames d \<le> 1048576" using assms by (intro free_frames_small)
  ultimately show ?thesis
    using assms(2) int_of_size_small [of ?w] by (simp add: writableFrames_def Let_def stride_ok_def)
qed

section \<open>The write path\<close>

lemma admitted_frames_small:
  "ring_inv (ring d) \<Longrightarrow> stride_ok d \<Longrightarrow> admitted_frames d n \<le> 1048576"
  using free_frames_small [of d] by (auto simp: admitted_frames_def min_def)

lemma preparePlaybackWrite_alt:
  assumes ok: "playback_ok d" "budget_ok (buf d)" and req: "0 < req" "req \<le> INT_MAX"
  defines "n \<equiv> admitted_frames d req"
  shows "preparePlaybackWrite req d =
    ((if n = 0 then emptyWriteRegion else
      \<lparr>wr_first = ring_offset (ring d) (rhead (ring d)),
       wr_firstBytes = of_nat (first_span (ring d) (rhead (ring d)) (n * frameBytes d)), wr_second = 0,
       wr_secondBytes = of_nat (n * frameBytes d - first_span (ring d) (rhead (ring d)) (n * frameBytes d)),
       wr_producerCursor = rhead (ring d), wr_frames = int n, wr_frameStride = strideOf (fmt d)\<rparr>),
     note_overrun (n < nat req) d)"
proof -
  have inv: "ring_inv (ring d)" and s: "stride_ok d" using ok(1) by (auto simp: playback_ok_def)
  let ?s = "size_of_int (strideOf (fmt d))" and ?N = "length (store (ring d))"
  define w where "w = min (size_of_int req) (min (physical_free d ?s)
    (logical_free (ringSize (rhead (ring d)) (rtail (ring d)) div ?s) (size_of_int (admission_limit d))))"
  have uw: "unat w = n"
    using inv s ok(2) req admission_limit_bounds [of d]
    by (simp add: w_def n_def unat_min physical_free_word logical_free_word queued_word admitted_frames_def)
  have N: "?N \<le> 1048576" "0 < ?N" using ring_inv_len [OF inv] by auto
  have nfit: "n * frameBytes d \<le> ?N"
  proof -
    have "n * frameBytes d \<le> free_frames d * frameBytes d"
      by (intro mult_right_mono) (simp_all add: n_def admitted_frames_def)
    also have "\<dots> \<le> ring_room (ring d)" by (simp add: free_frames_def)
    finally show ?thesis by (simp add: ring_room_def)
  qed
  have wn: "w = of_nat n" using uw by (rule word_of_unat)
  have sn: "?s = of_nat (frameBytes d)" using stride_word(1) [OF s] by (rule word_of_unat)
  have bytes: "w * ?s = of_nat (n * frameBytes d)" by (simp add: wn sn)
  have shape: "ring_shape (ring d)" using inv by (simp add: ring_inv_def)
  let ?off = "rhead (ring d) AND rmask (ring d)"
  have off: "unat ?off < ?N" using ring_offset_less [OF shape] by (simp add: ring_offset_def)
  have span: "unat (of_nat ?N - ?off) = ?N - unat ?off"
    using off N by (subst unat_sub) (auto simp: word_le_nat_alt)
  have ub: "unat (of_nat (n * frameBytes d) :: u64) = n * frameBytes d"
    using nfit N by (intro unat_of_nat64) simp
  have first: "min (w * ?s) (of_nat ?N - ?off) =
      of_nat (first_span (ring d) (rhead (ring d)) (n * frameBytes d))"
    unfolding bytes word_unat_eq_iff unat_min span ub
    using nfit N by (simp add: first_span_def ring_offset_def unat_of_nat min_def)
  have second: "w * ?s - min (w * ?s) (of_nat ?N - ?off) =
      of_nat (n * frameBytes d - first_span (ring d) (rhead (ring d)) (n * frameBytes d))"
    unfolding first unfolding bytes by (simp add: first_span_def)
  have small: "int_of_size w = int n"
    using uw admitted_frames_small [OF inv s, of req] by (subst int_of_size_small) (simp_all add: n_def)
  have cmp: "w < size_of_int req \<longleftrightarrow> n < nat req" "w = 0 \<longleftrightarrow> n = 0"
    using uw req by (auto simp: word_less_nat_alt unat_eq_0)
  have guard: "\<not> (req \<le> 0 \<or> strideOf (fmt d) \<le> 0 \<or> store (ring d) = [])"
    using req s N by (auto simp: stride_ok_def)
  show ?thesis
    unfolding preparePlaybackWrite_def Let_def if_not_P [OF guard] w_def [symmetric]
    by (simp add: cmp first second [unfolded first] small ring_offset_def)
qed

lemma note_overrun_frame [simp, frame]:
  "ring (note_overrun b d) = ring d" "fmt (note_overrun b d) = fmt d" "buf (note_overrun b d) = buf d"
  "led (note_overrun b d) = led d" "fill (note_overrun b d) = fill d" "bus (note_overrun b d) = bus d"
  "fifo (note_overrun b d) = fifo d" "pendingImplicit (note_overrun b d) = pendingImplicit d"
  "pace (note_overrun b d) = pace d" "captureFormat (note_overrun b d) = captureFormat d"
  "captureRing (note_overrun b d) = captureRing d"
  "playbackStarted (mode (note_overrun b d)) = playbackStarted (mode d)"
  "transportFailed (mode (note_overrun b d)) = transportFailed (mode d)"
  "captureActive (mode (note_overrun b d)) = captureActive (mode d)"
  "stopRequested (mode (note_overrun b d)) = stopRequested (mode d)"
  "streaming (mode (note_overrun b d)) = streaming (mode d)"
  by (simp_all add: note_overrun_def)

text \<open>A write is \<open>ring_put\<close> of the granted prefix of the data.\<close>

lemma admitted_bytes_fit:
  "admitted_frames d n * frameBytes d \<le> ring_room (ring d)"
proof -
  have "admitted_frames d n * frameBytes d \<le> free_frames d * frameBytes d"
    by (intro mult_right_mono) (simp_all add: admitted_frames_def)
  also have "\<dots> \<le> ring_room (ring d)" by (simp add: free_frames_def)
  finally show ?thesis .
qed

definition region_at :: "PlaybackWriteRegion \<Rightarrow> spsc_ring \<Rightarrow> nat \<Rightarrow> nat \<Rightarrow> bool" where
  "region_at reg r n s \<longleftrightarrow>
     wr_first reg = ring_offset r (rhead r) \<and> wr_second reg = 0 \<and>
     unat (wr_firstBytes reg) = first_span r (rhead r) (n * s) \<and>
     unat (wr_firstBytes reg) + unat (wr_secondBytes reg) = n * s \<and>
     wr_producerCursor reg = rhead r \<and> wr_frames reg = int n \<and> wr_frameStride reg = int s"

lemma preparePlaybackWrite_region:
  assumes ok: "playback_ok d" "budget_ok (buf d)" and req: "0 < req" "req \<le> INT_MAX"
    and p: "preparePlaybackWrite req d = (reg, d1)"
  defines "n \<equiv> admitted_frames d req"
  shows "d1 = note_overrun (n < nat req) d"
    and "n = 0 \<Longrightarrow> reg = emptyWriteRegion"
    and "n > 0 \<Longrightarrow> region_at reg (ring d) n (frameBytes d)"
proof -
  have inv: "ring_inv (ring d)" and s: "stride_ok d" using ok(1) by (auto simp: playback_ok_def)
  let ?f = "first_span (ring d) (rhead (ring d)) (n * frameBytes d)"
  have "n * frameBytes d \<le> length (store (ring d))"
    using admitted_bytes_fit [of d req] by (simp add: n_def ring_room_def)
  then have small: "n * frameBytes d < 2 ^ 64" using ring_inv_len [OF inv] by simp
  have f: "?f \<le> n * frameBytes d" by (simp add: first_span_def)
  then have u: "unat (of_nat ?f :: u64) = ?f"
    "unat (of_nat (n * frameBytes d - ?f) :: u64) = n * frameBytes d - ?f"
    using small by (intro unat_of_nat64; linarith)+
  note prep = preparePlaybackWrite_alt [OF ok req, folded n_def, unfolded p, symmetric]
  show "d1 = note_overrun (n < nat req) d" "n = 0 \<Longrightarrow> reg = emptyWriteRegion"
    using prep by simp_all
  show "region_at reg (ring d) n (frameBytes d)" if "n > 0"
  proof -
    have "reg = \<lparr>wr_first = ring_offset (ring d) (rhead (ring d)), wr_firstBytes = of_nat ?f,
       wr_second = 0, wr_secondBytes = of_nat (n * frameBytes d - ?f),
       wr_producerCursor = rhead (ring d), wr_frames = int n, wr_frameStride = strideOf (fmt d)\<rparr>"
      using prep that by (simp del: of_nat_diff of_nat_mult)
    then show ?thesis
      using f stride_int [OF s] unfolding region_at_def
      by (simp add: u del: of_nat_diff of_nat_mult)
  qed
qed

lemma commit_fill:
  assumes "region_at reg (ring d) n s" "0 < n" "0 < s" "n * s \<le> length data"
  shows "ring (commitPlaybackWrite reg (fill_region reg data d)) = ring_put (take (n * s) data) (ring d)"
    and "led (commitPlaybackWrite reg (fill_region reg data d)) =
      (led d)\<lparr>writtenFrames := writtenFrames (led d) + int n\<rparr>"
proof -
  have w: "size_of_int (int n) * size_of_int (int s) = of_nat (n * s)" by (simp add: size_of_int_def)
  have len: "length (take (n * s) data) = n * s" using assms(4) by simp
  have sum: "unat (wr_firstBytes reg) + unat (wr_secondBytes reg) = n * s"
    using assms(1) by (simp add: region_at_def)
  show "ring (commitPlaybackWrite reg (fill_region reg data d)) = ring_put (take (n * s) data) (ring d)"
    using assms(1-3) unfolding commitPlaybackWrite_def fill_region_def ring_put_def len sum
    by (intro spsc_ring.equality) (simp_all add: region_at_def Let_def w del: of_nat_mult)
  show "led (commitPlaybackWrite reg (fill_region reg data d)) =
      (led d)\<lparr>writtenFrames := writtenFrames (led d) + int n\<rparr>"
    using assms(1-3) by (simp add: region_at_def commitPlaybackWrite_def fill_region_def Let_def)
qed

lemma commit_frame [simp, frame]:
  "fmt (commitPlaybackWrite reg d) = fmt d" "buf (commitPlaybackWrite reg d) = buf d"
  "mode (commitPlaybackWrite reg d) = mode d" "bus (commitPlaybackWrite reg d) = bus d"
  "fifo (commitPlaybackWrite reg d) = fifo d" "pace (commitPlaybackWrite reg d) = pace d"
  "pendingImplicit (commitPlaybackWrite reg d) = pendingImplicit d"
  "captureRing (commitPlaybackWrite reg d) = captureRing d"
  "captureFormat (commitPlaybackWrite reg d) = captureFormat d"
  "store (ring (commitPlaybackWrite reg d)) = store (ring d)"
  "rmask (ring (commitPlaybackWrite reg d)) = rmask (ring d)"
  "rtail (ring (commitPlaybackWrite reg d)) = rtail (ring d)"
  by (simp_all add: commitPlaybackWrite_def Let_def)

lemma fill_region_frame [simp, frame]:
  "fmt (fill_region reg data d) = fmt d" "buf (fill_region reg data d) = buf d"
  "mode (fill_region reg data d) = mode d" "bus (fill_region reg data d) = bus d"
  "fifo (fill_region reg data d) = fifo d" "pace (fill_region reg data d) = pace d"
  "led (fill_region reg data d) = led d"
  "pendingImplicit (fill_region reg data d) = pendingImplicit d"
  "captureRing (fill_region reg data d) = captureRing d"
  "captureFormat (fill_region reg data d) = captureFormat d"
  by (simp_all add: fill_region_def)

lemma writePcm_refines:
  assumes ok: "playback_ok d" "budget_ok (buf d)" and req: "0 < req" "req \<le> INT_MAX"
    and data: "nat req * frameBytes d \<le> length data"
    and w: "writePcm (Some data) req d = (got, d')"
  defines "n \<equiv> admitted_frames d req"
  shows "got = int n" "ring d' = ring_put (take (n * frameBytes d) data) (ring d)"
    and "led d' = (led d)\<lparr>writtenFrames := writtenFrames (led d) + int n\<rparr>"
proof -
  have s: "0 < frameBytes d" using ok(1) by (simp add: playback_ok_def stride_word)
  obtain reg d1 where p: "preparePlaybackWrite req d = (reg, d1)" by fastforce
  note prep = preparePlaybackWrite_region [OF ok req p, folded n_def]
  have e: "got = wr_frames reg" "d' = commitPlaybackWrite reg (fill_region reg data d1)"
    using w req p by (simp_all add: writePcm_def)
  have "n \<le> nat req" by (simp add: n_def admitted_frames_def)
  then have le: "n * frameBytes d \<le> length data" by (rule le_trans [OF mult_le_mono1 data])
  have "got = int n \<and> ring d' = ring_put (take (n * frameBytes d) data) (ring d) \<and>
    led d' = (led d)\<lparr>writtenFrames := writtenFrames (led d) + int n\<rparr>"
  proof (cases "n = 0")
    case True
    then show ?thesis
      using prep(1,2) by (simp add: e commitPlaybackWrite_def fill_region_def emptyWriteRegion_def
          span_write_def ring_put_def)
  next
    case False
    then show ?thesis
      using commit_fill [of reg d1 n "frameBytes d" data] prep(1,3) s le
      by (auto simp: e region_at_def)
  qed
  then show "got = int n" "ring d' = ring_put (take (n * frameBytes d) data) (ring d)"
    "led d' = (led d)\<lparr>writtenFrames := writtenFrames (led d) + int n\<rparr>" by simp_all
qed

section \<open>The drain path\<close>

lemma inspect_sample_frame [simp]:
  "fmt (inspect_sample e i v d) = fmt d"
  "captureFormat (inspect_sample e i v d) = captureFormat d"
  "buf (inspect_sample e i v d) = buf d"
  "captureRing (inspect_sample e i v d) = captureRing d"
  "fifo (inspect_sample e i v d) = fifo d"
  "pendingImplicit (inspect_sample e i v d) = pendingImplicit d"
  "ccnt (inspect_sample e i v d) = ccnt d"
  "gaps (inspect_sample e i v d) = gaps d"
  "service (inspect_sample e i v d) = service d"
  "ses (inspect_sample e i v d) = ses d"
  "claim (inspect_sample e i v d) = claim d"
  "captureWake (inspect_sample e i v d) = captureWake d"
  "playbackWake (inspect_sample e i v d) = playbackWake d"
  "bus (inspect_sample e i v d) = bus d"
  "ring (inspect_sample e i v d) = ring d"
  "led (inspect_sample e i v d) = led d"
  "mode (inspect_sample e i v d) = mode d"
  "fill (inspect_sample e i v d) = fill d"
  "nominalScheduler (pace (inspect_sample e i v d)) = nominalScheduler (pace d)"
  "framesPerUframe_q16 (pace (inspect_sample e i v d)) = framesPerUframe_q16 (pace d)"
  "microframesPerSec (pace (inspect_sample e i v d)) = microframesPerSec (pace d)"
  "maxFramesPerPacket (pace (inspect_sample e i v d)) = maxFramesPerPacket (pace d)"
  "packetIntervalUframes (pace (inspect_sample e i v d)) = packetIntervalUframes (pace d)"
  "fracAccumulator_q16 (pace (inspect_sample e i v d)) = fracAccumulator_q16 (pace d)"
  "deferredTransfers (pcnt (inspect_sample e i v d)) = deferredTransfers (pcnt d)"
  "playbackTransferErrors (pcnt (inspect_sample e i v d)) = playbackTransferErrors (pcnt d)"
  "lifecycleFailures (pcnt (inspect_sample e i v d)) = lifecycleFailures (pcnt d)"
  "pendingDepth (pcnt (inspect_sample e i v d)) = pendingDepth (pcnt d)"
  "pendingHighWater (pcnt (inspect_sample e i v d)) = pendingHighWater (pcnt d)"
  "zeroRunwayEvents (pcnt (inspect_sample e i v d)) = zeroRunwayEvents (pcnt d)"
  "maxPendingAgeNs (pcnt (inspect_sample e i v d)) = maxPendingAgeNs (pcnt d)"
  "playbackOverruns (pcnt (inspect_sample e i v d)) = playbackOverruns (pcnt d)"
  "deferredNoMetadata (pcnt (inspect_sample e i v d)) = deferredNoMetadata (pcnt d)"
  "deferredNoPcm (pcnt (inspect_sample e i v d)) = deferredNoPcm (pcnt d)"
  "playbackUnderruns (pcnt (inspect_sample e i v d)) = playbackUnderruns (pcnt d)"
  "playbackShortPackets (pcnt (inspect_sample e i v d)) = playbackShortPackets (pcnt d)"
  "playbackShortFrames (pcnt (inspect_sample e i v d)) = playbackShortFrames (pcnt d)"
  by (simp_all add: inspect_sample_def Let_def)

lemma inspect_frames_frame [simp]:
  "fmt (inspect_frames e s left i data d) = fmt d"
  "captureFormat (inspect_frames e s left i data d) = captureFormat d"
  "buf (inspect_frames e s left i data d) = buf d"
  "captureRing (inspect_frames e s left i data d) = captureRing d"
  "fifo (inspect_frames e s left i data d) = fifo d"
  "pendingImplicit (inspect_frames e s left i data d) = pendingImplicit d"
  "ccnt (inspect_frames e s left i data d) = ccnt d"
  "gaps (inspect_frames e s left i data d) = gaps d"
  "service (inspect_frames e s left i data d) = service d"
  "ses (inspect_frames e s left i data d) = ses d"
  "claim (inspect_frames e s left i data d) = claim d"
  "captureWake (inspect_frames e s left i data d) = captureWake d"
  "playbackWake (inspect_frames e s left i data d) = playbackWake d"
  "bus (inspect_frames e s left i data d) = bus d"
  "ring (inspect_frames e s left i data d) = ring d"
  "led (inspect_frames e s left i data d) = led d"
  "mode (inspect_frames e s left i data d) = mode d"
  "fill (inspect_frames e s left i data d) = fill d"
  "nominalScheduler (pace (inspect_frames e s left i data d)) = nominalScheduler (pace d)"
  "framesPerUframe_q16 (pace (inspect_frames e s left i data d)) = framesPerUframe_q16 (pace d)"
  "microframesPerSec (pace (inspect_frames e s left i data d)) = microframesPerSec (pace d)"
  "maxFramesPerPacket (pace (inspect_frames e s left i data d)) = maxFramesPerPacket (pace d)"
  "packetIntervalUframes (pace (inspect_frames e s left i data d)) = packetIntervalUframes (pace d)"
  "fracAccumulator_q16 (pace (inspect_frames e s left i data d)) = fracAccumulator_q16 (pace d)"
  "deferredTransfers (pcnt (inspect_frames e s left i data d)) = deferredTransfers (pcnt d)"
  "playbackTransferErrors (pcnt (inspect_frames e s left i data d)) = playbackTransferErrors (pcnt d)"
  "lifecycleFailures (pcnt (inspect_frames e s left i data d)) = lifecycleFailures (pcnt d)"
  "pendingDepth (pcnt (inspect_frames e s left i data d)) = pendingDepth (pcnt d)"
  "pendingHighWater (pcnt (inspect_frames e s left i data d)) = pendingHighWater (pcnt d)"
  "zeroRunwayEvents (pcnt (inspect_frames e s left i data d)) = zeroRunwayEvents (pcnt d)"
  "maxPendingAgeNs (pcnt (inspect_frames e s left i data d)) = maxPendingAgeNs (pcnt d)"
  "playbackOverruns (pcnt (inspect_frames e s left i data d)) = playbackOverruns (pcnt d)"
  "deferredNoMetadata (pcnt (inspect_frames e s left i data d)) = deferredNoMetadata (pcnt d)"
  "deferredNoPcm (pcnt (inspect_frames e s left i data d)) = deferredNoPcm (pcnt d)"
  "playbackUnderruns (pcnt (inspect_frames e s left i data d)) = playbackUnderruns (pcnt d)"
  "playbackShortPackets (pcnt (inspect_frames e s left i data d)) = playbackShortPackets (pcnt d)"
  "playbackShortFrames (pcnt (inspect_frames e s left i data d)) = playbackShortFrames (pcnt d)"
  by (induction left arbitrary: i d) (simp_all add: Let_def)

lemma inspectTransferContinuity_frame [simp, frame]:
  "fmt (inspectTransferContinuity e data d) = fmt d"
  "captureFormat (inspectTransferContinuity e data d) = captureFormat d"
  "buf (inspectTransferContinuity e data d) = buf d"
  "captureRing (inspectTransferContinuity e data d) = captureRing d"
  "fifo (inspectTransferContinuity e data d) = fifo d"
  "pendingImplicit (inspectTransferContinuity e data d) = pendingImplicit d"
  "ccnt (inspectTransferContinuity e data d) = ccnt d"
  "gaps (inspectTransferContinuity e data d) = gaps d"
  "service (inspectTransferContinuity e data d) = service d"
  "ses (inspectTransferContinuity e data d) = ses d"
  "claim (inspectTransferContinuity e data d) = claim d"
  "captureWake (inspectTransferContinuity e data d) = captureWake d"
  "playbackWake (inspectTransferContinuity e data d) = playbackWake d"
  "bus (inspectTransferContinuity e data d) = bus d"
  "ring (inspectTransferContinuity e data d) = ring d"
  "led (inspectTransferContinuity e data d) = led d"
  "mode (inspectTransferContinuity e data d) = mode d"
  "fill (inspectTransferContinuity e data d) = fill d"
  "nominalScheduler (pace (inspectTransferContinuity e data d)) = nominalScheduler (pace d)"
  "framesPerUframe_q16 (pace (inspectTransferContinuity e data d)) = framesPerUframe_q16 (pace d)"
  "microframesPerSec (pace (inspectTransferContinuity e data d)) = microframesPerSec (pace d)"
  "maxFramesPerPacket (pace (inspectTransferContinuity e data d)) = maxFramesPerPacket (pace d)"
  "packetIntervalUframes (pace (inspectTransferContinuity e data d)) = packetIntervalUframes (pace d)"
  "fracAccumulator_q16 (pace (inspectTransferContinuity e data d)) = fracAccumulator_q16 (pace d)"
  "deferredTransfers (pcnt (inspectTransferContinuity e data d)) = deferredTransfers (pcnt d)"
  "playbackTransferErrors (pcnt (inspectTransferContinuity e data d)) = playbackTransferErrors (pcnt d)"
  "lifecycleFailures (pcnt (inspectTransferContinuity e data d)) = lifecycleFailures (pcnt d)"
  "pendingDepth (pcnt (inspectTransferContinuity e data d)) = pendingDepth (pcnt d)"
  "pendingHighWater (pcnt (inspectTransferContinuity e data d)) = pendingHighWater (pcnt d)"
  "zeroRunwayEvents (pcnt (inspectTransferContinuity e data d)) = zeroRunwayEvents (pcnt d)"
  "maxPendingAgeNs (pcnt (inspectTransferContinuity e data d)) = maxPendingAgeNs (pcnt d)"
  "playbackOverruns (pcnt (inspectTransferContinuity e data d)) = playbackOverruns (pcnt d)"
  "deferredNoMetadata (pcnt (inspectTransferContinuity e data d)) = deferredNoMetadata (pcnt d)"
  "deferredNoPcm (pcnt (inspectTransferContinuity e data d)) = deferredNoPcm (pcnt d)"
  "playbackUnderruns (pcnt (inspectTransferContinuity e data d)) = playbackUnderruns (pcnt d)"
  "playbackShortPackets (pcnt (inspectTransferContinuity e data d)) = playbackShortPackets (pcnt d)"
  "playbackShortFrames (pcnt (inspectTransferContinuity e data d)) = playbackShortFrames (pcnt d)"
  by (simp_all add: inspectTransferContinuity_def Let_def)

lemma drain_short_frame [simp]:
  "fmt (drain_short e a n b d) = fmt d"
  "captureFormat (drain_short e a n b d) = captureFormat d"
  "buf (drain_short e a n b d) = buf d"
  "captureRing (drain_short e a n b d) = captureRing d"
  "fifo (drain_short e a n b d) = fifo d"
  "pendingImplicit (drain_short e a n b d) = pendingImplicit d"
  "ccnt (drain_short e a n b d) = ccnt d"
  "gaps (drain_short e a n b d) = gaps d"
  "service (drain_short e a n b d) = service d"
  "ses (drain_short e a n b d) = ses d"
  "claim (drain_short e a n b d) = claim d"
  "captureWake (drain_short e a n b d) = captureWake d"
  "playbackWake (drain_short e a n b d) = playbackWake d"
  "bus (drain_short e a n b d) = bus d"
  "ring (drain_short e a n b d) = ring d"
  "led (drain_short e a n b d) = led d"
  "fill (drain_short e a n b d) = fill d"
  "pace (drain_short e a n b d) = pace d"
  "streaming (mode (drain_short e a n b d)) = streaming (mode d)"
  "stopRequested (mode (drain_short e a n b d)) = stopRequested (mode d)"
  "captureActive (mode (drain_short e a n b d)) = captureActive (mode d)"
  "captureLive (mode (drain_short e a n b d)) = captureLive (mode d)"
  "playbackStarted (mode (drain_short e a n b d)) = playbackStarted (mode d)"
  "transportFailed (mode (drain_short e a n b d)) = transportFailed (mode d)"
  "playbackOverrunActive (mode (drain_short e a n b d)) = playbackOverrunActive (mode d)"
  "implicitZeroRunwayActive (mode (drain_short e a n b d)) = implicitZeroRunwayActive (mode d)"
  "deferOutputStart (mode (drain_short e a n b d)) = deferOutputStart (mode d)"
  "deferredTransfers (pcnt (drain_short e a n b d)) = deferredTransfers (pcnt d)"
  "playbackTransferErrors (pcnt (drain_short e a n b d)) = playbackTransferErrors (pcnt d)"
  "lifecycleFailures (pcnt (drain_short e a n b d)) = lifecycleFailures (pcnt d)"
  "pendingDepth (pcnt (drain_short e a n b d)) = pendingDepth (pcnt d)"
  "pendingHighWater (pcnt (drain_short e a n b d)) = pendingHighWater (pcnt d)"
  "zeroRunwayEvents (pcnt (drain_short e a n b d)) = zeroRunwayEvents (pcnt d)"
  "maxPendingAgeNs (pcnt (drain_short e a n b d)) = maxPendingAgeNs (pcnt d)"
  "playbackOverruns (pcnt (drain_short e a n b d)) = playbackOverruns (pcnt d)"
  "deferredNoMetadata (pcnt (drain_short e a n b d)) = deferredNoMetadata (pcnt d)"
  "deferredNoPcm (pcnt (drain_short e a n b d)) = deferredNoPcm (pcnt d)"
  by (simp_all add: drain_short_def Let_def)

lemma drain_copy_frame [simp]:
  "fmt (snd (drain_copy b d)) = fmt d"
  "captureFormat (snd (drain_copy b d)) = captureFormat d"
  "buf (snd (drain_copy b d)) = buf d"
  "captureRing (snd (drain_copy b d)) = captureRing d"
  "fifo (snd (drain_copy b d)) = fifo d"
  "pendingImplicit (snd (drain_copy b d)) = pendingImplicit d"
  "ccnt (snd (drain_copy b d)) = ccnt d"
  "gaps (snd (drain_copy b d)) = gaps d"
  "service (snd (drain_copy b d)) = service d"
  "ses (snd (drain_copy b d)) = ses d"
  "claim (snd (drain_copy b d)) = claim d"
  "captureWake (snd (drain_copy b d)) = captureWake d"
  "playbackWake (snd (drain_copy b d)) = playbackWake d"
  "bus (snd (drain_copy b d)) = bus d"
  "led (snd (drain_copy b d)) = led d"
  "pace (snd (drain_copy b d)) = pace d"
  "mode (snd (drain_copy b d)) = mode d"
  "pcnt (snd (drain_copy b d)) = pcnt d"
  by (simp_all add: drain_copy_def Let_def split: prod.splits)

lemma drainRing_frame [simp, frame]:
  "fmt (snd (drainRing e b d)) = fmt d"
  "captureFormat (snd (drainRing e b d)) = captureFormat d"
  "buf (snd (drainRing e b d)) = buf d"
  "captureRing (snd (drainRing e b d)) = captureRing d"
  "fifo (snd (drainRing e b d)) = fifo d"
  "pendingImplicit (snd (drainRing e b d)) = pendingImplicit d"
  "ccnt (snd (drainRing e b d)) = ccnt d"
  "gaps (snd (drainRing e b d)) = gaps d"
  "service (snd (drainRing e b d)) = service d"
  "ses (snd (drainRing e b d)) = ses d"
  "claim (snd (drainRing e b d)) = claim d"
  "captureWake (snd (drainRing e b d)) = captureWake d"
  "playbackWake (snd (drainRing e b d)) = playbackWake d"
  "bus (snd (drainRing e b d)) = bus d"
  "queuedOutFrames (led (snd (drainRing e b d))) = queuedOutFrames (led d)"
  "inflight (led (snd (drainRing e b d))) = inflight (led d)"
  "captureInflight (led (snd (drainRing e b d))) = captureInflight (led d)"
  "writtenFrames (led (snd (drainRing e b d))) = writtenFrames (led d)"
  "playbackCredit (led (snd (drainRing e b d))) = playbackCredit (led d)"
  "playbackCreditReserve (led (snd (drainRing e b d))) = playbackCreditReserve (led d)"
  "nominalScheduler (pace (snd (drainRing e b d))) = nominalScheduler (pace d)"
  "framesPerUframe_q16 (pace (snd (drainRing e b d))) = framesPerUframe_q16 (pace d)"
  "microframesPerSec (pace (snd (drainRing e b d))) = microframesPerSec (pace d)"
  "maxFramesPerPacket (pace (snd (drainRing e b d))) = maxFramesPerPacket (pace d)"
  "packetIntervalUframes (pace (snd (drainRing e b d))) = packetIntervalUframes (pace d)"
  "fracAccumulator_q16 (pace (snd (drainRing e b d))) = fracAccumulator_q16 (pace d)"
  "streaming (mode (snd (drainRing e b d))) = streaming (mode d)"
  "stopRequested (mode (snd (drainRing e b d))) = stopRequested (mode d)"
  "captureActive (mode (snd (drainRing e b d))) = captureActive (mode d)"
  "captureLive (mode (snd (drainRing e b d))) = captureLive (mode d)"
  "playbackStarted (mode (snd (drainRing e b d))) = playbackStarted (mode d)"
  "transportFailed (mode (snd (drainRing e b d))) = transportFailed (mode d)"
  "playbackOverrunActive (mode (snd (drainRing e b d))) = playbackOverrunActive (mode d)"
  "implicitZeroRunwayActive (mode (snd (drainRing e b d))) = implicitZeroRunwayActive (mode d)"
  "deferOutputStart (mode (snd (drainRing e b d))) = deferOutputStart (mode d)"
  "deferredTransfers (pcnt (snd (drainRing e b d))) = deferredTransfers (pcnt d)"
  "playbackTransferErrors (pcnt (snd (drainRing e b d))) = playbackTransferErrors (pcnt d)"
  "lifecycleFailures (pcnt (snd (drainRing e b d))) = lifecycleFailures (pcnt d)"
  "pendingDepth (pcnt (snd (drainRing e b d))) = pendingDepth (pcnt d)"
  "pendingHighWater (pcnt (snd (drainRing e b d))) = pendingHighWater (pcnt d)"
  "zeroRunwayEvents (pcnt (snd (drainRing e b d))) = zeroRunwayEvents (pcnt d)"
  "maxPendingAgeNs (pcnt (snd (drainRing e b d))) = maxPendingAgeNs (pcnt d)"
  "playbackOverruns (pcnt (snd (drainRing e b d))) = playbackOverruns (pcnt d)"
  "deferredNoMetadata (pcnt (snd (drainRing e b d))) = deferredNoMetadata (pcnt d)"
  "deferredNoPcm (pcnt (snd (drainRing e b d))) = deferredNoPcm (pcnt d)"
  by (simp_all add: drainRing_def Let_def case_prod_beta)

lemma drain_copy_out:
  assumes "ring_inv (ring d)" "0 \<le> bytes" "bytes \<le> INT_MAX" "drain_copy bytes d = (out, d1)"
  shows "out = take (nat bytes) (ring_contents (ring d))" "ring d1 = snd (ring_get (length out) (ring d))"
proof -
  let ?w = "min (ringSize (rhead (ring d)) (rtail (ring d))) (size_of_int bytes)"
  define n where "n = min (ring_len (ring d)) (nat bytes)"
  have u: "unat ?w = n" using assms(2,3) by (simp add: unat_min n_def ring_len_def)
  have "n \<le> 1048576" using ring_inv_len [OF assms(1)] by (simp add: n_def)
  then have i: "int_of_size ?w = int n" using u by (simp add: int_of_size_small)
  have len: "length (ring_contents (ring d)) = ring_len (ring d)" by (simp add: ring_contents_def)
  have nle: "n \<le> ring_len (ring d)" by (simp add: n_def)
  have g: "fst (ring_get n (ring d)) = take n (ring_contents (ring d))"
    using assms(1) nle by (intro ring.get_out) (simp_all add: len)
  have t: "take n (ring_contents (ring d)) = take (nat bytes) (ring_contents (ring d))"
    using len by (simp add: n_def min_def)
  have z: "ring d = snd (ring_get 0 (ring d))" by (simp add: ring_get_def)
  obtain o1 r1 where og: "ring_get n (ring d) = (o1, r1)" by fastforce
  have o1: "o1 = take n (ring_contents (ring d))" "length o1 = n" using g og len nle by auto
  show "out = take (nat bytes) (ring_contents (ring d))" "ring d1 = snd (ring_get (length out) (ring d))"
    using assms(4) z o1 og t by (auto simp: drain_copy_def Let_def i split: if_splits)
qed

lemma drainRing_refines:
  assumes "ring_inv (ring d)" "0 \<le> bytes" "bytes \<le> INT_MAX" "drainRing e bytes d = (out, d')"
  shows "out = take (nat bytes) (ring_contents (ring d))"
    and "ring d' = snd (ring_get (length out) (ring d))"
    and "stride_ok d \<Longrightarrow> playedFrames (led d') = playedFrames (led d) + int (length out div frameBytes d)"
proof -
  obtain d1 where c: "drain_copy bytes d = (out, d1)" and r: "ring d' = ring d1"
    using assms(4) by (auto simp: drainRing_def Let_def split: prod.splits if_splits)
  note dc = drain_copy_out [OF assms(1-3) c]
  show "out = take (nat bytes) (ring_contents (ring d))" "ring d' = snd (ring_get (length out) (ring d))"
    using dc r by simp_all
  have l: "led d1 = led d" using c by (metis drain_copy_frame(15) snd_conv)
  show "playedFrames (led d') = playedFrames (led d) + int (length out div frameBytes d)" if "stride_ok d"
    using assms(4) c l that stride_int [OF that]
    by (auto simp: drainRing_def Let_def stride_ok_def zdiv_int split: if_splits)
qed

section \<open>Preservation and streams\<close>

lemma preparePlaybackWrite_state:
  "snd (preparePlaybackWrite n d) = d \<or> (\<exists>b. snd (preparePlaybackWrite n d) = note_overrun b d)"
proof (cases "n \<le> 0 \<or> strideOf (fmt d) \<le> 0 \<or> store (ring d) = []")
  case True
  then show ?thesis by (simp only: preparePlaybackWrite_def Let_def if_P snd_conv simp_thms)
next
  case False
  show ?thesis
    unfolding preparePlaybackWrite_def Let_def if_not_P [OF False]
    by (rule disjI2, rule exI) (simp only: if_distrib [of snd] snd_conv if_cancel)
qed

lemma writePcm_state:
  "snd (writePcm src n d) = d \<or>
   (\<exists>reg data d1. snd (writePcm src n d) = commitPlaybackWrite reg (fill_region reg data d1) \<and>
      (d1 = d \<or> (\<exists>b. d1 = note_overrun b d)))"
  using preparePlaybackWrite_state [of n d]
  by (cases src) (auto simp: writePcm_def case_prod_beta)

lemma writePcm_frame [simp, frame]:
  "fmt (snd (writePcm src n d)) = fmt d" "buf (snd (writePcm src n d)) = buf d"
  "bus (snd (writePcm src n d)) = bus d" "fifo (snd (writePcm src n d)) = fifo d"
  "pace (snd (writePcm src n d)) = pace d"
  "pendingImplicit (snd (writePcm src n d)) = pendingImplicit d"
  "captureRing (snd (writePcm src n d)) = captureRing d"
  "captureFormat (snd (writePcm src n d)) = captureFormat d"
  "playbackStarted (mode (snd (writePcm src n d))) = playbackStarted (mode d)"
  "transportFailed (mode (snd (writePcm src n d))) = transportFailed (mode d)"
  "captureActive (mode (snd (writePcm src n d))) = captureActive (mode d)"
  "stopRequested (mode (snd (writePcm src n d))) = stopRequested (mode d)"
  using writePcm_state [of src n d] by auto

lemma stride_ok_cong: "fmt d' = fmt d \<Longrightarrow> stride_ok d' \<longleftrightarrow> stride_ok d"
  by (simp add: stride_ok_def)

lemma frameBytes_cong: "fmt d' = fmt d \<Longrightarrow> frameBytes d' = frameBytes d"
  by (simp add: frameBytes_def)

lemma ring_put_playback_ok:
  assumes "playback_ok d" "length bs = n * frameBytes d" "length bs \<le> ring_room (ring d)"
    and "fmt d' = fmt d" "ring d' = ring_put bs (ring d)"
  shows "playback_ok d'" "ring_contents (ring d') = ring_contents (ring d) @ bs"
    and "queued_frames d' = queued_frames d + n"
proof -
  have inv: "ring_inv (ring d)" and dv: "frameBytes d dvd ring_len (ring d)"
    and s: "stride_ok d" using assms(1) by (auto simp: playback_ok_def)
  have len: "ring_len (ring d') = ring_len (ring d) + n * frameBytes d"
    using ring_put_len [OF inv assms(3)] assms(2,5) by simp
  show "ring_contents (ring d') = ring_contents (ring d) @ bs"
    using ring_put_contents [OF inv assms(3)] assms(5) by simp
  show "playback_ok d'"
    using ring_put_inv [OF inv assms(3)] assms(4,5) len dv s
    by (simp add: playback_ok_def frameBytes_cong [OF assms(4)] stride_ok_cong [OF assms(4)])
  show "queued_frames d' = queued_frames d + n"
    using len stride_word(2) [OF s] by (simp add: queued_frames_def frameBytes_cong [OF assms(4)])
qed

lemma ring_get_playback_ok:
  assumes "playback_ok d" "n * frameBytes d \<le> ring_len (ring d)"
    and "fmt d' = fmt d" "ring d' = snd (ring_get (n * frameBytes d) (ring d))"
  shows "playback_ok d'" "ring_contents (ring d') = drop (n * frameBytes d) (ring_contents (ring d))"
    and "queued_frames d' = queued_frames d - n"
proof -
  have inv: "ring_inv (ring d)" and dv: "frameBytes d dvd ring_len (ring d)"
    and s: "stride_ok d" using assms(1) by (auto simp: playback_ok_def)
  have len: "ring_len (ring d') = ring_len (ring d) - n * frameBytes d"
    using ring_get_len [OF assms(2)] assms(4) by simp
  show "ring_contents (ring d') = drop (n * frameBytes d) (ring_contents (ring d))"
    using ring_get_contents [of "n * frameBytes d" "ring d"] assms(2,4) by simp
  show "playback_ok d'"
    using ring_get_inv [of "ring d" "n * frameBytes d"] inv assms(2-4) len dv s
    by (simp add: playback_ok_def frameBytes_cong [OF assms(3)] stride_ok_cong [OF assms(3)])
  show "queued_frames d' = queued_frames d - n"
    using len stride_word(2) [OF s] dv
    by (auto simp: queued_frames_def frameBytes_cong [OF assms(3)] mult.commute [of n]
        simp flip: diff_mult_distrib2)
qed

lemma writePcm_step:
  assumes ok: "playback_ok d" "budget_ok (buf d)" and req: "0 < req" "req \<le> INT_MAX"
    and data: "nat req * frameBytes d \<le> length data"
    and w: "writePcm (Some data) req d = (got, d')"
  defines "n \<equiv> admitted_frames d req"
  shows "got = int n" "playback_ok d'" "queued_frames d' = queued_frames d + n"
    and "ring_contents (ring d') = ring_contents (ring d) @ take (n * frameBytes d) data"
    and "led d' = (led d)\<lparr>writtenFrames := writtenFrames (led d) + int n\<rparr>"
proof -
  note r = writePcm_refines [OF ok req data w, folded n_def]
  have "n \<le> nat req" by (simp add: n_def admitted_frames_def)
  then have "n * frameBytes d \<le> length data" by (rule le_trans [OF mult_le_mono1 data])
  then have len: "length (take (n * frameBytes d) data) = n * frameBytes d" by simp
  have f: "fmt d' = fmt d" using writePcm_frame(1) [of "Some data" req d] w by simp
  note p = ring_put_playback_ok [OF ok(1) len _ f r(2)]
  show "got = int n" "playback_ok d'" "queued_frames d' = queued_frames d + n"
    "ring_contents (ring d') = ring_contents (ring d) @ take (n * frameBytes d) data"
    "led d' = (led d)\<lparr>writtenFrames := writtenFrames (led d) + int n\<rparr>"
    using r p admitted_bytes_fit [of d req] len by (simp_all add: n_def)
qed

lemma drainRing_step:
  assumes ok: "playback_ok d" and k: "int k * strideOf (fmt d) \<le> INT_MAX"
    and dr: "drainRing e (int k * strideOf (fmt d)) d = (out, d')"
  defines "n \<equiv> min k (queued_frames d)"
  shows "length out = n * frameBytes d" "out @ ring_contents (ring d') = ring_contents (ring d)"
    and "playback_ok d'" "queued_frames d' = queued_frames d - n"
    and "playedFrames (led d') = playedFrames (led d) + int n"
proof -
  have inv: "ring_inv (ring d)" and s: "stride_ok d" and dv: "frameBytes d dvd ring_len (ring d)"
    using ok by (auto simp: playback_ok_def)
  define bytes where "bytes = int k * strideOf (fmt d)"
  have "bytes = int (k * frameBytes d)" using stride_int [OF s] by (simp add: bytes_def)
  then have nb: "nat bytes = k * frameBytes d" and b: "0 \<le> bytes" by linarith+
  note r = drainRing_refines [OF inv b k [folded bytes_def] dr [folded bytes_def], unfolded nb]
  have q: "ring_len (ring d) = queued_frames d * frameBytes d" using dv by (simp add: queued_frames_def)
  have len: "length (ring_contents (ring d)) = ring_len (ring d)" by (simp add: ring_contents_def)
  have n: "min (k * frameBytes d) (ring_len (ring d)) = n * frameBytes d"
    by (simp add: q n_def nat_mult_min_left)
  show lo: "length out = n * frameBytes d" using r(1) len n by (simp add: min.commute)
  have le: "n * frameBytes d \<le> ring_len (ring d)" using n by (metis min.cobounded2)
  have f: "fmt d' = fmt d" using drainRing_frame(1) [of e "int k * strideOf (fmt d)" d] dr by simp
  note p = ring_get_playback_ok [OF ok le f] r(2) [unfolded lo]
  show "playback_ok d'" "queued_frames d' = queued_frames d - n" using p by simp_all
  have "take (n * frameBytes d) (ring_contents (ring d)) = out"
    using r(1) by (simp add: n [symmetric] min_def len)
  then show "out @ ring_contents (ring d') = ring_contents (ring d)" using p by (metis append_take_drop_id)
  show "playedFrames (led d') = playedFrames (led d) + int n"
    using r(3) [OF s] lo stride_word(2) [OF s] by simp
qed

section \<open>The playback queue as a byte pipe\<close>

text \<open>The operations of the two threads on the playback ring: a write of some frames by the render
  thread, a drain of a packet of \<open>k\<close> frames by the event thread.\<close>

datatype pb_op = Write bytes int | Drain nat

fun pb_step :: "env \<Rightarrow> pb_op \<Rightarrow> driver \<Rightarrow> bytes \<times> bytes \<times> driver" where
  "pb_step e (Write data n) d =
     (case writePcm (Some data) n d of (got, d') \<Rightarrow> (take (nat got * frameBytes d) data, [], d'))"
| "pb_step e (Drain k) d =
     (case drainRing e (int k * strideOf (fmt d)) d of (out, d') \<Rightarrow> ([], out, d'))"

fun pb_allowed :: "pb_op \<Rightarrow> driver \<Rightarrow> bool" where
  "pb_allowed (Write data n) d \<longleftrightarrow> 0 < n \<and> n \<le> INT_MAX \<and> nat n * frameBytes d \<le> length data"
| "pb_allowed (Drain k) d \<longleftrightarrow> int k * strideOf (fmt d) \<le> INT_MAX"

text \<open>Positions agree with the queue: written minus played is what is buffered.\<close>

definition pb_inv :: "driver \<Rightarrow> bool" where
  "pb_inv d \<longleftrightarrow> playback_ok d \<and> budget_ok (buf d) \<and>
     writtenFrames (led d) - playedFrames (led d) = int (queued_frames d)"

lemma pb_step_flow:
  assumes inv: "pb_inv d" and al: "pb_allowed op d" and st: "pb_step e op d = (inn, out, d')"
  shows "pb_inv d'" "out @ ring_contents (ring d') = ring_contents (ring d) @ inn"
proof -
  have ok: "playback_ok d" "budget_ok (buf d)" using inv by (simp_all add: pb_inv_def)
  have "pb_inv d' \<and> out @ ring_contents (ring d') = ring_contents (ring d) @ inn"
  proof (cases op)
    case (Write data n)
    obtain got d1 where w: "writePcm (Some data) n d = (got, d1)" by fastforce
    have b: "buf d1 = buf d" using writePcm_frame(2) [of "Some data" n d] w by simp
    from al have a: "0 < n" "n \<le> INT_MAX" "nat n * frameBytes d \<le> length data" by (simp_all add: Write)
    note s = writePcm_step [OF ok a w]
    show ?thesis using st inv s b by (auto simp: Write w pb_inv_def)
  next
    case (Drain k)
    obtain o1 d1 where w: "drainRing e (int k * strideOf (fmt d)) d = (o1, d1)" by fastforce
    have fr: "buf d1 = buf d" "writtenFrames (led d1) = writtenFrames (led d)"
      using drainRing_frame(3,18) [of e "int k * strideOf (fmt d)" d] w by simp_all
    from al have a: "int k * strideOf (fmt d) \<le> INT_MAX" by (simp add: Drain)
    note s = drainRing_step [OF ok(1) a w]
    show ?thesis using st inv s fr by (auto simp: Drain w pb_inv_def)
  qed
  then show "pb_inv d'" "out @ ring_contents (ring d') = ring_contents (ring d) @ inn" by simp_all
qed

interpretation playback: byte_pipe "\<lambda>d. ring_contents (ring d)" pb_inv pb_allowed "pb_step e" for e
  by unfold_locales (blast intro: pb_step_flow)+

lemma flushRing_pb_inv:
  assumes "ring_shape (ring d)" "stride_ok d" "budget_ok (buf d)"
  shows "pb_inv (flushRing d)" "ring_contents (ring (flushRing d)) = []"
proof -
  have s: "ring_shape (ring (flushRing d))" using assms(1) by (simp add: flushRing_def ring_shape_def)
  have z: "ring_len (ring (flushRing d)) = 0" by (simp add: flushRing_def ring_len_def ringSize_def)
  then show "ring_contents (ring (flushRing d)) = []" by (simp add: ring_contents_def)
  show "pb_inv (flushRing d)"
    using assms s z
    by (simp add: pb_inv_def playback_ok_def ring_inv_def queued_frames_def stride_ok_def)
       (simp add: flushRing_def)
qed

text \<open>The underrun accounting of a drain: edge-triggered once playback runs, the short frames
  counted per packet, the latch cleared by a full packet.\<close>

lemma drainRing_accounting:
  assumes ok: "playback_ok d" and k: "int k * strideOf (fmt d) \<le> INT_MAX"
    and dr: "drainRing e (int k * strideOf (fmt d)) d = (out, d')"
  defines "short \<equiv> queued_frames d < k"
  shows "playbackShortFrames (pcnt d') = playbackShortFrames (pcnt d) + of_nat (k - queued_frames d)"
    and "playbackUnderruns (pcnt d') = playbackUnderruns (pcnt d) +
      (if short \<and> playbackStarted (mode d) \<and> \<not> playbackUnderrunActive (mode d) then 1 else 0)"
    and "playbackUnderrunActive (mode d') \<longleftrightarrow>
      short \<and> (playbackStarted (mode d) \<or> playbackUnderrunActive (mode d))"
proof -
  have s: "stride_ok d" using ok by (simp add: playback_ok_def)
  let ?b = "int k * strideOf (fmt d)"
  note st = drainRing_step [OF ok k dr]
  obtain d1 where c: "drain_copy ?b d = (out, d1)"
    using dr by (auto simp: drainRing_def Let_def split: prod.splits if_splits)
  have d1: "pcnt d1 = pcnt d" "mode d1 = mode d" "fmt d1 = fmt d"
    using drain_copy_frame [of ?b d] by (simp_all add: c)
  have n: "int (length out) < ?b \<longleftrightarrow> short"
    using st(1) stride_int [OF s] stride_word(2) [OF s]
    by (auto simp: short_def min_def simp flip: of_nat_mult)
  have diff: "cdiv (?b - int (length out)) (strideOf (fmt d)) = int (k - queued_frames d)"
    using st(1) stride_int [OF s] stride_word(2) [OF s]
    by (simp add: min_def algebra_simps flip: left_diff_distrib)
  have pos: "0 < strideOf (fmt d)" using s by (simp add: stride_ok_def)
  have z: "\<not> short \<Longrightarrow> k - queued_frames d = 0" by (simp add: short_def)
  have d': "d' = led_update (playedFrames_update (\<lambda>x. x + cdiv (int (length out)) (strideOf (fmt d))))
      (inspectTransferContinuity e out
        (if short then drain_short e (ringSize (rhead (ring d)) (rtail (ring d))) (int (length out)) ?b d1
         else mode_update (playbackUnderrunActive_update (\<lambda>_. False)) d1))"
    using dr pos by (simp add: drainRing_def Let_def c n)
  show "playbackShortFrames (pcnt d') = playbackShortFrames (pcnt d) + of_nat (k - queued_frames d)"
    using diff pos z by (simp add: d' drain_short_def Let_def d1 size_of_int_def)
  show "playbackUnderruns (pcnt d') = playbackUnderruns (pcnt d) +
      (if short \<and> playbackStarted (mode d) \<and> \<not> playbackUnderrunActive (mode d) then 1 else 0)"
    using pos by (simp add: d' drain_short_def Let_def d1)
  show "playbackUnderrunActive (mode d') \<longleftrightarrow>
      short \<and> (playbackStarted (mode d) \<or> playbackUnderrunActive (mode d))"
    using pos by (simp add: d' drain_short_def Let_def d1)
qed

section \<open>A concrete stream\<close>

text \<open>A stereo 16-bit stream on a small ring, running with a target of two frames and one frame of
  headroom.\<close>

definition demo_driver :: driver where
  "demo_driver = (newDriver 3 4)
     \<lparr>ring := emptyRing 16,
      fmt := defaultStreamFormat\<lparr>channels := 2, bytesPerSample := 2\<rparr>,
      buf := initBuffering\<lparr>playbackTargetFrames := 2, writeHeadroomFrames := 1\<rparr>,
      mode := initModes\<lparr>streaming := True, playbackStarted := True\<rparr>\<rparr>"

text \<open>A libusb that accepts every call and lays packets out contiguously.\<close>

definition demo_env :: env where
  "demo_env = \<lparr>usb_rc = (\<lambda>_ _. 0), usb_data = (\<lambda>_ _. []),
     packet_offset = (\<lambda>x i. \<Sum>p\<leftarrow>take i (xf_pkts x). unat (pk_length p)),
     clock_ns = (\<lambda>n. of_nat n), spin_fuel = 8\<rparr>"

lemma emptyRing_shape: "k \<le> 20 \<Longrightarrow> ring_shape (emptyRing (2 ^ k))"
  by (auto simp: ring_shape_def emptyRing_def mask_eq_exp_minus_1 intro!: exI [of _ k])

lemma emptyRing_inv: "k \<le> 20 \<Longrightarrow> ring_inv (emptyRing (2 ^ k)) \<and> ring_len (emptyRing (2 ^ k)) = 0"
  using emptyRing_shape [of k] by (auto simp: ring_inv_def ring_len_def ringSize_def emptyRing_def)

lemma demo_driver_ok:
  "pb_inv demo_driver" "frameBytes demo_driver = 4" "queued_frames demo_driver = 0"
  "free_frames demo_driver = 4" "admission_limit demo_driver = 3"
  using emptyRing_inv [of 4]
  by (simp_all add: demo_driver_def pb_inv_def playback_ok_def stride_ok_def budget_ok_def
      frameBytes_def strideOf_def queued_frames_def newDriver_def initLedger_def initBuffering_def
      free_frames_def ring_room_def emptyRing_def admission_limit_def defaultStreamFormat_def)

section \<open>Properties\<close>

text \<open>C23. A write is granted exactly what \<open>writableFrames\<close> announces: the driver accepts the first
  \<open>min(frames, writableFrames())\<close> frames of the buffer, appends exactly their bytes to the queue
  whatever the wrap-around of the two-span copy, counts them as written, and never raises the
  queue above the admission ceiling (target or startup prime, plus headroom).\<close>

theorem writePcm_grants_writable:
  assumes "pb_inv d" "0 < req" "req \<le> INT_MAX" "nat req * frameBytes d \<le> length data"
  shows "\<exists>d'. writePcm (Some data) req d = (min req (writableFrames d), d') \<and> pb_inv d' \<and>
    ring_contents (ring d') =
      ring_contents (ring d) @ take (nat (min req (writableFrames d)) * frameBytes d) data \<and>
    bufferedFrames d' = bufferedFrames d + min req (writableFrames d) \<and>
    bufferedFrames d' \<le> max (bufferedFrames d) (admission_limit d) \<and>
    writtenFrames (led d') = writtenFrames (led d) + min req (writableFrames d)"
proof -
  have ok: "playback_ok d" "budget_ok (buf d)" using assms(1) by (simp_all add: pb_inv_def)
  then have i: "ring_inv (ring d)" "stride_ok d" by (simp_all add: playback_ok_def)
  obtain got d' where w: "writePcm (Some data) req d = (got, d')" by fastforce
  note s = writePcm_step [OF ok assms(2-4) w]
  have st: "pb_step undefined (Write data req) d = (take (nat got * frameBytes d) data, [], d')"
    by (simp add: w)
  have inv': "pb_inv d'" using assms by (intro pb_step_flow(1) [OF assms(1) _ st]) simp
  then have i': "ring_inv (ring d')" "stride_ok d'" by (simp_all add: pb_inv_def playback_ok_def)
  have n: "int (admitted_frames d req) = min req (writableFrames d)"
    using assms(2) by (simp only: admitted_frames_def writableFrames_eq i ok int_min_nat)
  have "admitted_frames d req \<le> nat (admission_limit d) - queued_frames d"
    by (simp add: admitted_frames_def)
  then have "int (queued_frames d') \<le> max (int (queued_frames d)) (admission_limit d)"
    using s(3) admission_limit_bounds [OF ok(2)] by auto
  then show ?thesis
    using w inv' s by (simp add: bufferedFrames_eq i i' flip: n)
qed

theorem writePcm_grants_writable_witness:
  "\<exists>d'. writePcm (Some [1,2,3,4,5,6,7,8,9,10,11,12,13,14,15,16]) 4 demo_driver = (3, d') \<and>
     ring_contents (ring d') = [1,2,3,4,5,6,7,8,9,10,11,12]"
proof -
  have w: "writableFrames demo_driver = 3"
    using demo_driver_ok by (simp add: writableFrames_eq pb_inv_def playback_ok_def)
  have c: "ring_contents (ring demo_driver) = []"
    using emptyRing_inv [of 4] by (simp add: ring_contents_def demo_driver_def)
  show ?thesis
    using writePcm_grants_writable [OF demo_driver_ok(1),
        of 4 "[1,2,3,4,5,6,7,8,9,10,11,12,13,14,15,16]"]
    by (auto simp: w c demo_driver_ok)
qed

text \<open>C24. A drain never fabricates audio: asked for a packet of \<open>k\<close> frames it hands over the oldest
  \<open>min(k, buffered)\<close> frames of the queue, bit for bit and in order, counts exactly those as
  played, adds the missing ones to the short-frame counter, and reports an underrun once per
  episode (and only once playback has started).\<close>

theorem drainRing_ships_only_queued:
  assumes "pb_inv d" "int k * strideOf (fmt d) \<le> INT_MAX"
    and "drainRing e (int k * strideOf (fmt d)) d = (out, d')"
  shows "pb_inv d' \<and> out @ ring_contents (ring d') = ring_contents (ring d) \<and>
    int (length out) = min (int k) (bufferedFrames d) * strideOf (fmt d) \<and>
    playedFrames (led d') = playedFrames (led d) + min (int k) (bufferedFrames d) \<and>
    playbackShortFrames (pcnt d') =
      playbackShortFrames (pcnt d) + of_nat (k - nat (bufferedFrames d)) \<and>
    playbackUnderruns (pcnt d') = playbackUnderruns (pcnt d) +
      (if bufferedFrames d < int k \<and> playbackStarted (mode d) \<and> \<not> playbackUnderrunActive (mode d)
       then 1 else 0) \<and>
    (playbackUnderrunActive (mode d') \<longleftrightarrow> bufferedFrames d < int k \<and>
       (playbackStarted (mode d) \<or> playbackUnderrunActive (mode d)))"
proof -
  have ok: "playback_ok d" using assms(1) by (simp add: pb_inv_def)
  then have i: "ring_inv (ring d)" "stride_ok d" by (simp_all add: playback_ok_def)
  have st: "pb_step e (Drain k) d = ([], out, d')" by (simp add: assms(3))
  have "pb_inv d'" using assms(2) by (intro pb_step_flow(1) [OF assms(1) _ st]) simp
  then show ?thesis
    using drainRing_step [OF ok assms(2,3)] drainRing_accounting [OF ok assms(2,3)]
    by (simp add: bufferedFrames_eq i stride_int min_def)
qed

theorem drainRing_ships_only_queued_witness:
  "\<exists>out d'. drainRing demo_env 8 demo_driver = (out, d') \<and> out = [] \<and>
     playbackUnderruns (pcnt d') = playbackUnderruns (pcnt demo_driver) + 1"
proof -
  have s: "int 2 * strideOf (fmt demo_driver) = 8" by (simp add: demo_driver_def strideOf_def)
  have b: "bufferedFrames demo_driver = 0"
    using demo_driver_ok by (simp add: bufferedFrames_eq pb_inv_def playback_ok_def)
  have m: "playbackStarted (mode demo_driver)" "\<not> playbackUnderrunActive (mode demo_driver)"
    by (simp_all add: demo_driver_def initModes_def)
  obtain out d' where dr: "drainRing demo_env (int 2 * strideOf (fmt demo_driver)) demo_driver = (out, d')"
    by fastforce
  show ?thesis
    using drainRing_ships_only_queued [OF demo_driver_ok(1) _ dr] dr s b m by auto
qed

text \<open>C22. In every interleaving of writes by the render thread and packet drains by the event thread,
  the bytes handed to USB followed by the bytes still queued are the bytes queued at the start
  followed by the bytes accepted: nothing is lost, duplicated, reordered or invented, the ring is
  never overfilled, and \<open>writtenFrames() - playedFrames()\<close> is always \<open>bufferedFrames()\<close>.\<close>

theorem playback_stream_fifo:
  assumes "pb_inv d" "pipe_ok (pb_step e) pb_allowed ops d"
    and "pipe_run (pb_step e) ops d = (written, shipped, d')"
  shows "shipped @ ring_contents (ring d') = ring_contents (ring d) @ written \<and>
    ring_len (ring d') \<le> length (store (ring d')) \<and>
    writtenFrames (led d') - playedFrames (led d') = bufferedFrames d'"
proof -
  have f: "pb_inv d' \<and> shipped @ ring_contents (ring d') = ring_contents (ring d) @ written"
    using assms by (rule playback.run_flow)
  then have "ring_inv (ring d')" "stride_ok d'" by (simp_all add: pb_inv_def playback_ok_def)
  then show ?thesis using f by (simp add: bufferedFrames_eq pb_inv_def ring_inv_len)
qed

theorem playback_stream_fifo_witness:
  "\<exists>d'. pipe_run (pb_step demo_env) [Write [1,2,3,4,5,6,7,8] 2, Drain 2] demo_driver =
      ([1,2,3,4,5,6,7,8], [1,2,3,4,5,6,7,8], d') \<and> bufferedFrames d' = 0"
proof -
  let ?d = demo_driver
  let ?ops = "[Write [1,2,3,4,5,6,7,8] 2, Drain 2]"
  obtain got d1 where w: "writePcm (Some [1,2,3,4,5,6,7,8]) 2 ?d = (got, d1)" by fastforce
  obtain out d2 where dr: "drainRing demo_env (int 2 * strideOf (fmt d1)) d1 = (out, d2)" by fastforce
  have ok: "playback_ok ?d" "budget_ok (buf ?d)" using demo_driver_ok(1) by (auto simp: pb_inv_def)
  have a: "admitted_frames ?d 2 = 2" by (simp add: admitted_frames_def demo_driver_ok)
  note s1 = writePcm_step [OF ok, of 2 "[1,2,3,4,5,6,7,8]", OF _ _ _ w]
  have f: "fmt d1 = fmt ?d" using writePcm_frame(1) [of "Some [1,2,3,4,5,6,7,8]" 2 ?d] w by simp
  have st: "strideOf (fmt d1) = 4" by (simp add: f demo_driver_def strideOf_def)
  have fb: "frameBytes d1 = 4" using st by (simp add: frameBytes_def)
  have g: "got = 2" and q1: "queued_frames d1 = 2" and p1: "playback_ok d1"
    using s1 a by (simp_all add: demo_driver_ok)
  note s2 = drainRing_step [OF p1 _ dr]
  have c0: "ring_contents (ring ?d) = []"
    using emptyRing_inv [of 4] by (simp add: ring_contents_def demo_driver_def)
  have run: "pipe_run (pb_step demo_env) ?ops ?d = ([1,2,3,4,5,6,7,8], out, d2)"
    using w dr g by (simp add: demo_driver_ok)
  have al: "pipe_ok (pb_step demo_env) pb_allowed ?ops ?d" using w st by (simp add: demo_driver_ok)
  note F = playback_stream_fifo [OF demo_driver_ok(1) al run]
  have "length out = 8" "queued_frames d2 = 0" "playback_ok d2" using s2 st q1 fb by simp_all
  then have "ring_contents (ring d2) = []" "bufferedFrames d2 = 0"
    using arg_cong [OF conjunct1 [OF F], of length]
    by (simp_all add: c0 playback_ok_def bufferedFrames_eq flip: length_0_conv)
  moreover from this have "out = [1,2,3,4,5,6,7,8]" using F by (simp add: c0)
  ultimately show ?thesis using run by blast
qed

end
