(* ===== verification/Capture.thy ===== *)
theory Capture
  imports Playback
begin

text \<open>
  The consumer side of the capture ring (\<^verbatim>\<open>src/libusb_uac_driver.cpp\<close>): the latency bound
  (\<open>captureFrameLimit\<close>), the two-phase read of the render thread (\<open>prepareCaptureRead\<close>,
  \<open>commitCaptureRead\<close>, \<open>readCapturePcm\<close>), the handover from priming to live capture and the
  explicit discard.  The producer side is in the theory of the completion handlers.
\<close>

section \<open>The latency bound\<close>

definition captureFrameLimit :: "driver \<Rightarrow> int" where
  "captureFrameLimit d =
     (let stride = strideOf (captureFormat d) in
      if stride \<le> 0 \<or> store (captureRing d) = [] then 0
      else
        let graph = graphQuantum (buf d);
            transferFrames = max 1 (capturePacketsPerTransfer (buf d)) *
              max 0 (captureMaxFramesPerPacket (buf d));
            queuedCaptureFrames = (transferCount (buf d) + 2) * transferFrames;
            capturePacketsPerSecond = packetsPerSecondForInterval
              (isHighSpeed (captureFormat d)) (uint (bInterval (captureFormat d)));
            submittedPlaybackFrames = transferCount (buf d) * nominalTransferFrames
              (sampleRateHz (captureFormat d)) (capturePacketsPerTransfer (buf d))
              capturePacketsPerSecond;
            playbackBudget = playbackTargetFrames (buf d) + graph + submittedPlaybackFrames;
            latencyLimit = max (graph * 2) (max (queuedCaptureFrames + graph) playbackBudget);
            physicalLimit = int_of_size (of_nat (length (store (captureRing d))) div size_of_int stride);
            configuredLimit = captureLimitFrames (buf d)
        in if configuredLimit > 0 then min physicalLimit configuredLimit
           else min physicalLimit latencyLimit)"

section \<open>Reading\<close>

record CaptureReadRegion =
  rr_first :: nat
  rr_firstBytes :: u64
  rr_second :: nat
  rr_secondBytes :: u64
  rr_consumerCursor :: u64
  rr_frames :: int
  rr_frameStride :: int

definition emptyReadRegion :: CaptureReadRegion where
  "emptyReadRegion = \<lparr>rr_first = 0, rr_firstBytes = 0, rr_second = 0, rr_secondBytes = 0,
     rr_consumerCursor = 0, rr_frames = 0, rr_frameStride = 0\<rparr>"

text \<open>The consumer's trim to the newest bounded window, counted once the stream is live.\<close>

definition trim_tail :: "driver \<Rightarrow> u64 \<times> driver" where
  "trim_tail d =
     (let head = rhead (captureRing d); tail = rtail (captureRing d);
          limitBytes = size_of_int (captureFrameLimit d) * size_of_int (strideOf (captureFormat d))
      in if ringSize head tail > limitBytes
         then (head - limitBytes,
               if captureLive (mode d) then ccnt_update (captureOverruns_update (\<lambda>x. x + 1)) d else d)
         else (tail, d))"

definition note_underrun :: "bool \<Rightarrow> driver \<Rightarrow> driver" where
  "note_underrun short d = (if short then ccnt_update (captureUnderruns_update (\<lambda>x. x + 1)) d else d)"

definition prepareCaptureRead :: "int \<Rightarrow> driver \<Rightarrow> CaptureReadRegion \<times> driver" where
  "prepareCaptureRead requestedFrames d =
     (let stride = strideOf (captureFormat d) in
      if \<not> captureActive (mode d) \<or> requestedFrames \<le> 0 \<or> channels (captureFormat d) \<le> 0
      then (emptyReadRegion, d)
      else if stride \<le> 0 \<or> store (captureRing d) = [] then (emptyReadRegion, d)
      else (case trim_tail d of (tail, d1) \<Rightarrow>
        let availableFrames = ringSize (rhead (captureRing d)) tail div size_of_int stride;
            frames = min availableFrames (size_of_int requestedFrames);
            bytes = frames * size_of_int stride;
            offset = tail AND rmask (captureRing d);
            first = min bytes (of_nat (length (store (captureRing d))) - offset);
            region = \<lparr>rr_first = unat offset, rr_firstBytes = first, rr_second = 0,
              rr_secondBytes = bytes - first, rr_consumerCursor = tail,
              rr_frames = int_of_size frames, rr_frameStride = stride\<rparr>
        in (region, note_underrun (rr_frames region < requestedFrames) d1)))"

definition commitCaptureRead :: "CaptureReadRegion \<Rightarrow> driver \<Rightarrow> driver" where
  "commitCaptureRead reg d =
     (if rr_frames reg \<le> 0 \<or> rr_frameStride reg \<le> 0 then d
      else captureRing_update (rtail_update (\<lambda>_. rr_consumerCursor reg +
             size_of_int (rr_frames reg) * size_of_int (rr_frameStride reg))) d)"

text \<open>The bytes the two spans of a region hold.\<close>

definition region_bytes :: "CaptureReadRegion \<Rightarrow> driver \<Rightarrow> bytes" where
  "region_bytes reg d =
     span_read (rr_first reg) (unat (rr_firstBytes reg)) (unat (rr_secondBytes reg)) (store (captureRing d))"

text \<open>\<open>readCapturePcm\<close>: the frames returned and the bytes copied to the destination.\<close>

definition readCapturePcm :: "bool \<Rightarrow> int \<Rightarrow> driver \<Rightarrow> (int \<times> bytes) \<times> driver" where
  "readCapturePcm dst_null frames d =
     (if dst_null \<or> frames \<le> 0 then ((0, []), d)
      else (case prepareCaptureRead frames d of (reg, d1) \<Rightarrow>
              ((rr_frames reg, region_bytes reg d1), commitCaptureRead reg d1)))"

section \<open>Discarding\<close>

text \<open>Dropping \<open>n\<close> whole frames from the consumer end.\<close>

definition drop_frames :: "u64 \<Rightarrow> driver \<Rightarrow> driver" where
  "drop_frames n d = captureRing_update
     (rtail_update (\<lambda>tail. tail + n * size_of_int (strideOf (captureFormat d)))) d"

definition capture_available :: "driver \<Rightarrow> u64" where
  "capture_available d =
     ringSize (rhead (captureRing d)) (rtail (captureRing d)) div size_of_int (strideOf (captureFormat d))"

definition beginCaptureLive :: "int \<Rightarrow> driver \<Rightarrow> int \<times> driver" where
  "beginCaptureLive keepFrames d =
     (let d1 = mode_update (captureLive_update (\<lambda>_. True)) d in
      if captureLive (mode d) then (0, d1)
      else if \<not> captureActive (mode d) then (0, d1)
      else if strideOf (captureFormat d) \<le> 0 then (0, d1)
      else
        let keep = (if keepFrames > 0 then size_of_int keepFrames else 0) in
        if capture_available d \<le> keep then (0, d1)
        else
          let discarded = capture_available d - keep
          in (int_of_size discarded,
              ccnt_update (startupCaptureDiscardFrames_update (\<lambda>_. discarded)) (drop_frames discarded d1)))"

definition discardCaptureFrames :: "int \<Rightarrow> driver \<Rightarrow> int \<times> driver" where
  "discardCaptureFrames maxFrames d =
     (if \<not> captureActive (mode d) \<or> maxFrames \<le> 0 then (0, d)
      else if strideOf (captureFormat d) \<le> 0 then (0, d)
      else
        let discarded = min (capture_available d) (size_of_int maxFrames)
        in (int_of_size discarded, drop_frames discarded d))"

definition captureAvailableFrames :: "driver \<Rightarrow> int" where
  "captureAvailableFrames d =
     (if \<not> captureActive (mode d) then 0
      else if strideOf (captureFormat d) \<le> 0 then 0
      else int_of_size (min (capture_available d) (size_of_int (captureFrameLimit d))))"

section \<open>Well-formed capture state\<close>

definition captureBytes :: "driver \<Rightarrow> nat" where
  "captureBytes d = nat (strideOf (captureFormat d))"

definition capture_ok :: "driver \<Rightarrow> bool" where
  "capture_ok d \<longleftrightarrow> ring_inv (captureRing d) \<and> 0 < strideOf (captureFormat d) \<and>
     strideOf (captureFormat d) \<le> 4096 \<and> captureBytes d dvd ring_len (captureRing d) \<and>
     0 \<le> graphQuantum (buf d)"

definition captured_frames :: "driver \<Rightarrow> nat" where
  "captured_frames d = ring_len (captureRing d) div captureBytes d"

text \<open>The newest frames within the latency bound, and how many frames a read skips to get there.\<close>

definition skipped_frames :: "driver \<Rightarrow> nat" where
  "skipped_frames d = captured_frames d - nat (captureFrameLimit d)"

definition capture_window :: "driver \<Rightarrow> bytes" where
  "capture_window d = drop (skipped_frames d * captureBytes d) (ring_contents (captureRing d))"

lemma capture_stride:
  assumes "capture_ok d"
  shows "strideOf (captureFormat d) = int (captureBytes d)" "0 < captureBytes d" "captureBytes d \<le> 4096"
    and "unat (size_of_int (strideOf (captureFormat d))) = captureBytes d"
    and "size_of_int (strideOf (captureFormat d)) = of_nat (captureBytes d)"
  using assms by (auto simp: capture_ok_def captureBytes_def) (simp add: size_of_int_def)

lemma captureFrameLimit_bounds:
  assumes ok: "capture_ok d"
  shows "0 \<le> captureFrameLimit d"
    and "captureFrameLimit d \<le> int (length (store (captureRing d)) div captureBytes d)"
    and "captureFrameLimit d \<le> 1048576"
proof -
  let ?N = "length (store (captureRing d))"
  have N: "0 < ?N" "?N \<le> 1048576" using ok by (auto simp: capture_ok_def dest: ring_inv_len)
  have u: "unat (of_nat ?N div size_of_int (strideOf (captureFormat d)) :: u64) = ?N div captureBytes d"
    using N by (simp add: unat_div capture_stride(4) [OF ok])
  have le: "?N div captureBytes d \<le> 1048576" by (rule order_trans [OF div_le_dividend N(2)])
  then have p: "int_of_size (of_nat ?N div size_of_int (strideOf (captureFormat d))) = int (?N div captureBytes d)"
    using u by (subst int_of_size_small) simp_all
  have g: "0 \<le> graphQuantum (buf d)" "\<not> (strideOf (captureFormat d) \<le> 0 \<or> store (captureRing d) = [])"
    using ok N by (auto simp: capture_ok_def)
  show "0 \<le> captureFrameLimit d" "captureFrameLimit d \<le> int (?N div captureBytes d)"
    unfolding captureFrameLimit_def Let_def if_not_P [OF g(2)] p using g(1) by auto
  then show "captureFrameLimit d \<le> 1048576" using le by linarith
qed

lemma ring_skip:
  assumes "m \<le> ring_len r"
  shows "rhead r - of_nat m = rtail (snd (ring_get (ring_len r - m) r))"
proof -
  define n where "n = ring_len r"
  have "rhead r - rtail r = of_nat n" by (simp add: n_def ring_len_def ringSize_def)
  then have h: "rhead r = rtail r + of_nat n" by (simp add: diff_eq_eq add.commute)
  have "(of_nat (n - m) :: u64) = of_nat n - of_nat m"
    using assms by (simp add: n_def)
  then show ?thesis unfolding n_def [symmetric] by (simp add: h ring_get_def Let_def)
qed

text \<open>The tail after the trim skips exactly the frames beyond the latency bound.\<close>

lemma trim_tail_skip:
  assumes ok: "capture_ok d"
  shows "trim_tail d =
    (rtail (snd (ring_get (skipped_frames d * captureBytes d) (captureRing d))),
     if 0 < skipped_frames d \<and> captureLive (mode d)
     then ccnt_update (captureOverruns_update (\<lambda>x. x + 1)) d else d)"
proof -
  let ?r = "captureRing d" and ?L = "nat (captureFrameLimit d)" and ?s = "captureBytes d"
  define lb where "lb = size_of_int (captureFrameLimit d) * size_of_int (strideOf (captureFormat d))"
  note b = captureFrameLimit_bounds [OF ok] and s = capture_stride [OF ok]
  have dv: "ring_len ?r = captured_frames d * ?s" using ok by (simp add: captured_frames_def capture_ok_def)
  have "?L \<le> length (store ?r) div ?s" using b(1,2) by linarith
  then have "?L * ?s \<le> length (store ?r)" using s(2) by (simp add: less_eq_div_iff_mult_less_eq)
  then have small: "?L * ?s < 2 ^ 64"
    using ok ring_inv_len(3) [of ?r] by (simp add: capture_ok_def)
  have lbn: "lb = of_nat (?L * ?s)" using b(1) s(5) by (simp add: lb_def size_of_int_def)
  have u: "unat lb = ?L * ?s" using small by (simp add: lbn del: of_nat_mult)
  have cmp: "ringSize (rhead ?r) (rtail ?r) > lb \<longleftrightarrow> 0 < skipped_frames d"
    using u dv s(2) by (auto simp: word_less_nat_alt skipped_frames_def ring_len_def)
  have hd: "rhead ?r - lb = rtail (snd (ring_get (skipped_frames d * ?s) ?r))" if "0 < skipped_frames d"
  proof -
    have le: "?L * ?s \<le> ring_len ?r" using that dv by (simp add: skipped_frames_def)
    have "ring_len ?r - ?L * ?s = skipped_frames d * ?s"
      by (simp add: dv skipped_frames_def diff_mult_distrib)
    then show ?thesis using ring_skip [OF le] by (simp only: lbn)
  qed
  have z: "\<not> 0 < skipped_frames d \<Longrightarrow> rtail ?r = rtail (snd (ring_get (skipped_frames d * ?s) ?r))"
    by (simp add: ring_get_def)
  show ?thesis
    unfolding trim_tail_def Let_def lb_def [symmetric] cmp using hd z by simp
qed

lemma skipped_le: "capture_ok d \<Longrightarrow> skipped_frames d * captureBytes d \<le> ring_len (captureRing d)"
  by (metis captured_frames_def capture_ok_def diff_le_self dvd_div_mult_self mult_le_mono1 skipped_frames_def)

definition granted_frames :: "driver \<Rightarrow> int \<Rightarrow> nat" where
  "granted_frames d n = min (captured_frames d - skipped_frames d) (nat n)"

lemma note_underrun_frame [simp, frame]:
  "captureRing (note_underrun b d) = captureRing d" "captureFormat (note_underrun b d) = captureFormat d"
  "mode (note_underrun b d) = mode d" "buf (note_underrun b d) = buf d"
  by (simp_all add: note_underrun_def)

definition capturing :: "driver \<Rightarrow> bool" where
  "capturing d \<longleftrightarrow> captureActive (mode d) \<and> 0 < channels (captureFormat d)"

lemma granted_fits:
  assumes ok: "capture_ok d"
  shows "granted_frames d n * captureBytes d \<le>
    ring_len (snd (ring_get (skipped_frames d * captureBytes d) (captureRing d)))"
proof -
  have dv: "ring_len (captureRing d) = captured_frames d * captureBytes d"
    using ok by (simp add: captured_frames_def capture_ok_def)
  have "granted_frames d n * captureBytes d \<le> (captured_frames d - skipped_frames d) * captureBytes d"
    by (intro mult_le_mono1) (simp add: granted_frames_def)
  then show ?thesis using skipped_le [OF ok] by (simp add: ring_get_len dv diff_mult_distrib)
qed

lemma prepareCaptureRead_region:
  assumes ok: "capture_ok d" and cap: "capturing d" and req: "0 < req" "req \<le> INT_MAX"
    and p: "prepareCaptureRead req d = (reg, d1)"
  defines "n \<equiv> granted_frames d req"
    and "r1 \<equiv> snd (ring_get (skipped_frames d * captureBytes d) (captureRing d))"
  shows "reg = \<lparr>rr_first = ring_offset (captureRing d) (rtail r1),
       rr_firstBytes = of_nat (first_span (captureRing d) (rtail r1) (n * captureBytes d)), rr_second = 0,
       rr_secondBytes = of_nat (n * captureBytes d - first_span (captureRing d) (rtail r1) (n * captureBytes d)),
       rr_consumerCursor = rtail r1, rr_frames = int n, rr_frameStride = strideOf (captureFormat d)\<rparr>"
    and "d1 = note_underrun (n < nat req) (snd (trim_tail d))"
proof -
  let ?r = "captureRing d" and ?s = "captureBytes d" and ?N = "length (store (captureRing d))"
  note s = capture_stride [OF ok]
  have inv: "ring_inv ?r" using ok by (simp add: capture_ok_def)
  have N: "?N \<le> 1048576" "0 < ?N" using ring_inv_len [OF inv] by auto
  have dv: "ring_len ?r = captured_frames d * ?s" using ok by (simp add: captured_frames_def capture_ok_def)
  define w where "w = min (ringSize (rhead ?r) (rtail r1) div size_of_int (strideOf (captureFormat d))) (size_of_int req)"
  have "rhead r1 = rhead ?r" by (simp add: r1_def ring_get_def Let_def)
  then have len: "unat (ringSize (rhead ?r) (rtail r1)) = (captured_frames d - skipped_frames d) * ?s"
    using ring_get_len [OF skipped_le [OF ok]] dv
    by (simp add: r1_def ring_len_def diff_mult_distrib)
  have uw: "unat w = n"
    using req s(2) by (simp add: w_def unat_min unat_div s(4) len n_def granted_frames_def)
  have fit: "n * ?s \<le> ?N"
    using granted_fits [OF ok, of req] ring_get_len [OF skipped_le [OF ok]] ring_inv_len(1) [OF inv]
    by (simp add: n_def)
  have "n \<le> n * ?s" using s(2) by simp
  then have n31: "n \<le> 1048576" using fit N by linarith
  have bytes: "w * size_of_int (strideOf (captureFormat d)) = of_nat (n * ?s)"
    using word_of_unat [OF uw] by (simp add: s(5))
  have shape: "ring_shape ?r" using inv by (simp add: ring_inv_def)
  let ?off = "rtail r1 AND rmask ?r"
  have off: "unat ?off < ?N" using ring_offset_less [OF shape] by (simp add: ring_offset_def)
  have span: "unat (of_nat ?N - ?off) = ?N - unat ?off"
    using off N by (subst unat_sub) (auto simp: word_le_nat_alt)
  have ub: "unat (of_nat (n * ?s) :: u64) = n * ?s" using fit N by (intro unat_of_nat64) simp
  have first: "min (of_nat (n * ?s)) (of_nat ?N - ?off) = of_nat (first_span ?r (rtail r1) (n * ?s))"
    unfolding word_unat_eq_iff unat_min span ub
    using fit N by (simp add: first_span_def ring_offset_def unat_of_nat min_def)
  have second: "of_nat (n * ?s) - of_nat (first_span ?r (rtail r1) (n * ?s)) =
      (of_nat (n * ?s - first_span ?r (rtail r1) (n * ?s)) :: u64)"
    by (simp add: first_span_def)
  have small: "int_of_size w = int n" using uw n31 by (subst int_of_size_small) simp_all
  have t: "trim_tail d = (rtail r1, snd (trim_tail d))" by (simp add: trim_tail_skip [OF ok] r1_def)
  have g: "\<not> (\<not> captureActive (mode d) \<or> req \<le> 0 \<or> channels (captureFormat d) \<le> 0)"
    "\<not> (strideOf (captureFormat d) \<le> 0 \<or> store ?r = [])"
    using cap req s(1,2) N by (auto simp: capturing_def)
  have lt: "int n < req \<longleftrightarrow> n < nat req" using req by linarith
  show "reg = \<lparr>rr_first = ring_offset ?r (rtail r1),
       rr_firstBytes = of_nat (first_span ?r (rtail r1) (n * ?s)), rr_second = 0,
       rr_secondBytes = of_nat (n * ?s - first_span ?r (rtail r1) (n * ?s)),
       rr_consumerCursor = rtail r1, rr_frames = int n, rr_frameStride = strideOf (captureFormat d)\<rparr>"
    "d1 = note_underrun (n < nat req) (snd (trim_tail d))"
    using p unfolding prepareCaptureRead_def Let_def if_not_P [OF g(1)] if_not_P [OF g(2)]
    by (subst (asm) t, simp add: w_def [symmetric] bytes first second small lt ring_offset_def
        del: of_nat_mult of_nat_diff)+
qed

lemma capture_available_word:
  "capture_ok d \<Longrightarrow> unat (capture_available d) = captured_frames d"
  by (simp add: capture_available_def unat_div capture_stride(4) captured_frames_def ring_len_def)

lemma captured_frames_small: "capture_ok d \<Longrightarrow> captured_frames d \<le> 1048576"
  unfolding captured_frames_def capture_ok_def
  using ring_inv_len [of "captureRing d"] by (intro order_trans [OF div_le_dividend]) auto

lemma captureAvailableFrames_eq:
  assumes ok: "capture_ok d" and cap: "capturing d"
  shows "captureAvailableFrames d = int (captured_frames d - skipped_frames d)"
proof -
  note b = captureFrameLimit_bounds [OF ok]
  let ?w = "min (capture_available d) (size_of_int (captureFrameLimit d))"
  have "unat ?w = captured_frames d - skipped_frames d"
    using b by (simp add: unat_min capture_available_word ok skipped_frames_def)
  then have "int_of_size ?w = int (captured_frames d - skipped_frames d)"
    using captured_frames_small [OF ok] by (subst int_of_size_small) simp_all
  then show ?thesis
    using cap ok by (simp add: captureAvailableFrames_def capturing_def capture_ok_def)
qed

lemma trim_tail_frame [simp]:
  "captureRing (snd (trim_tail d)) = captureRing d" "captureFormat (snd (trim_tail d)) = captureFormat d"
  "mode (snd (trim_tail d)) = mode d" "buf (snd (trim_tail d)) = buf d"
  by (simp_all add: trim_tail_def Let_def)

lemma capture_get_ok:
  assumes ok: "capture_ok d" and n: "n * captureBytes d \<le> ring_len (captureRing d)"
    and d': "captureRing d' = snd (ring_get (n * captureBytes d) (captureRing d))"
    "captureFormat d' = captureFormat d" "graphQuantum (buf d') = graphQuantum (buf d)"
  shows "capture_ok d'"
    "ring_contents (captureRing d') = drop (n * captureBytes d) (ring_contents (captureRing d))"
proof -
  have cb: "captureBytes d' = captureBytes d" using d'(2) by (simp add: captureBytes_def)
  show "capture_ok d'"
    using ok n ring_get_inv [of "captureRing d" "n * captureBytes d"]
    by (simp add: capture_ok_def cb d' ring_get_len)
  show "ring_contents (captureRing d') = drop (n * captureBytes d) (ring_contents (captureRing d))"
    using n d'(1) by (simp add: ring_get_contents)
qed

lemma readCapturePcm_step:
  assumes ok: "capture_ok d" and cap: "capturing d" and req: "0 < req" "req \<le> INT_MAX"
    and rd: "readCapturePcm False req d = ((got, out), d')"
  defines "n \<equiv> granted_frames d req"
  shows "got = int n" "out = take (n * captureBytes d) (capture_window d)" "capture_ok d'"
    and "ring_contents (captureRing d') =
      (if n = 0 then ring_contents (captureRing d) else drop (n * captureBytes d) (capture_window d))"
    and "ccnt d' = ccnt (note_underrun (n < nat req) (snd (trim_tail d)))"
proof -
  let ?r = "captureRing d" and ?s = "captureBytes d" and ?k = "skipped_frames d * captureBytes d"
  define r1 where "r1 = snd (ring_get ?k ?r)"
  obtain reg d1 where p: "prepareCaptureRead req d = (reg, d1)" by fastforce
  note P = prepareCaptureRead_region [OF ok cap req p, folded n_def r1_def]
  have e: "got = rr_frames reg" "out = region_bytes reg d1" "d' = commitCaptureRead reg d1"
    using rd req p by (simp_all add: readCapturePcm_def)
  have inv: "ring_inv ?r" and shape: "ring_shape ?r" using ok by (auto simp: capture_ok_def ring_inv_def)
  have fit: "n * ?s \<le> ring_len r1" using granted_fits [OF ok] by (simp add: n_def r1_def)
  have r1: "store r1 = store ?r" "rmask r1 = rmask ?r" "ring_inv r1"
    "ring_contents r1 = capture_window d"
    using ring_get_inv [OF inv skipped_le [OF ok]] ring_get_contents [OF skipped_le [OF ok]]
    by (simp_all add: r1_def ring_get_def Let_def capture_window_def)
  have N: "n * ?s \<le> length (store ?r)" "length (store ?r) \<le> 1048576"
    using fit ring_inv_len [OF r1(3)] ring_inv_len(3) [OF inv] by (simp_all add: r1)
  have fs: "first_span ?r (rtail r1) (n * ?s) \<le> n * ?s" by (simp add: first_span_def)
  have u: "unat (of_nat (first_span ?r (rtail r1) (n * ?s)) :: u64) = first_span ?r (rtail r1) (n * ?s)"
    "unat (of_nat (n * ?s - first_span ?r (rtail r1) (n * ?s)) :: u64) =
      n * ?s - first_span ?r (rtail r1) (n * ?s)"
    using N fs by (intro unat_of_nat64; simp)+
  have cr: "captureRing d1 = ?r" by (simp add: P(2))
  have same: "ring_offset r1 c = ring_offset ?r c" "first_span r1 c k = first_span ?r c k" for c k
    by (simp_all add: first_span_def ring_offset_def r1)
  show "got = int n" by (simp add: e P(1))
  have "fst (ring_get (n * ?s) r1) = out"
    by (simp add: e region_bytes_def cr P(1) u ring_get_def Let_def r1 same del: of_nat_diff of_nat_mult)
  then show "out = take (n * ?s) (capture_window d)" using ring_get_out [OF r1(3) fit] r1(4) by simp
  have tl: "rtail r1 + size_of_int (int n) * size_of_int (strideOf (captureFormat d)) =
      rtail (snd (ring_get (n * ?s) r1))"
    using capture_stride(5) [OF ok] by (simp add: ring_get_def Let_def size_of_int_def [of "int n"])
  have d': "captureRing d' = (if n = 0 then ?r else snd (ring_get (n * ?s) r1))"
    using capture_stride(1,2) [OF ok] tl
    by (auto simp: e commitCaptureRead_def P(1) cr ring_get_def Let_def r1_def)
  have fr: "captureFormat d' = captureFormat d" "buf d' = buf d"
    by (simp_all add: e commitCaptureRead_def P(2))
  show "ccnt d' = ccnt (note_underrun (n < nat req) (snd (trim_tail d)))"
    by (simp add: e commitCaptureRead_def P(2))
  show "ring_contents (captureRing d') =
      (if n = 0 then ring_contents ?r else drop (n * ?s) (capture_window d))"
    using d' ring_get_contents [OF fit] by (simp add: r1(4))
  let ?d2 = "d\<lparr>captureRing := r1\<rparr>"
  have ok2: "capture_ok ?d2"
    using capture_get_ok(1) [OF ok skipped_le [OF ok], of ?d2] by (simp add: r1_def)
  have cb: "captureBytes ?d2 = ?s" by (simp add: captureBytes_def)
  show "capture_ok d'"
  proof (cases "n = 0")
    case True
    then show ?thesis using ok d' fr by (simp add: capture_ok_def captureBytes_def)
  next
    case False
    then show ?thesis
      using capture_get_ok(1) [OF ok2, of n d'] fit d' fr by (simp add: cb)
  qed
qed

lemma drop_frames_get:
  assumes ok: "capture_ok d" and n: "unat w \<le> captured_frames d"
  shows "captureRing (drop_frames w d) = snd (ring_get (unat w * captureBytes d) (captureRing d))"
    and "unat w * captureBytes d \<le> ring_len (captureRing d)"
proof -
  have "w * size_of_int (strideOf (captureFormat d)) = of_nat (unat w * captureBytes d)"
    using capture_stride(5) [OF ok] word_of_unat [of w] by simp
  then show "captureRing (drop_frames w d) = snd (ring_get (unat w * captureBytes d) (captureRing d))"
    by (simp add: drop_frames_def ring_get_def Let_def del: of_nat_mult)
  have "ring_len (captureRing d) = captured_frames d * captureBytes d"
    using ok by (simp add: captured_frames_def capture_ok_def)
  then show "unat w * captureBytes d \<le> ring_len (captureRing d)" using n by simp
qed

section \<open>A concrete capture stream\<close>

text \<open>Mono 16-bit capture with six frames queued and a configured bound of four.\<close>

definition demo_capture :: driver where
  "demo_capture = (newDriver 3 4)
     \<lparr>captureRing := ring_put [1,2,3,4,5,6,7,8,9,10,11,12] (emptyRing 16),
      captureFormat := defaultStreamFormat\<lparr>channels := 1, bitsPerSample := 16, bytesPerSample := 2\<rparr>,
      buf := initBuffering\<lparr>captureLimitFrames := 4\<rparr>,
      mode := initModes\<lparr>streaming := True, captureActive := True, captureLive := True\<rparr>\<rparr>"

lemma demo_capture_ok:
  "capture_ok demo_capture" "capturing demo_capture" "captureBytes demo_capture = 2"
  "captured_frames demo_capture = 6" "captureFrameLimit demo_capture = 4"
  "ring_contents (captureRing demo_capture) = [1,2,3,4,5,6,7,8,9,10,11,12]"
proof -
  let ?bs = "[1,2,3,4,5,6,7,8,9,10,11,12] :: bytes"
  have e: "ring_inv (emptyRing 16)" "ring_len (emptyRing 16) = 0" "ring_contents (emptyRing 16) = []"
    using emptyRing_inv [of 4] by (auto simp: ring_contents_def)
  have room: "length ?bs \<le> ring_room (emptyRing 16)"
    by (simp add: ring_room_def e) (simp add: emptyRing_def)
  note f = ring_put_inv [OF e(1) room] ring_put_len [OF e(1) room] ring_put_contents [OF e(1) room]
  have st: "length (store (ring_put ?bs (emptyRing 16))) = 16"
    using room by (simp add: ring_put_def span_write_def first_span_def ring_offset_def emptyRing_def
        memcpy_at_def)
  have cb: "captureBytes demo_capture = 2"
    by (simp add: demo_capture_def captureBytes_def strideOf_def)
  show ok: "capture_ok demo_capture" using f e(2) cb
    by (simp add: capture_ok_def demo_capture_def strideOf_def initBuffering_def)
  show "capturing demo_capture" by (simp add: capturing_def demo_capture_def)
  show "captureBytes demo_capture = 2" by (rule cb)
  show "captured_frames demo_capture = 6" using f e(2)
    by (simp add: captured_frames_def cb) (simp add: demo_capture_def)
  show "ring_contents (captureRing demo_capture) = ?bs" using f e(3) by (simp add: demo_capture_def)
  have "int_of_size (16 div size_of_int 2) = 8"
    by (simp add: int_of_size_def size_of_int_def)
  moreover have "store (ring_put ?bs (emptyRing 16)) \<noteq> []" using st by (auto simp flip: length_greater_0_conv)
  ultimately show "captureFrameLimit demo_capture = 4"
    by (simp add: captureFrameLimit_def Let_def demo_capture_def strideOf_def st)
qed

section \<open>Properties\<close>

text \<open>C25. A capture read returns exactly \<open>min(captureAvailableFrames(), frames)\<close> frames: the oldest
  ones inside the newest window the latency bound allows, in order and across the wrap of the
  ring.  Frames older than the window are dropped and, once the stream is live, counted as one
  overrun; a read that returns fewer frames than asked counts one underrun.\<close>

theorem readCapturePcm_newest_window:
  assumes "capture_ok d" "capturing d" "0 < req" "req \<le> INT_MAX"
    and "readCapturePcm False req d = ((got, out), d')"
  shows "got = min (captureAvailableFrames d) req \<and>
    out = take (nat got * captureBytes d) (capture_window d) \<and>
    length out = nat got * captureBytes d \<and>
    (got > 0 \<longrightarrow> ring_contents (captureRing d') = drop (nat got * captureBytes d) (capture_window d)) \<and>
    (got = 0 \<longrightarrow> ring_contents (captureRing d') = ring_contents (captureRing d)) \<and>
    captureOverruns (ccnt d') = captureOverruns (ccnt d) +
      (if captureFrameLimit d < int (captured_frames d) \<and> captureLive (mode d) then 1 else 0) \<and>
    captureUnderruns (ccnt d') = captureUnderruns (ccnt d) + (if got < req then 1 else 0) \<and>
    capture_ok d'"
proof -
  note s = readCapturePcm_step [OF assms]
  have n: "int (granted_frames d req) = min (captureAvailableFrames d) req"
    unfolding captureAvailableFrames_eq [OF assms(1,2)] granted_frames_def
    by (simp only: min.commute [of _ "nat req"] min.commute [of _ req] int_min_nat [OF assms(3)])
  have len: "granted_frames d req * captureBytes d \<le> length (capture_window d)"
    using granted_fits [OF assms(1)] ring_get_len [OF skipped_le [OF assms(1)]]
    by (simp add: capture_window_def ring_contents_def)
  have sk: "0 < skipped_frames d \<longleftrightarrow> captureFrameLimit d < int (captured_frames d)"
    using captureFrameLimit_bounds(1) [OF assms(1)] by (auto simp: skipped_frames_def)
  have lt: "granted_frames d req < nat req \<longleftrightarrow> int (granted_frames d req) < req"
    using assms(3) by linarith
  show ?thesis
    using s(2-5) len
    by (simp add: s(1) trim_tail_skip [OF assms(1)] note_underrun_def sk lt flip: n)
qed

theorem readCapturePcm_newest_window_witness:
  "\<exists>d'. readCapturePcm False 3 demo_capture = ((3, [5,6,7,8,9,10]), d') \<and>
     ring_contents (captureRing d') = [11,12]"
proof -
  obtain got out d' where rd: "readCapturePcm False 3 demo_capture = ((got, out), d')"
    by (metis prod.collapse)
  have a: "captureAvailableFrames demo_capture = 4"
    using demo_capture_ok by (simp add: captureAvailableFrames_eq skipped_frames_def)
  have w: "capture_window demo_capture = [5,6,7,8,9,10,11,12]"
    by (simp add: capture_window_def skipped_frames_def demo_capture_ok)
  show ?thesis
    using readCapturePcm_newest_window [OF demo_capture_ok(1,2) _ _ rd] rd
    by (simp add: a w demo_capture_ok)
qed

text \<open>The handover to live capture happens once: the first call keeps the newest \<open>keep\<close> frames,
  drops the pre-roll before them, reports and records how many frames that was, and arms the
  overrun counting; every later call changes nothing and returns 0.\<close>

theorem beginCaptureLive_once:
  assumes "capture_ok d" "capturing d" "\<not> captureLive (mode d)" "keep \<le> INT_MAX"
    and "beginCaptureLive keep d = (dropped_frames, d')"
  shows "dropped_frames = max 0 (int (captured_frames d) - max 0 keep) \<and>
    ring_contents (captureRing d') =
      drop (nat dropped_frames * captureBytes d) (ring_contents (captureRing d)) \<and>
    (dropped_frames > 0 \<longrightarrow>
       uint (startupCaptureDiscardFrames (ccnt d')) = dropped_frames) \<and>
    captureLive (mode d') \<and> capture_ok d' \<and> beginCaptureLive keep2 d' = (0, d')"
proof -
  define k where "k = (if keep > 0 then size_of_int keep else 0)"
  have uk: "unat k = nat (max 0 keep)" using assms(4) by (simp add: k_def)
  have av: "unat (capture_available d) = captured_frames d" using assms(1) by (rule capture_available_word)
  have stp: "\<not> strideOf (captureFormat d) \<le> 0" using assms(1) by (simp add: capture_ok_def)
  let ?d1 = "mode_update (captureLive_update (\<lambda>_. True)) d"
  have ok1: "capture_ok ?d1" using assms(1) by (simp add: capture_ok_def captureBytes_def)
  have cf: "captured_frames ?d1 = captured_frames d" "captureBytes ?d1 = captureBytes d"
    by (simp_all add: captured_frames_def captureBytes_def)
  have again: "captureLive (mode x) \<Longrightarrow> beginCaptureLive keep2 x = (0, x)" for x
    by (simp add: beginCaptureLive_def Let_def)
  show ?thesis
  proof (cases "capture_available d \<le> k")
    case True
    then have "(dropped_frames, d') = (0, ?d1)"
      using assms stp by (simp add: beginCaptureLive_def Let_def k_def capturing_def)
    moreover have "int (captured_frames d) \<le> max 0 keep"
      using True by (simp add: word_le_nat_alt av uk)
    ultimately show ?thesis using ok1 again [of ?d1] by simp
  next
    case False
    let ?w = "capture_available d - k"
    have uw: "unat ?w = captured_frames d - nat (max 0 keep)"
      using False by (simp add: word_le_nat_alt unat_sub_if_size word_size av uk)
    have i: "int_of_size ?w = int (captured_frames d - nat (max 0 keep))"
      using uw captured_frames_small [OF assms(1)] by (subst int_of_size_small) simp_all
    have e: "dropped_frames = int_of_size ?w"
      "d' = ccnt_update (startupCaptureDiscardFrames_update (\<lambda>_. ?w)) (drop_frames ?w ?d1)"
      using assms False stp by (simp_all add: beginCaptureLive_def Let_def k_def capturing_def)
    have wn: "unat ?w \<le> captured_frames ?d1" using uw cf by simp
    note g = drop_frames_get [OF ok1 wn]
    have dr: "nat dropped_frames = unat ?w" "dropped_frames = max 0 (int (captured_frames d) - max 0 keep)"
      using i uw e(1) by linarith+
    have "captureRing d' = captureRing (drop_frames ?w ?d1)" "captureFormat d' = captureFormat ?d1"
      "graphQuantum (buf d') = graphQuantum (buf ?d1)" and live: "captureLive (mode d')"
      and disc: "startupCaptureDiscardFrames (ccnt d') = ?w"
      by (simp_all add: e(2) drop_frames_def)
    then have "capture_ok d'" "ring_contents (captureRing d') =
        drop (unat ?w * captureBytes d) (ring_contents (captureRing d))"
      using capture_get_ok [OF ok1 g(2), of d'] g(1) cf(2) by simp_all
    moreover have "uint ?w = dropped_frames" using uw e(1) i by (simp add: uint_nat)
    ultimately show ?thesis using dr live again [OF live] disc by simp
  qed
qed

theorem beginCaptureLive_once_witness:
  "\<exists>d'. beginCaptureLive 2 (mode_update (captureLive_update (\<lambda>_. False)) demo_capture) = (4, d') \<and>
     ring_contents (captureRing d') = [9,10,11,12]"
proof -
  let ?d = "mode_update (captureLive_update (\<lambda>_. False)) demo_capture"
  have ok: "capture_ok ?d" "capturing ?d" "captured_frames ?d = 6" "captureBytes ?d = 2"
    using demo_capture_ok by (simp_all add: capture_ok_def capturing_def captured_frames_def captureBytes_def)
  obtain n d' where b: "beginCaptureLive 2 ?d = (n, d')" by fastforce
  show ?thesis
    using beginCaptureLive_once [OF ok(1,2) _ _ b, of 0] b by (auto simp: ok demo_capture_ok)
qed

end
