(* ===== verification/Completions.thy ===== *)
theory Completions
  imports Capture
begin

text \<open>
  The completion handlers of the event thread (\<^verbatim>\<open>src/libusb_uac_driver.cpp\<close>): \<open>onCapture\<close>,
  \<open>onFeedback\<close>, \<open>onIso\<close> and what they call to refill and resubmit transfers
  (\<open>prepareImplicitTransfer\<close>, \<open>submitPendingImplicitTransfers\<close>, \<open>markTransportFailed\<close>).

  A handler receives the completed transfer as a value and returns the new driver state; a
  transfer it resubmits appears in the bus log, one it defers in \<open>pendingImplicit\<close>.  One handler
  is one step: libusb runs the callbacks of a context one at a time on the event thread, and the
  compare-exchange loops succeed at their first attempt.  \<open>pendingImplicit\<close> is the live prefix of
  the two pending arrays, so its length is \<open>pendingImplicitCount_\<close>.
\<close>

section \<open>Shared pieces\<close>

definition subtractQueued :: "u64 \<Rightarrow> u64 \<Rightarrow> u64" where
  "subtractQueued current amount =
     (if current = 0 then current else if current > amount then current - amount else 0)"

definition markTransportFailed :: "driver \<Rightarrow> driver" where
  "markTransportFailed d =
     d\<lparr>mode := (mode d)\<lparr>transportFailed := True, captureActive := False, streaming := False,
         stopRequested := True\<rparr>,
       captureWake := wake_signal (captureWake d),
       playbackWake := wake_signal (playbackWake d)\<rparr>"

text \<open>The sum of packet lengths in frames that the code takes before and after a resubmission.\<close>

definition transfer_frames :: "int \<Rightarrow> xfer \<Rightarrow> u64" where
  "transfer_frames stride x =
     (if stride > 0 then \<Sum>p\<leftarrow>xf_pkts x. ucast (pk_length p div u32_of_int stride) else 0)"

text \<open>Retiring a transfer that will not be resubmitted.\<close>

definition retire_out :: "driver \<Rightarrow> driver" where
  "retire_out d = led_update (inflight_update (\<lambda>x. x - 1)) d"

definition count_playback_error :: "driver \<Rightarrow> driver" where
  "count_playback_error d = pcnt_update (playbackTransferErrors_update (\<lambda>x. x + 1)) d"

section \<open>Filling the packets of an OUT transfer\<close>

definition set_packet_length :: "nat \<Rightarrow> int \<Rightarrow> xfer \<Rightarrow> xfer" where
  "set_packet_length i n x = x\<lparr>xf_pkts := (xf_pkts x)[i := (xf_pkts x ! i)\<lparr>pk_length := u32_of_int n\<rparr>]\<rparr>"

text \<open>One packet of \<open>frames\<close> frames: its scheduled length, then the drain into its place in the
  buffer and the length of what was really drained.\<close>

definition ship_packet :: "env \<Rightarrow> nat \<Rightarrow> int \<Rightarrow> xfer \<Rightarrow> driver \<Rightarrow> xfer \<times> driver" where
  "ship_packet e i frames x d =
     (let bytes = frames * strideOf (fmt d);
          x1 = set_packet_length i bytes x
      in if bytes > 0
         then (case drainRing e bytes d of (out, d1) \<Rightarrow>
                 (set_packet_length i (int (length out))
                    (x1\<lparr>xf_buffer := memcpy_at (packet_offset e x1 i) out (xf_buffer x1)\<rparr>), d1))
         else (x1, d))"

fun ship_packets :: "env \<Rightarrow> nat \<Rightarrow> int list \<Rightarrow> xfer \<Rightarrow> driver \<Rightarrow> xfer \<times> driver" where
  "ship_packets e i [] x d = (x, d)"
| "ship_packets e i (f # fs) x d =
     (case ship_packet e i f x d of (x1, d1) \<Rightarrow> ship_packets e (Suc i) fs x1 d1)"

section \<open>Implicit feedback\<close>

text \<open>The packet plan: the frame counts of the next captured packets, capped at the endpoint's
  capacity.\<close>

definition planned_frames :: "driver \<Rightarrow> nat \<Rightarrow> int list" where
  "planned_frames d count =
     map (\<lambda>p. min (sint (implicitFrames (fifo d) ! unat ((implicitRead (fifo d) + of_nat p) AND 255)))
                  (maxFramesPerPacket (pace d)))
       [0..<count]"

definition prepareImplicitTransfer :: "env \<Rightarrow> xfer \<Rightarrow> driver \<Rightarrow> bool \<times> xfer \<times> driver" where
  "prepareImplicitTransfer e x d =
     (let count = length (xf_pkts x); read = implicitRead (fifo d); write = implicitWrite (fifo d) in
      if count = 0 \<or> int count > kMaxPacketsPerTransfer then (False, x, d)
      else if write < read \<or> write - read < of_nat count
      then (False, x, record_event e DeferredNoMetadata
              (u32_of_size (if write < read then 0 else write - read)) (of_nat count)
              (u32_of_int (bufferedFrames d)) (u32_of_size (queuedOutFrames (led d)))
              (pcnt_update (deferredNoMetadata_update (\<lambda>x. x + 1)) d))
      else
        let frameCounts = planned_frames d count;
            transferFrames = sum_list frameCounts;
            buffered = bufferedFrames d
        in if buffered < transferFrames
           then (False, x, record_event e DeferredNoPcm
                   (u32_of_int (max 0 buffered)) (u32_of_int transferFrames)
                   (u32_of_int (max 0 buffered)) (u32_of_size (queuedOutFrames (led d)))
                   (pcnt_update (deferredNoPcm_update (\<lambda>x. x + 1)) d))
           else (True, ship_packets e 0 frameCounts x
                   (fifo_update (implicitRead_update (\<lambda>_. read + of_nat count)) d)))"

text \<open>The loop of \<open>submitPendingImplicitTransfers\<close> over the pending transfers, oldest first: how
  many went out and what stays pending.  A transfer whose submission fails stays.\<close>

fun submit_pending :: "env \<Rightarrow> (xfer \<times> u64) list \<Rightarrow> driver \<Rightarrow> nat \<times> (xfer \<times> u64) list \<times> driver" where
  "submit_pending e [] d = (0, [], d)"
| "submit_pending e ((x, since) # rest) d =
     (case prepareImplicitTransfer e x d of (ready, x1, d1) \<Rightarrow>
        if \<not> ready then (0, (x1, since) # rest, d1)
        else (case usb e (Submit x1) (led_update (inflight_update (\<lambda>n. n + 1)) d1) of (rc, d2) \<Rightarrow>
          if rc \<noteq> LIBUSB_SUCCESS
          then (0, (x1, since) # rest, markTransportFailed (retire_out (count_playback_error d2)))
          else
            let age = fst (monotonicNowNs e d2) - since;
                frames = transfer_frames (strideOf (fmt d2)) x1;
                d3 = led_update (queuedOutFrames_update (\<lambda>q. q + frames))
                       (pcnt_update (maxPendingAgeNs_update (keep_max age)) (snd (monotonicNowNs e d2)));
                d4 = (if frames > 0
                      then mode_update (implicitZeroRunwayActive_update (\<lambda>_. False)) d3 else d3)
            in case submit_pending e rest d4 of (n, left, d5) \<Rightarrow> (Suc n, left, d5)))"

definition submitPendingImplicitTransfers :: "env \<Rightarrow> driver \<Rightarrow> driver" where
  "submitPendingImplicitTransfers e d =
     (case submit_pending e (pendingImplicit d) d of (n, left, d1) \<Rightarrow>
        let d2 = d1\<lparr>pendingImplicit := left\<rparr> in
        if n > 0 then pcnt_update (pendingDepth_update (\<lambda>_. of_nat (length left))) d2 else d2)"

section \<open>Capture completions\<close>

text \<open>Appending a packet's frame count to the metadata FIFO; a full FIFO is emptied first.\<close>

definition push_metadata :: "bool \<Rightarrow> int \<Rightarrow> driver \<Rightarrow> driver" where
  "push_metadata packetOk frames d =
     (let d1 = (if packetOk then d else ccnt_update (implicitMetadataInvalid_update (\<lambda>x. x + 1)) d);
          packetFrames = (if packetOk then word_of_int frames else 0 :: u16);
          write = implicitWrite (fifo d);
          d2 = (if write - implicitRead (fifo d) \<ge> 256
                then ccnt_update (metadataFifoOverruns_update (\<lambda>x. x + 1))
                       (fifo_update (implicitRead_update (\<lambda>_. write)) d1)
                else d1)
      in fifo_update (implicitWrite_update (\<lambda>_. write + 1) \<circ>
           implicitFrames_update (\<lambda>fs. fs[unat (write AND 255) := ucast packetFrames])) d2)"

text \<open>What the loop over the packets carries: the producer cursor, the frames kept and the read
  position in the transfer buffer.\<close>

record capture_scan =
  sc_head :: u64
  sc_total :: int
  sc_cursor :: nat

definition packet_ok :: "xfer \<Rightarrow> int \<Rightarrow> iso_packet \<Rightarrow> bool" where
  "packet_ok x stride p \<longleftrightarrow>
     xf_status x = Completed \<and> pk_status p = Completed \<and> sint (pk_actual p) > 0 \<and> stride > 0"

text \<open>Copying one good packet: as many whole frames as are free.\<close>

definition keep_packet :: "bytes \<Rightarrow> int \<Rightarrow> u64 \<Rightarrow> capture_scan \<Rightarrow> driver \<Rightarrow> capture_scan \<times> driver" where
  "keep_packet payload n tail sc d =
     (let stride = size_of_int (strideOf (captureFormat d));
          capacity = of_nat (length (store (captureRing d)));
          free = capacity - (sc_head sc - tail);
          keep = min (size_of_int n) (free - free mod stride);
          d1 = (if keep < size_of_int n then ccnt_update (captureOverruns_update (\<lambda>x. x + 1)) d else d);
          off = sc_head sc AND rmask (captureRing d);
          first = min keep (capacity - off)
      in (sc\<lparr>sc_head := sc_head sc + keep, sc_total := sc_total sc + int_of_size (keep div stride)\<rparr>,
          captureRing_update (store_update
            (span_write (unat off) (unat first) (take (unat keep) payload))) d1))"

definition capture_packet :: "xfer \<Rightarrow> u64 \<Rightarrow> iso_packet \<Rightarrow> capture_scan \<times> driver \<Rightarrow> capture_scan \<times> driver" where
  "capture_packet x tail p st =
     (case st of (sc, d) \<Rightarrow>
        let stride = strideOf (captureFormat d);
            n = sint (pk_actual p);
            good = packet_ok x stride p;
            d1 = (if good then d else ccnt_update (capturePacketDrops_update (\<lambda>x. x + 1)) d);
            implicit = implicitFeedback (captureFormat d) \<and> feedbackEndpointAddress (fmt d) = 0;
            d2 = (if implicit then push_metadata good (cdiv n stride) d1 else d1);
            (sc3, d3) = (if good then keep_packet (drop (sc_cursor sc) (xf_buffer x)) n tail sc d2
                         else (sc, d2))
        in (sc3\<lparr>sc_cursor := sc_cursor sc + unat (pk_length p)\<rparr>, d3))"

definition capture_scan_all :: "xfer \<Rightarrow> driver \<Rightarrow> capture_scan \<times> driver" where
  "capture_scan_all x d =
     fold (capture_packet x (rtail (captureRing d))) (xf_pkts x)
       (\<lparr>sc_head = rhead (captureRing d), sc_total = 0, sc_cursor = 0\<rparr>, d)"

text \<open>Publishing the new cursor and counters.\<close>

definition capture_publish :: "env \<Rightarrow> capture_scan \<Rightarrow> driver \<Rightarrow> driver" where
  "capture_publish e sc d =
     (let d1 = captureRing_update (rhead_update (\<lambda>_. sc_head sc)) d;
          d2 = (if sc_total sc > 0
                then ccnt_update (captureSequence_update (\<lambda>s. s + size_of_int (sc_total sc))) d1
                else d1)
      in record_event e CaptureComplete (u32_of_int (sc_total sc)) 0 (u32_of_int (bufferedFrames d2))
           (u32_of_size (queuedOutFrames (led d2))) d2)"

definition retire_capture :: "driver \<Rightarrow> driver" where
  "retire_capture d = led_update (captureInflight_update (\<lambda>x. x - 1)) d"

definition count_capture_error :: "driver \<Rightarrow> driver" where
  "count_capture_error d = ccnt_update (captureTransferErrors_update (\<lambda>x. x + 1)) d"

definition onCapture :: "env \<Rightarrow> xfer \<Rightarrow> driver \<Rightarrow> driver" where
  "onCapture e x d =
     (if \<not> captureActive (mode d) then retire_capture d
      else if xf_status x = Cancelled \<or> stopRequested (mode d) then retire_capture d
      else if xf_status x = NoDeviceStatus then markTransportFailed (retire_capture (count_capture_error d))
      else (case capture_scan_all x d of (sc, d1) \<Rightarrow>
        let d2 = submitPendingImplicitTransfers e (capture_publish e sc d1);
            d3 = d2\<lparr>captureWake := wake_signalIfWaiting (captureWake d2)\<rparr>
        in if transportFailed (mode d3) then retire_capture d3
           else (case usb e (Submit x) d3 of (rc, d4) \<Rightarrow>
             if rc \<noteq> LIBUSB_SUCCESS
             then markTransportFailed (count_capture_error (retire_capture d4))
             else d4)))"

section \<open>Feedback completions\<close>

text \<open>The Q16 rate of a feedback packet: 16.16 in four bytes, 10.14 in three, else zero.\<close>

definition feedback_q16 :: "int \<Rightarrow> bytes \<Rightarrow> u32" where
  "feedback_q16 actual p =
     (if actual \<ge> 4 then le32 (p ! 0) (p ! 1) (p ! 2) (p ! 3)
      else if actual \<ge> 3 then push_bit 2 (le24 (p ! 0) (p ! 1) (p ! 2))
      else 0)"

definition apply_feedback :: "xfer \<Rightarrow> driver \<Rightarrow> driver" where
  "apply_feedback x d =
     (if xf_status x \<noteq> Completed \<or> xf_pkts x = [] \<or> pk_status (xf_pkts x ! 0) \<noteq> Completed
      then count_playback_error d
      else
        let v_q16 = feedback_q16 (sint (pk_actual (xf_pkts x ! 0))) (xf_buffer x);
            packetRateQ16 = (ucast v_q16 :: u64) * size_of_int (packetIntervalUframes (pace d))
        in if packetRateQ16 > 0 \<and> packetRateQ16 \<le> push_bit 16 (size_of_int (maxFramesPerPacket (pace d)))
           then pace_update (framesPerUframe_q16_update (\<lambda>_. u32_of_size packetRateQ16)) d
           else d)"

definition onFeedback :: "env \<Rightarrow> xfer \<Rightarrow> driver \<Rightarrow> driver" where
  "onFeedback e x d =
     (if xf_status x = Cancelled \<or> stopRequested (mode d) then retire_out d
      else if xf_status x = NoDeviceStatus then markTransportFailed (retire_out (count_playback_error d))
      else (case usb e (Submit x) (apply_feedback x d) of (rc, d1) \<Rightarrow>
        if rc \<noteq> LIBUSB_SUCCESS
        then markTransportFailed (retire_out (count_playback_error d1))
        else d1))"

section \<open>Playback completions\<close>

text \<open>Transfer and packet errors of a completion.\<close>

definition iso_count_errors :: "xfer \<Rightarrow> driver \<Rightarrow> driver" where
  "iso_count_errors x d =
     (if xf_status x \<noteq> Completed then count_playback_error d
      else fold (\<lambda>p d. if pk_status p \<noteq> Completed then count_playback_error d else d) (xf_pkts x) d)"

text \<open>The armed service stall: a busy-wait on the clock.\<close>

fun spin_until :: "env \<Rightarrow> u64 \<Rightarrow> nat \<Rightarrow> driver \<Rightarrow> driver" where
  "spin_until e until 0 d = d"
| "spin_until e until (Suc fuel) d =
     (case monotonicNowNs e d of (now, d1) \<Rightarrow> if now < until then spin_until e until fuel d1 else d1)"

definition iso_stall :: "env \<Rightarrow> driver \<Rightarrow> driver" where
  "iso_stall e d =
     (let stallUs = serviceStallUs (service d);
          d1 = service_update (serviceStallUs_update (\<lambda>_. 0)) d
      in if stallUs > 0
         then (case monotonicNowNs e d1 of (now, d2) \<Rightarrow>
                 service_update (serviceStallsFired_update (\<lambda>x. x + 1))
                   (spin_until e (now + size_of_int stallUs * 1000) (spin_fuel e) d2))
         else d1)"

text \<open>The completion gap: worst gap and the pipeline at that moment, gaps beyond twice the nominal
  period, drains missed.\<close>

definition iso_gap :: "u64 \<Rightarrow> driver \<Rightarrow> driver" where
  "iso_gap now d =
     (if lastCompletionNs (gaps d) \<noteq> 0 \<and> now > lastCompletionNs (gaps d)
      then
        let gap = now - lastCompletionNs (gaps d);
            nominal = nominalTransferNs (gaps d);
            d1 = (if gap > maxCompletionGapNs (gaps d)
                  then gaps_update (maxCompletionGapNs_update (\<lambda>_. gap) \<circ>
                         worstGapInflight_update (\<lambda>_. inflight (led d)) \<circ>
                         worstGapPending_update (\<lambda>_. int (length (pendingImplicit d))) \<circ>
                         worstGapRing_update (\<lambda>_. bufferedFrames d)) d
                  else d);
            d2 = (if nominal > 0 \<and> gap > 2 * size_of_int nominal
                  then gaps_update (serviceGapCount_update (\<lambda>x. x + 1)) d1 else d1)
        in if nominal > 0
           then gaps_update (maxMissingDrains_update (keep_max (gap div size_of_int nominal))) d2
           else d2
      else d)"

text \<open>Credit and drain sizes of the completed frames.\<close>

definition iso_credit :: "u64 \<Rightarrow> driver \<Rightarrow> driver" where
  "iso_credit completedFrames d =
     (if completedFrames > 0
      then led_update (playbackCredit_update (\<lambda>c. c + sint completedFrames))
             (fill_update (drainFramesMin_update (keep_min completedFrames) \<circ>
                drainFramesMax_update (keep_max completedFrames)) d)
      else d)"

text \<open>The runway low-water mark and the occupancy histogram.\<close>

definition iso_occupancy :: "driver \<Rightarrow> driver" where
  "iso_occupancy d =
     (let occupancy = size_of_int (max 0 (bufferedFrames d));
          bucket = min 511 (nat (int_of_size (occupancy div 8)))
      in fill_update (queuedOutLowWater_update (keep_min (queuedOutFrames (led d))) \<circ>
           ringOccupancy_update (\<lambda>h. h[bucket := h ! bucket + 1]) \<circ>
           ringOccupancySamples_update (\<lambda>x. x + 1) \<circ>
           ringLowWater_update (keep_min occupancy)) d)"

definition iso_envelope :: "env \<Rightarrow> u64 \<Rightarrow> driver \<Rightarrow> driver" where
  "iso_envelope e completedFrames d =
     (if playbackStarted (mode d)
      then (case monotonicNowNs e d of (now, d1) \<Rightarrow>
              iso_occupancy (iso_credit completedFrames
                (gaps_update (lastCompletionNs_update (\<lambda>_. now)) (iso_gap now d1))))
      else d)"

text \<open>Deferring a transfer that has no packet plan or no audio yet.\<close>

definition iso_defer :: "env \<Rightarrow> xfer \<Rightarrow> driver \<Rightarrow> driver" where
  "iso_defer e x d =
     (if length (pendingImplicit d) < kMaxTransferCount
      then
        let d1 = (if queuedOutFrames (led d) = 0
                  then mode_update (implicitZeroRunwayActive_update (\<lambda>_. True))
                    (if implicitZeroRunwayActive (mode d) then d
                     else pcnt_update (zeroRunwayEvents_update (\<lambda>x. x + 1) \<circ>
                            playbackUnderruns_update (\<lambda>x. x + 1)) d)
                  else d);
            (now, d2) = monotonicNowNs e (retire_out d1);
            d3 = d2\<lparr>pendingImplicit := pendingImplicit d2 @ [(x, now)]\<rparr>;
            count = length (pendingImplicit d3);
            d4 = record_event e TransferDeferred (of_nat count) 0 (u32_of_int (bufferedFrames d3))
                   (u32_of_size (queuedOutFrames (led d3)))
                   (pcnt_update (deferredTransfers_update (\<lambda>x. x + 1)) d3)
        in pcnt_update (pendingDepth_update (\<lambda>_. of_nat count) \<circ>
             pendingHighWater_update (keep_max (of_nat count))) d4
      else markTransportFailed (retire_out (count_playback_error d)))"

text \<open>The frame count of the next packet without implicit feedback: the rational scheduler, or the
  Q16 accumulator fed by the feedback endpoint; never more than the endpoint carries.\<close>

definition next_packet_frames :: "u32 \<Rightarrow> driver \<Rightarrow> int \<times> driver" where
  "next_packet_frames rate d =
     (let (frames, d1) =
        (if feedbackEndpointAddress (fmt d) = 0
         then (case scheduler_next (nominalScheduler (pace d)) of (f, s) \<Rightarrow>
                 (sint f, pace_update (nominalScheduler_update (\<lambda>_. s)) d))
         else let acc = fracAccumulator_q16 (pace d) + rate
              in (sint (drop_bit 16 acc),
                  pace_update (fracAccumulator_q16_update (\<lambda>_. acc AND 0xFFFF)) d))
      in (min (if frames \<le> 0 then sint (drop_bit 16 rate) else frames) (maxFramesPerPacket (pace d)), d1))"

fun ship_scheduled :: "env \<Rightarrow> u32 \<Rightarrow> nat \<Rightarrow> nat \<Rightarrow> xfer \<Rightarrow> driver \<Rightarrow> xfer \<times> driver" where
  "ship_scheduled e rate i 0 x d = (x, d)"
| "ship_scheduled e rate i (Suc left) x d =
     (case next_packet_frames rate d of (frames, d1) \<Rightarrow>
        case ship_packet e i frames x d1 of (x1, d2) \<Rightarrow> ship_scheduled e rate (Suc i) left x1 d2)"

text \<open>Resubmission of the refilled transfer.\<close>

definition iso_resubmit :: "env \<Rightarrow> u64 \<Rightarrow> bool \<Rightarrow> xfer \<Rightarrow> driver \<Rightarrow> driver" where
  "iso_resubmit e completedFrames implicit x d =
     (let d1 = record_event e PlaybackComplete (u32_of_size completedFrames) 0
                 (u32_of_int (bufferedFrames d)) (u32_of_size (queuedOutFrames (led d))) d;
          d2 = d1\<lparr>playbackWake := wake_signalIfWaiting (playbackWake d1)\<rparr>
      in case usb e (Submit x) d2 of (rc, d3) \<Rightarrow>
        if rc \<noteq> LIBUSB_SUCCESS
        then markTransportFailed (retire_out (count_playback_error d3))
        else
          let frames = transfer_frames (strideOf (fmt d3)) x;
              d4 = led_update (queuedOutFrames_update (\<lambda>q. q + frames)) d3
          in if implicit \<and> frames > 0
             then mode_update (implicitZeroRunwayActive_update (\<lambda>_. False)) d4 else d4)"

definition implicit_mode :: "driver \<Rightarrow> bool" where
  "implicit_mode d \<longleftrightarrow> captureActive (mode d) \<and> implicitFeedback (captureFormat d) \<and>
     feedbackEndpointAddress (fmt d) = 0"

text \<open>Refill and resubmit, or defer.\<close>

definition iso_refill :: "env \<Rightarrow> u64 \<Rightarrow> xfer \<Rightarrow> driver \<Rightarrow> driver" where
  "iso_refill e completedFrames x d =
     (if implicit_mode d
      then if pendingImplicit d \<noteq> [] then iso_defer e x d
           else (case prepareImplicitTransfer e x d of (ready, x1, d1) \<Rightarrow>
                   if ready then iso_resubmit e completedFrames True x1 d1 else iso_defer e x1 d1)
      else (case ship_scheduled e (framesPerUframe_q16 (pace d)) 0 (length (xf_pkts x)) x d of (x1, d1) \<Rightarrow>
              iso_resubmit e completedFrames False x1 d1))"

definition onIso :: "env \<Rightarrow> xfer \<Rightarrow> driver \<Rightarrow> driver" where
  "onIso e x d =
     (let completedFrames = transfer_frames (strideOf (fmt d)) x;
          d1 = led_update (queuedOutFrames_update (\<lambda>q. subtractQueued q completedFrames)) d
      in if xf_status x = Cancelled \<or> stopRequested (mode d1) then retire_out d1
         else if xf_status x = NoDeviceStatus
         then markTransportFailed (retire_out (count_playback_error d1))
         else iso_refill e completedFrames x
                (iso_envelope e completedFrames (iso_stall e (iso_count_errors x d1))))"

text \<open>The callback registered with libusb; the arguments are the CPU time read before the handler
  (0 when unavailable) and the wall and CPU time it took.\<close>

definition onIsoTrampoline :: "env \<Rightarrow> u64 \<Rightarrow> u64 \<Rightarrow> u64 \<Rightarrow> xfer \<Rightarrow> driver \<Rightarrow> driver" where
  "onIsoTrampoline e cpuBegan wallNs cpuNs x d =
     (let d1 = onIso e x (service_update (callbacksThisPoll_update (\<lambda>n. n + 1)) d);
          offCpuNs = (if wallNs > cpuNs then wallNs - cpuNs else 0)
      in if cpuBegan \<noteq> 0 then service_update (worstServiceOffCpuNs_update (keep_max offCpuNs)) d1 else d1)"

end
