(* ===== verification/Transfers.thy ===== *)
theory Transfers
  imports Completions
begin

text \<open>
  What the completion handlers do to the audio: the contents of a refilled OUT transfer, the packet
  plan of implicit feedback, and the first-in first-out handling of deferred transfers.

  Two facts about code outside the repository enter as named hypotheses: \<open>packet_law\<close>, the
  documented layout of \<open>libusb_get_iso_packet_buffer\<close> (a packet starts after the lengths of the
  packets before it), and the sizes of the transfer buffers (\<open>xfer_ok\<close>), which
  \<open>startIsoPump\<close> allocates.
\<close>

section \<open>Frames of the drain\<close>

text \<open>Everything a drain or an event record leaves alone.\<close>

definition drain_frame :: "driver \<Rightarrow> driver \<Rightarrow> bool" where
  "drain_frame d d' \<longleftrightarrow>
     fmt d' = fmt d \<and> captureFormat d' = captureFormat d \<and> buf d' = buf d \<and>
     captureRing d' = captureRing d \<and> fifo d' = fifo d \<and> pendingImplicit d' = pendingImplicit d \<and>
     ccnt d' = ccnt d \<and> ses d' = ses d \<and> claim d' = claim d \<and>
     captureWake d' = captureWake d \<and> playbackWake d' = playbackWake d \<and> bus d' = bus d \<and>
     queuedOutFrames (led d') = queuedOutFrames (led d) \<and> inflight (led d') = inflight (led d) \<and>
     captureInflight (led d') = captureInflight (led d) \<and>
     writtenFrames (led d') = writtenFrames (led d) \<and> playbackCredit (led d') = playbackCredit (led d) \<and>
     maxFramesPerPacket (pace d') = maxFramesPerPacket (pace d) \<and>
     streaming (mode d') = streaming (mode d) \<and> stopRequested (mode d') = stopRequested (mode d) \<and>
     captureActive (mode d') = captureActive (mode d) \<and>
     playbackStarted (mode d') = playbackStarted (mode d) \<and>
     transportFailed (mode d') = transportFailed (mode d)"

lemma drain_frame_refl [simp]: "drain_frame d d"
  by (simp add: drain_frame_def)

lemma drain_frame_trans: "drain_frame a b \<Longrightarrow> drain_frame b c \<Longrightarrow> drain_frame a c"
  by (simp add: drain_frame_def)

lemma drainRing_drain_frame: "drainRing e b d = (out, d') \<Longrightarrow> drain_frame d d'"
  using drainRing_frame [of e b d] by (simp add: drain_frame_def)

lemma record_event_drain_frame: "drain_frame d (record_event e ev a b rf qf d)"
  by (simp add: drain_frame_def)

lemma frame_bytes:
  assumes "drain_frame d d'"
  shows "frameBytes d' = frameBytes d" "stride_ok d' = stride_ok d" "strideOf (fmt d') = strideOf (fmt d)"
  using assms by (simp_all add: drain_frame_def frameBytes_def stride_ok_def)

section \<open>Transfers\<close>

text \<open>Where packet \<open>i\<close> starts, and the bytes of a transfer that go over the wire.\<close>

definition packet_start :: "xfer \<Rightarrow> nat \<Rightarrow> nat" where
  "packet_start x i = (\<Sum>p\<leftarrow>take i (xf_pkts x). unat (pk_length p))"

definition payload :: "xfer \<Rightarrow> bytes" where
  "payload x = take (packet_start x (length (xf_pkts x))) (xf_buffer x)"

definition packet_law :: "env \<Rightarrow> bool" where
  "packet_law e \<longleftrightarrow> (\<forall>x i. i < length (xf_pkts x) \<longrightarrow> packet_offset e x i = packet_start x i)"

text \<open>The endpoint's packet capacity fits the arithmetic of the code, and an OUT transfer's buffer
  holds its packets at full capacity.\<close>

definition geometry_ok :: "driver \<Rightarrow> bool" where
  "geometry_ok d \<longleftrightarrow> stride_ok d \<and> 0 \<le> maxFramesPerPacket (pace d) \<and>
     8 * maxFramesPerPacket (pace d) * strideOf (fmt d) \<le> INT_MAX"

definition xfer_ok :: "driver \<Rightarrow> xfer \<Rightarrow> bool" where
  "xfer_ok d x \<longleftrightarrow> xf_kind x = OutEndpoint \<and> 0 < length (xf_pkts x) \<and> length (xf_pkts x) \<le> 8 \<and>
     length (xf_pkts x) * (nat (maxFramesPerPacket (pace d)) * frameBytes d) \<le> length (xf_buffer x)"

lemma packet_start_set:
  "packet_start (set_packet_length i n x) i = packet_start x i"
  "length (xf_pkts (set_packet_length i n x)) = length (xf_pkts x)"
  "xf_buffer (set_packet_length i n x) = xf_buffer x"
  "xf_kind (set_packet_length i n x) = xf_kind x" "xf_id (set_packet_length i n x) = xf_id x"
  by (simp_all add: packet_start_def set_packet_length_def)

lemma packet_start_0: "packet_start x 0 = 0"
  by (simp add: packet_start_def)

lemma packet_start_Suc:
  "i < length (xf_pkts x) \<Longrightarrow> packet_start x (Suc i) = packet_start x i + unat (pk_length (xf_pkts x ! i))"
  by (simp add: packet_start_def take_Suc_conv_app_nth)

lemma u32_small: "0 \<le> n \<Longrightarrow> n \<le> INT_MAX \<Longrightarrow> unat (u32_of_int n) = nat n"
  by (simp add: u32_of_int_def unat_eq_nat_uint uint_word_of_int)

lemma set_packet_length_nth:
  "i < length (xf_pkts x) \<Longrightarrow> pk_length (xf_pkts (set_packet_length i n x) ! i) = u32_of_int n"
  "j \<noteq> i \<Longrightarrow> xf_pkts (set_packet_length i n x) ! j = xf_pkts x ! j"
  by (simp_all add: set_packet_length_def)

text \<open>One packet: the drained bytes land right behind the packets before it.\<close>

lemma ship_packet_step:
  assumes law: "packet_law e" and ok: "pb_inv d" and i: "i < length (xf_pkts x)"
    and f: "0 \<le> f" "f * strideOf (fmt d) \<le> INT_MAX"
    and room: "packet_start x i + nat f * frameBytes d \<le> length (xf_buffer x)"
    and sh: "ship_packet e i f x d = (x1, d1)"
  defines "n \<equiv> min (nat f) (queued_frames d)"
  shows "\<exists>out. out @ ring_contents (ring d1) = ring_contents (ring d) \<and> length out = n * frameBytes d \<and>
      take (packet_start x1 (Suc i)) (xf_buffer x1) = take (packet_start x i) (xf_buffer x) @ out \<and>
      packet_start x1 (Suc i) = packet_start x i + length out \<and>
      unat (pk_length (xf_pkts x1 ! i)) = length out"
    and "pb_inv d1" "drain_frame d d1" "queued_frames d1 = queued_frames d - n"
    and "length (xf_pkts x1) = length (xf_pkts x)" "length (xf_buffer x1) = length (xf_buffer x)"
    and "xf_kind x1 = xf_kind x" "xf_id x1 = xf_id x"
    and "\<forall>j. j \<noteq> i \<longrightarrow> xf_pkts x1 ! j = xf_pkts x ! j"
proof -
  have s: "stride_ok d" and pok: "playback_ok d" using ok by (auto simp: pb_inv_def playback_ok_def)
  have pos: "0 < strideOf (fmt d)" using s by (simp add: stride_ok_def)
  let ?x0 = "set_packet_length i (f * strideOf (fmt d)) x"
  have G: "(\<exists>out. out @ ring_contents (ring d1) = ring_contents (ring d) \<and> length out = n * frameBytes d \<and>
      take (packet_start x1 (Suc i)) (xf_buffer x1) = take (packet_start x i) (xf_buffer x) @ out \<and>
      packet_start x1 (Suc i) = packet_start x i + length out \<and>
      unat (pk_length (xf_pkts x1 ! i)) = length out) \<and>
      pb_inv d1 \<and> drain_frame d d1 \<and> queued_frames d1 = queued_frames d - n \<and>
      length (xf_pkts x1) = length (xf_pkts x) \<and> length (xf_buffer x1) = length (xf_buffer x) \<and>
      xf_kind x1 = xf_kind x \<and> xf_id x1 = xf_id x \<and> (\<forall>j. j \<noteq> i \<longrightarrow> xf_pkts x1 ! j = xf_pkts x ! j)"
  proof (cases "f = 0")
    case True
    then have e: "x1 = ?x0" "d1 = d" using sh by (auto simp: ship_packet_def Let_def)
    have "pk_length (xf_pkts ?x0 ! i) = 0" using i True by (simp add: set_packet_length_nth u32_of_int_def)
    then show ?thesis
      using i ok True
      by (auto simp: e n_def packet_start_set packet_start_Suc set_packet_length_nth)
  next
    case False
    then have fp: "0 < f * strideOf (fmt d)" using f pos by simp
    have k: "int (nat f) * strideOf (fmt d) \<le> INT_MAX" using f by simp
    obtain out where dr: "drainRing e (int (nat f) * strideOf (fmt d)) d = (out, d1)"
      and x1: "x1 = set_packet_length i (int (length out))
        (?x0\<lparr>xf_buffer := memcpy_at (packet_offset e ?x0 i) out (xf_buffer ?x0)\<rparr>)"
      using sh fp f by (auto simp: ship_packet_def Let_def split: prod.splits)
    note st = drainRing_step [OF pok k dr, folded n_def]
    have d1: "drain_frame d d1" using dr by (rule drainRing_drain_frame)
    have inv1: "pb_inv d1"
      using ok st d1 by (auto simp: pb_inv_def drain_frame_def n_def)
    have off: "packet_offset e ?x0 i = packet_start x i"
      using law i by (simp add: packet_law_def packet_start_set)
    have "length out \<le> nat f * frameBytes d" using st(1) by (simp add: n_def)
    moreover have "int (nat f * frameBytes d) \<le> INT_MAX" using k stride_int [OF s] by (simp only: of_nat_mult)
    ultimately have lo: "packet_start x i + length out \<le> length (xf_buffer x)" "int (length out) \<le> INT_MAX"
      using room by linarith+
    have len: "unat (pk_length (xf_pkts x1 ! i)) = length out"
      using i lo(2) by (simp add: x1 set_packet_length_def u32_small)
    have st0: "packet_start x1 i = packet_start x i"
      by (simp add: x1 packet_start_def set_packet_length_def)
    have l1: "length (xf_pkts x1) = length (xf_pkts x)" "xf_kind x1 = xf_kind x" "xf_id x1 = xf_id x"
      by (simp_all add: x1 set_packet_length_def)
    have st1: "packet_start x1 (Suc i) = packet_start x i + length out"
      using i by (simp add: packet_start_Suc l1 st0 len)
    have buf: "xf_buffer x1 = memcpy_at (packet_start x i) out (xf_buffer x)"
      by (simp add: x1 packet_start_set off)
    have pre: "take (packet_start x1 (Suc i)) (xf_buffer x1) = take (packet_start x i) (xf_buffer x) @ out"
      unfolding st1 buf using lo(1) by (cases out) (simp_all add: memcpy_at_def)
    have oth: "j \<noteq> i \<Longrightarrow> xf_pkts x1 ! j = xf_pkts x ! j" for j
      by (simp add: x1 set_packet_length_def)
    show ?thesis
      using st inv1 d1 len st1 pre l1 lo(1) oth by (auto simp: buf)
  qed
  then show "\<exists>out. out @ ring_contents (ring d1) = ring_contents (ring d) \<and> length out = n * frameBytes d \<and>
      take (packet_start x1 (Suc i)) (xf_buffer x1) = take (packet_start x i) (xf_buffer x) @ out \<and>
      packet_start x1 (Suc i) = packet_start x i + length out \<and>
      unat (pk_length (xf_pkts x1 ! i)) = length out"
    and "pb_inv d1" "drain_frame d d1" "queued_frames d1 = queued_frames d - n"
    and "length (xf_pkts x1) = length (xf_pkts x)" "length (xf_buffer x1) = length (xf_buffer x)"
    and "xf_kind x1 = xf_kind x" "xf_id x1 = xf_id x"
    and "\<forall>j. j \<noteq> i \<longrightarrow> xf_pkts x1 ! j = xf_pkts x ! j" by blast+
qed

text \<open>A run of packets.  \<open>shipped_frames\<close> is how many frames each packet carries: the plan, cut off
  where the queue ends.\<close>

fun shipped_frames :: "nat \<Rightarrow> int list \<Rightarrow> nat list" where
  "shipped_frames q [] = []"
| "shipped_frames q (f # fs) = min (nat f) q # shipped_frames (q - min (nat f) q) fs"

text \<open>\<open>carries d x i fs x' d'\<close>: from packet \<open>i\<close> on, the transfer was filled from the ring of \<open>d\<close>
  according to the plan \<open>fs\<close>, giving \<open>x'\<close> and \<open>d'\<close>.\<close>

definition carries :: "driver \<Rightarrow> xfer \<Rightarrow> nat \<Rightarrow> int list \<Rightarrow> xfer \<Rightarrow> driver \<Rightarrow> bool" where
  "carries d x i fs x' d' \<longleftrightarrow>
    (\<exists>out. out @ ring_contents (ring d') = ring_contents (ring d) \<and>
      length out = sum_list (shipped_frames (queued_frames d) fs) * frameBytes d \<and>
      take (packet_start x' (i + length fs)) (xf_buffer x') = take (packet_start x i) (xf_buffer x) @ out) \<and>
    pb_inv d' \<and> drain_frame d d' \<and>
    length (xf_pkts x') = length (xf_pkts x) \<and> length (xf_buffer x') = length (xf_buffer x) \<and>
    xf_kind x' = xf_kind x \<and> xf_id x' = xf_id x \<and>
    (\<forall>j<length fs. unat (pk_length (xf_pkts x' ! (i + j))) =
       shipped_frames (queued_frames d) fs ! j * frameBytes d) \<and>
    (\<forall>j<i. xf_pkts x' ! j = xf_pkts x ! j)"

text \<open>Room for \<open>k\<close> more packets of at most \<open>m\<close> frames.\<close>

definition has_room :: "driver \<Rightarrow> xfer \<Rightarrow> nat \<Rightarrow> nat \<Rightarrow> int \<Rightarrow> bool" where
  "has_room d x i k m \<longleftrightarrow> pb_inv d \<and> i + k \<le> length (xf_pkts x) \<and> 0 \<le> m \<and>
     m * strideOf (fmt d) \<le> INT_MAX \<and>
     packet_start x i + k * (nat m * frameBytes d) \<le> length (xf_buffer x)"

lemma ship_packet_room:
  assumes law: "packet_law e" and room: "has_room d x i (Suc k) m" and f: "0 \<le> f" "f \<le> m"
    and s1: "ship_packet e i f x d = (x1, d1)"
  shows "has_room d1 x1 (Suc i) k m"
    and "carries d1 x1 (Suc i) fs x' d' \<Longrightarrow> carries d x i (f # fs) x' d'"
proof -
  have ok: "pb_inv d" and il: "i < length (xf_pkts x)" and ms: "m * strideOf (fmt d) \<le> INT_MAX"
    and rm0: "packet_start x i + (nat m * frameBytes d + k * (nat m * frameBytes d)) \<le> length (xf_buffer x)"
    using room by (simp_all add: has_room_def)
  have st: "stride_ok d" using ok by (simp add: pb_inv_def playback_ok_def)
  have fb: "f * strideOf (fmt d) \<le> INT_MAX"
    using st by (intro order_trans [OF mult_right_mono [OF f(2)] ms]) (simp add: stride_ok_def)
  have nf: "nat f * frameBytes d \<le> nat m * frameBytes d" using f by (intro mult_le_mono1) simp
  have rm: "packet_start x i + nat f * frameBytes d \<le> length (xf_buffer x)" using rm0 nf by linarith
  note p = ship_packet_step [OF law ok il f(1) fb rm s1]
  obtain o1 where o1: "o1 @ ring_contents (ring d1) = ring_contents (ring d)"
    "length o1 = min (nat f) (queued_frames d) * frameBytes d"
    "take (packet_start x1 (Suc i)) (xf_buffer x1) = take (packet_start x i) (xf_buffer x) @ o1"
    "packet_start x1 (Suc i) = packet_start x i + length o1"
    "unat (pk_length (xf_pkts x1 ! i)) = length o1" using p(1) by blast
  have fb1: "frameBytes d1 = frameBytes d" "strideOf (fmt d1) = strideOf (fmt d)"
    using frame_bytes [OF p(3)] by auto
  have "length o1 \<le> nat m * frameBytes d" unfolding o1(2) by (rule le_trans [OF mult_le_mono1 nf]) simp
  then have "packet_start x1 (Suc i) + k * (nat m * frameBytes d1) \<le> length (xf_buffer x1)"
    using rm0 o1(4) unfolding p(6) fb1 by linarith
  then show "has_room d1 x1 (Suc i) k m"
    using room p(2,5) by (simp add: has_room_def fb1)
  assume ih: "carries d1 x1 (Suc i) fs x' d'"
  then obtain o2 where o2: "o2 @ ring_contents (ring d') = ring_contents (ring d1)"
    "length o2 = sum_list (shipped_frames (queued_frames d1) fs) * frameBytes d"
    "take (packet_start x' (Suc i + length fs)) (xf_buffer x') =
        take (packet_start x1 (Suc i)) (xf_buffer x1) @ o2" by (auto simp: carries_def fb1)
  have "(o1 @ o2) @ ring_contents (ring d') = ring_contents (ring d)"
    "length (o1 @ o2) = sum_list (shipped_frames (queued_frames d) (f # fs)) * frameBytes d"
    "take (packet_start x' (i + length (f # fs))) (xf_buffer x') =
        take (packet_start x i) (xf_buffer x) @ (o1 @ o2)"
    using o1 o2 p(4) by (simp_all add: algebra_simps)
  moreover have "unat (pk_length (xf_pkts x' ! (i + j))) =
      shipped_frames (queued_frames d) (f # fs) ! j * frameBytes d" if "j < length (f # fs)" for j
  proof (cases j)
    case 0
    then show ?thesis using ih o1(2,5) by (simp add: carries_def)
  next
    case (Suc n)
    then have "unat (pk_length (xf_pkts x' ! (Suc i + n))) =
        shipped_frames (queued_frames d1) fs ! n * frameBytes d1" using ih that by (simp add: carries_def)
    then show ?thesis using p(4) by (simp add: Suc fb1)
  qed
  moreover have "\<forall>j<i. xf_pkts x' ! j = xf_pkts x ! j" using ih p(9) by (simp add: carries_def)
  ultimately show "carries d x i (f # fs) x' d'"
    using ih p(5-8) drain_frame_trans [OF p(3)] unfolding carries_def
    by (intro conjI exI [of _ "o1 @ o2"]) simp_all
qed

lemma carries_Nil: "pb_inv d \<Longrightarrow> carries d x i [] x d"
  by (simp add: carries_def)

lemma ship_packets_carries:
  assumes law: "packet_law e"
  shows "ship_packets e i fs x d = (x', d') \<Longrightarrow> has_room d x i (length fs) m \<Longrightarrow>
    (\<forall>f\<in>set fs. 0 \<le> f \<and> f \<le> m) \<Longrightarrow> carries d x i fs x' d'"
proof (induction fs arbitrary: i x d)
  case Nil
  then show ?case by (simp add: carries_Nil has_room_def)
next
  case (Cons f fs)
  obtain x1 d1 where s1: "ship_packet e i f x d = (x1, d1)" by fastforce
  have rest: "ship_packets e (Suc i) fs x1 d1 = (x', d')" using Cons.prems(1) s1 by simp
  have "has_room d x i (Suc (length fs)) m" "0 \<le> f" "f \<le> m" using Cons.prems(2,3) by simp_all
  note r = ship_packet_room [OF law this s1]
  show ?case using r(2) [OF Cons.IH [OF rest r(1)]] Cons.prems(3) by simp
qed

text \<open>The scheduled path: the plan is what the scheduler or the feedback accumulator yields.\<close>

definition cap_frames :: "u32 \<Rightarrow> int \<Rightarrow> int \<Rightarrow> int" where
  "cap_frames rate m f = min (if f \<le> 0 then sint (drop_bit 16 rate) else f) m"

fun packet_plan :: "bool \<Rightarrow> u32 \<Rightarrow> int \<Rightarrow> nat \<Rightarrow> RationalPacketScheduler \<Rightarrow> u32 \<Rightarrow> int list" where
  "packet_plan feedback rate m 0 s acc = []"
| "packet_plan feedback rate m (Suc k) s acc =
     (if feedback
      then cap_frames rate m (sint (drop_bit 16 (acc + rate))) #
             packet_plan feedback rate m k s ((acc + rate) AND 0xFFFF)
      else cap_frames rate m (sint (fst (scheduler_next s))) #
             packet_plan feedback rate m k (snd (scheduler_next s)) acc)"

definition driver_plan :: "driver \<Rightarrow> u32 \<Rightarrow> nat \<Rightarrow> int list" where
  "driver_plan d rate k = packet_plan (feedbackEndpointAddress (fmt d) \<noteq> 0) rate
     (maxFramesPerPacket (pace d)) k (nominalScheduler (pace d)) (fracAccumulator_q16 (pace d))"

lemma sint_small32: "unat (w::u32) < 65536 \<Longrightarrow> sint w = int (unat w)"
proof -
  assume a: "unat w < 65536"
  have u: "uint w = int (unat w)" by (rule uint_nat)
  have "sint (word_of_int (uint w) :: u32) = uint w" using a u by (intro sint_word32_id) linarith+
  then show ?thesis by (simp only: word_of_int_uint u [symmetric])
qed

lemma sint_high_half: "0 \<le> sint (drop_bit 16 (w::u32))"
proof -
  have "unat (drop_bit 16 w) = unat w div 2 ^ 16" by (simp add: drop_bit_eq_div unat_div)
  moreover have "unat w < 2 ^ 32" using unsigned_less [where 'a = nat, of w] by simp
  ultimately have "unat (drop_bit 16 w) < 65536" by simp
  then show ?thesis using sint_small32 [of "drop_bit 16 w"] by linarith
qed

lemma next_packet_frames_step:
  assumes n: "next_packet_frames rate d = (f, d1)" and m: "0 \<le> maxFramesPerPacket (pace d)"
  shows "driver_plan d rate (Suc k) = f # driver_plan d1 rate k"
    "0 \<le> f" "f \<le> maxFramesPerPacket (pace d)" "drain_frame d d1" "ring d1 = ring d" "led d1 = led d"
  using n m sint_high_half [of rate]
  by (auto simp: next_packet_frames_def Let_def driver_plan_def cap_frames_def drain_frame_def
      split: if_splits prod.splits)

lemma shipped_frames_full: "sum_list (map nat fs) \<le> q \<Longrightarrow> shipped_frames q fs = map nat fs"
  by (induction fs arbitrary: q) (auto simp: min_def)

section \<open>The packet plan\<close>

definition fifo_depth :: "driver \<Rightarrow> nat" where
  "fifo_depth d = unat (implicitWrite (fifo d) - implicitRead (fifo d))"

definition fifo_ok :: "driver \<Rightarrow> bool" where
  "fifo_ok d \<longleftrightarrow> length (implicitFrames (fifo d)) = 256 \<and>
     (\<forall>w\<in>set (implicitFrames (fifo d)). unat w < 65536) \<and> fifo_depth d \<le> 256"

text \<open>The frame counts that are queued in the metadata FIFO, oldest first.\<close>

definition fifo_plan :: "driver \<Rightarrow> nat list" where
  "fifo_plan d = map (\<lambda>p. unat (implicitFrames (fifo d) ! unat ((implicitRead (fifo d) + of_nat p) AND 255)))
     [0..<fifo_depth d]"

definition transport_ok :: "driver \<Rightarrow> bool" where
  "transport_ok d \<longleftrightarrow> pb_inv d \<and> geometry_ok d \<and> fifo_ok d"

lemma mask255: "unat ((w::u64) AND 255) < 256"
  using unat_and_mask [of 8 w] by (simp add: mask_eq_exp_minus_1)

lemma plan_entry:
  "unat (w::u32) < 65536 \<Longrightarrow> nat (min (sint w) m) = min (unat w) (nat m)"
  using sint_small32 [of w] by linarith

lemma planned_frames_bounds:
  assumes "fifo_ok d" "0 \<le> maxFramesPerPacket (pace d)"
  shows "\<forall>f\<in>set (planned_frames d n). 0 \<le> f \<and> f \<le> maxFramesPerPacket (pace d)"
proof -
  have "unat (implicitFrames (fifo d) ! unat (w AND 255)) < 65536" for w :: u64
    using assms(1) mask255 [of w] by (simp add: fifo_ok_def)
  then show ?thesis using assms(2) by (auto simp: planned_frames_def sint_small32)
qed

lemma planned_frames_fifo:
  assumes "fifo_ok d" "0 \<le> maxFramesPerPacket (pace d)" "n \<le> fifo_depth d"
  shows "map nat (planned_frames d n) =
    map (\<lambda>k. min k (nat (maxFramesPerPacket (pace d)))) (take n (fifo_plan d))"
proof -
  have "unat (implicitFrames (fifo d) ! unat (w AND 255)) < 65536" for w :: u64
    using assms(1) mask255 [of w] by (simp add: fifo_ok_def)
  then show ?thesis
    using assms(3) by (auto simp: planned_frames_def fifo_plan_def take_map plan_entry)
qed

lemma prepareImplicitTransfer_cases:
  assumes "prepareImplicitTransfer e x d = (ready, x1, d1)"
  obtains (deferred) "\<not> ready" "x1 = x" "drain_frame d d1" "ring d1 = ring d" "led d1 = led d"
      "mode d1 = mode d" "pace d1 = pace d"
  | (shipped) "ready" "0 < length (xf_pkts x)" "length (xf_pkts x) \<le> 8"
      "\<not> implicitWrite (fifo d) < implicitRead (fifo d)"
      "\<not> implicitWrite (fifo d) - implicitRead (fifo d) < of_nat (length (xf_pkts x))"
      "sum_list (planned_frames d (length (xf_pkts x))) \<le> bufferedFrames d"
      "ship_packets e 0 (planned_frames d (length (xf_pkts x))) x
         (fifo_update (implicitRead_update (\<lambda>_. implicitRead (fifo d) + of_nat (length (xf_pkts x)))) d) = (x1, d1)"
proof (cases ready)
  case True
  then show ?thesis
    using assms shipped by (auto simp: prepareImplicitTransfer_def Let_def split: if_splits)
next
  case False
  then show ?thesis
    using assms by (intro deferred)
      (auto simp: prepareImplicitTransfer_def Let_def drain_frame_def split: if_splits)
qed

text \<open>Frames a transfer carries, as the driver counts them.\<close>

definition frames_of :: "driver \<Rightarrow> xfer \<Rightarrow> nat" where
  "frames_of d x = (\<Sum>p\<leftarrow>xf_pkts x. unat (pk_length p) div frameBytes d)"

lemma unat_sum_list_small:
  "(\<forall>x\<in>set xs. unat (f x) < 2 ^ 32) \<Longrightarrow> length xs \<le> 8 \<Longrightarrow>
   unat (\<Sum>x\<leftarrow>xs. f x :: u64) = (\<Sum>x\<leftarrow>xs. unat (f x)) \<and> (\<Sum>x\<leftarrow>xs. unat (f x)) \<le> length xs * 2 ^ 32"
proof (induction xs)
  case Nil
  then show ?case by simp
next
  case (Cons a xs)
  then have ih: "unat (\<Sum>x\<leftarrow>xs. f x) = (\<Sum>x\<leftarrow>xs. unat (f x))" "(\<Sum>x\<leftarrow>xs. unat (f x)) \<le> length xs * 2 ^ 32"
    and a: "unat (f a) < 2 ^ 32" by auto
  have "unat (f a) + (\<Sum>x\<leftarrow>xs. unat (f x)) < 2 ^ 64"
    using ih(2) a Cons.prems(2) by simp
  then show ?case using ih a by (simp add: unat_word_ariths)
qed

lemma transfer_frames_nat:
  assumes "stride_ok d" "length (xf_pkts x) \<le> 8"
  shows "unat (transfer_frames (strideOf (fmt d)) x) = frames_of d x"
proof -
  let ?f = "\<lambda>p. ucast (pk_length p div u32_of_int (strideOf (fmt d))) :: u64"
  have s: "unat (u32_of_int (strideOf (fmt d))) = frameBytes d"
    using assms(1) by (simp add: u32_small stride_ok_def frameBytes_def)
  have u: "unat (?f p) = unat (pk_length p) div frameBytes d" for p :: iso_packet
  proof -
    have "unat (pk_length p div u32_of_int (strideOf (fmt d))) < 2 ^ 64"
      using unsigned_less [where 'a = nat, of "pk_length p div u32_of_int (strideOf (fmt d))"] by simp
    then have "unat (?f p) = unat (pk_length p div u32_of_int (strideOf (fmt d)))"
      by (simp add: unsigned_ucast_eq take_bit_nat_eq_self)
    then show ?thesis by (simp add: unat_div s)
  qed
  have "unat (?f p) < 2 ^ 32" for p :: iso_packet
  proof -
    have "unat (pk_length p) < 2 ^ 32" using unsigned_less [where 'a = nat, of "pk_length p"] by simp
    then show ?thesis unfolding u by (rule le_less_trans [OF div_le_dividend])
  qed
  then have "unat (\<Sum>p\<leftarrow>xf_pkts x. ?f p) = (\<Sum>p\<leftarrow>xf_pkts x. unat (?f p))"
    using unat_sum_list_small [of "xf_pkts x" ?f] assms(2) by simp
  then show ?thesis using assms(1) by (simp add: transfer_frames_def frames_of_def u stride_ok_def)
qed

lemma prepareImplicitTransfer_ready:
  assumes law: "packet_law e" and ok: "transport_ok d" and x: "xfer_ok d x"
    and p: "prepareImplicitTransfer e x d = (True, x1, d1)"
  defines "n \<equiv> length (xf_pkts x)"
  defines "plan \<equiv> map (\<lambda>k. min k (nat (maxFramesPerPacket (pace d)))) (take n (fifo_plan d))"
  shows "payload x1 @ ring_contents (ring d1) = ring_contents (ring d)"
    and "n \<le> fifo_depth d" "sum_list plan \<le> queued_frames d"
    and "map (\<lambda>p. unat (pk_length p)) (xf_pkts x1) = map (\<lambda>k. k * frameBytes d) plan"
    and "transport_ok d1" "xfer_ok d1 x1" "xf_id x1 = xf_id x"
    and "drain_frame (fifo_update (implicitRead_update (\<lambda>_. implicitRead (fifo d) + of_nat n)) d) d1"
    and "frames_of d x1 = sum_list plan" "length (payload x1) = sum_list plan * frameBytes d"
    and "fifo_depth d1 = fifo_depth d - n"
proof -
  let ?d = "fifo_update (implicitRead_update (\<lambda>_. implicitRead (fifo d) + of_nat n)) d"
  let ?fs = "planned_frames d n" and ?m = "maxFramesPerPacket (pace d)"
  have pb: "pb_inv d" and g: "geometry_ok d" and fi: "fifo_ok d" using ok by (simp_all add: transport_ok_def)
  from p have c: "0 < n" "n \<le> 8" "\<not> implicitWrite (fifo d) - implicitRead (fifo d) < of_nat n"
    "sum_list ?fs \<le> bufferedFrames d" "ship_packets e 0 ?fs x ?d = (x1, d1)"
    by (auto elim!: prepareImplicitTransfer_cases simp: n_def)
  have i: "ring_inv (ring d)" "stride_ok d" using pb by (simp_all add: pb_inv_def playback_ok_def)
  have m0: "0 \<le> ?m" using g by (simp add: geometry_ok_def)
  show dep: "n \<le> fifo_depth d"
    using c(2,3) by (simp add: word_less_nat_alt fifo_depth_def unat_of_nat)
  have pl: "map nat ?fs = plan" using planned_frames_fifo [OF fi m0 dep] by (simp add: plan_def)
  have nn: "\<forall>f\<in>set ?fs. 0 \<le> f \<and> f \<le> ?m" using fi m0 by (rule planned_frames_bounds)
  have "int (sum_list (map nat fs)) = sum_list fs" if "\<forall>f\<in>set fs. 0 \<le> f" for fs
    using that by (induction fs) auto
  then have "int (sum_list plan) = sum_list ?fs" using nn pl by fastforce
  then show sp: "sum_list plan \<le> queued_frames d" using c(4) by (simp add: bufferedFrames_eq i)
  have pbq: "pb_inv ?d" "queued_frames ?d = queued_frames d" "frameBytes ?d = frameBytes d"
    using pb by (simp_all add: pb_inv_def playback_ok_def stride_ok_def frameBytes_def queued_frames_def)
  have ms: "?m * strideOf (fmt ?d) \<le> INT_MAX"
  proof -
    have "0 \<le> ?m * strideOf (fmt d)" using m0 i(2) by (simp add: stride_ok_def)
    then show ?thesis using g by (simp add: geometry_ok_def)
  qed
  have len: "length ?fs = n" by (simp add: planned_frames_def)
  have room: "packet_start x 0 + length ?fs * (nat ?m * frameBytes ?d) \<le> length (xf_buffer x)"
    using x len pbq(3) by (simp add: xfer_ok_def packet_start_def n_def)
  have npk: "length (xf_pkts x) = n" by (simp add: n_def)
  have hr: "has_room ?d x 0 (length ?fs) ?m"
    using pbq(1) m0 ms room len npk by (simp add: has_room_def)
  note S = ship_packets_carries [OF law c(5) hr nn, unfolded carries_def]
  have sf: "shipped_frames (queued_frames ?d) ?fs = plan"
    using sp by (simp add: pbq pl shipped_frames_full)
  have T: "(\<exists>out. out @ ring_contents (ring d1) = ring_contents (ring d) \<and>
      length out = sum_list plan * frameBytes d \<and>
      take (packet_start x1 n) (xf_buffer x1) = out) \<and>
    pb_inv d1 \<and> drain_frame ?d d1 \<and> length (xf_pkts x1) = n \<and>
    length (xf_buffer x1) = length (xf_buffer x) \<and> xf_kind x1 = xf_kind x \<and> xf_id x1 = xf_id x \<and>
    (\<forall>j<n. unat (pk_length (xf_pkts x1 ! j)) = plan ! j * frameBytes d)"
    using S unfolding len sf pbq(3) npk packet_start_0 by auto
  then have pay: "payload x1 @ ring_contents (ring d1) = ring_contents (ring d)"
    "length (payload x1) = sum_list plan * frameBytes d" by (auto simp: payload_def)
  then show "payload x1 @ ring_contents (ring d1) = ring_contents (ring d)"
    "length (payload x1) = sum_list plan * frameBytes d" by simp_all
  have lp: "length plan = n" using pl len by (metis length_map)
  then show lens: "map (\<lambda>p. unat (pk_length p)) (xf_pkts x1) = map (\<lambda>k. k * frameBytes d) plan"
    using T by (intro nth_equalityI) auto
  show df: "drain_frame ?d d1" "xf_id x1 = xf_id x" using T by simp_all
  have f1: "frameBytes d1 = frameBytes d" "maxFramesPerPacket (pace d1) = ?m" "stride_ok d1 = stride_ok d"
    "fifo d1 = fifo ?d" "strideOf (fmt d1) = strideOf (fmt d)"
    using df frame_bytes [OF df(1)] pbq by (simp_all add: drain_frame_def stride_ok_def)
  have "map (\<lambda>p. unat (pk_length p) div frameBytes d) (xf_pkts x1) =
      map (\<lambda>n. n div frameBytes d) (map (\<lambda>p. unat (pk_length p)) (xf_pkts x1))" by simp
  then show "frames_of d x1 = sum_list plan"
    using stride_word(2) [OF i(2)] unfolding frames_of_def lens by (simp add: comp_def)
  show fd: "fifo_depth d1 = fifo_depth d - n"
    using cursor_advance_tail [of n "implicitWrite (fifo d)" "implicitRead (fifo d)"] dep
    by (simp add: fifo_depth_def f1)
  show "transport_ok d1"
    using T g fi fd by (auto simp: transport_ok_def geometry_ok_def fifo_ok_def f1)
  show "xfer_ok d1 x1" using T x by (simp add: xfer_ok_def f1 n_def)
qed

section \<open>The scheduled path\<close>

lemma drainRing_plan: "drainRing e b d = (out, d1) \<Longrightarrow> driver_plan d1 rate k = driver_plan d rate k"
proof -
  assume "drainRing e b d = (out, d1)"
  then have "d1 = snd (drainRing e b d)" by simp
  then show ?thesis by (simp add: driver_plan_def)
qed

lemma ship_packet_plan:
  "ship_packet e i f x d = (x1, d1) \<Longrightarrow> driver_plan d1 rate k = driver_plan d rate k"
  by (auto simp: ship_packet_def Let_def drainRing_plan split: if_splits prod.splits)

lemma carries_change:
  assumes "carries d1 x i fs x' d'" "drain_frame d d1" "ring d1 = ring d"
  shows "carries d x i fs x' d'"
  using assms(1,3) frame_bytes [OF assms(2)] drain_frame_trans [OF assms(2)]
  by (simp add: carries_def queued_frames_def)

lemma ship_scheduled_carries:
  assumes law: "packet_law e"
  shows "ship_scheduled e rate i k x d = (x', d') \<Longrightarrow> has_room d x i k (maxFramesPerPacket (pace d)) \<Longrightarrow>
    carries d x i (driver_plan d rate k) x' d'"
proof (induction k arbitrary: i x d)
  case 0
  then show ?case by (simp add: carries_Nil has_room_def driver_plan_def)
next
  case (Suc k)
  let ?m = "maxFramesPerPacket (pace d)"
  obtain f d1 where n: "next_packet_frames rate d = (f, d1)" by fastforce
  obtain x1 d2 where s1: "ship_packet e i f x d1 = (x1, d2)" by fastforce
  have rest: "ship_scheduled e rate (Suc i) k x1 d2 = (x', d')" using Suc.prems(1) n s1 by simp
  have "0 \<le> ?m" using Suc.prems(2) by (simp add: has_room_def)
  note nx = next_packet_frames_step [OF n this]
  have "pb_inv d1"
    using Suc.prems(2) nx(4-6)
    by (simp add: has_room_def pb_inv_def playback_ok_def stride_ok_def frameBytes_def queued_frames_def drain_frame_def)
  then have room: "has_room d1 x i (Suc k) ?m"
    using Suc.prems(2) frame_bytes [OF nx(4)] by (simp add: has_room_def)
  note r = ship_packet_room [OF law room nx(2,3) s1]
  have "drain_frame d1 d2" using s1 by (auto simp: ship_packet_def Let_def split: if_splits prod.splits
        intro: drainRing_drain_frame)
  then have "maxFramesPerPacket (pace d2) = ?m" using nx(4) by (simp add: drain_frame_def)
  then have "carries d2 x1 (Suc i) (driver_plan d1 rate k) x' d'"
    using Suc.IH [OF rest] r(1) ship_packet_plan [OF s1] by simp
  then have "carries d1 x i (f # driver_plan d1 rate k) x' d'" by (rule r(2))
  then show ?case using carries_change [OF _ nx(4,5)] nx(1) by simp
qed

lemma carries_transfer:
  assumes ok: "transport_ok d" and x: "xfer_ok d x" and c: "carries d x 0 fs x1 d1"
    and l: "length fs = length (xf_pkts x)"
  shows "payload x1 @ ring_contents (ring d1) = ring_contents (ring d)" "transport_ok d1" "xfer_ok d1 x1"
    "drain_frame d d1" "xf_id x1 = xf_id x"
    "map (\<lambda>p. unat (pk_length p)) (xf_pkts x1) =
       map (\<lambda>n. n * frameBytes d) (shipped_frames (queued_frames d) fs)"
proof -
  have df: "drain_frame d d1" using c by (simp add: carries_def)
  have f1: "frameBytes d1 = frameBytes d" "maxFramesPerPacket (pace d1) = maxFramesPerPacket (pace d)"
    "strideOf (fmt d1) = strideOf (fmt d)" "fifo d1 = fifo d" "stride_ok d1 = stride_ok d"
    using df frame_bytes [OF df] by (simp_all add: drain_frame_def)
  show "payload x1 @ ring_contents (ring d1) = ring_contents (ring d)"
    using c l by (auto simp: carries_def payload_def packet_start_0)
  show "transport_ok d1"
    using ok c by (simp add: transport_ok_def carries_def geometry_ok_def fifo_ok_def fifo_depth_def f1)
  show "xfer_ok d1 x1" using x c by (simp add: xfer_ok_def carries_def f1)
  show "drain_frame d d1" "xf_id x1 = xf_id x" using c by (simp_all add: carries_def)
  have "length (shipped_frames q fs) = length fs" for q by (induction fs arbitrary: q) simp_all
  then show "map (\<lambda>p. unat (pk_length p)) (xf_pkts x1) =
       map (\<lambda>n. n * frameBytes d) (shipped_frames (queued_frames d) fs)"
    using c l by (intro nth_equalityI) (simp_all add: carries_def)
qed

lemma xfer_room:
  assumes "transport_ok d" "xfer_ok d x"
  shows "has_room d x 0 (length (xf_pkts x)) (maxFramesPerPacket (pace d))"
proof -
  have g: "0 \<le> maxFramesPerPacket (pace d)" "0 < strideOf (fmt d)"
    "8 * maxFramesPerPacket (pace d) * strideOf (fmt d) \<le> INT_MAX"
    using assms(1) by (simp_all add: transport_ok_def geometry_ok_def stride_ok_def)
  then have "0 \<le> maxFramesPerPacket (pace d) * strideOf (fmt d)" by simp
  then have "maxFramesPerPacket (pace d) * strideOf (fmt d) \<le> INT_MAX" using g(3) by linarith
  then show ?thesis
    using assms g(1) by (simp add: has_room_def transport_ok_def xfer_ok_def packet_start_0)
qed

lemma ship_scheduled_transfer:
  assumes "packet_law e" "transport_ok d" "xfer_ok d x"
    and "ship_scheduled e rate 0 (length (xf_pkts x)) x d = (x1, d1)"
  shows "carries d x 0 (driver_plan d rate (length (xf_pkts x))) x1 d1"
  using ship_scheduled_carries [OF assms(1,4)] xfer_room [OF assms(2,3)] by simp

lemma length_driver_plan: "length (driver_plan d rate k) = k"
proof -
  have "length (packet_plan fb rate m k s acc) = k" for fb m s acc
    by (cases fb; induction k arbitrary: s acc) simp_all
  then show ?thesis by (simp add: driver_plan_def)
qed

end
