(* ===== verification/Packet_Plans.thy ===== *)
theory Packet_Plans
  imports Transfers
begin

text \<open>
  How many frames each packet of a refilled transfer carries: the plan taken from the capture
  stream (implicit feedback), the rational nominal schedule, and the Q16 accumulator fed by a
  feedback endpoint.
\<close>

section \<open>The feedback accumulator\<close>

lemma q16_step:
  assumes "unat (acc::u32) < 65536" "unat (rate::u32) \<le> m * 65536" "m < 65536"
  shows "sint (drop_bit 16 (acc + rate)) = int ((unat acc + unat rate) div 65536)"
    and "unat ((acc + rate) AND 0xFFFF) = (unat acc + unat rate) mod 65536"
    and "(unat acc + unat rate) div 65536 \<le> m"
proof -
  have "m * 65536 \<le> 65535 * 65536" using assms(3) by (intro mult_le_mono1) simp
  then have lt: "unat acc + unat rate < 2 ^ 32" using assms by simp
  then have u: "unat (acc + rate) = unat acc + unat rate" by (simp add: unat_word_ariths)
  have d: "unat (drop_bit 16 (acc + rate)) = (unat acc + unat rate) div 65536"
    by (simp add: drop_bit_eq_div unat_div u)
  have "(unat acc + unat rate) div 65536 < Suc m" using assms(1,2) by (simp add: div_less_iff_less_mult)
  then show le: "(unat acc + unat rate) div 65536 \<le> m" by simp
  show "sint (drop_bit 16 (acc + rate)) = int ((unat acc + unat rate) div 65536)"
    using sint_small32 [of "drop_bit 16 (acc + rate)"] d le assms(3) by simp
  have "unat ((acc + rate) AND mask 16) = unat (acc + rate) mod 2 ^ 16"
    by (simp only: take_bit_eq_mask [symmetric] unsigned_take_bit_eq) (simp add: take_bit_eq_mod)
  then show "unat ((acc + rate) AND 0xFFFF) = (unat acc + unat rate) mod 65536"
    by (simp add: u mask_eq_exp_minus_1)
qed

text \<open>Packet after packet, with the rate each of them is paced at: the frame counts \<open>next_packet_frames\<close> yields
  and the driver state they leave.\<close>

fun paced_packets :: "u32 list \<Rightarrow> driver \<Rightarrow> int list \<times> driver" where
  "paced_packets [] d = ([], d)"
| "paced_packets (rate # rates) d =
     (case next_packet_frames rate d of (f, d1) \<Rightarrow> case paced_packets rates d1 of (fs, d2) \<Rightarrow> (f # fs, d2))"

text \<open>A packet takes the integer part of the accumulated rate and carries the fraction, nothing else changes;
  the capacity of the endpoint does not cut it.\<close>

lemma feedback_packet:
  assumes fb: "feedbackEndpointAddress (fmt d) \<noteq> 0" and acc: "unat (fracAccumulator_q16 (pace d)) < 65536"
    and m: "0 \<le> maxFramesPerPacket (pace d)" "maxFramesPerPacket (pace d) < 65536"
    and r: "unat rate \<le> nat (maxFramesPerPacket (pace d)) * 65536" and n: "next_packet_frames rate d = (f, d1)"
  shows "f = int ((unat (fracAccumulator_q16 (pace d)) + unat rate) div 65536)"
    "unat (fracAccumulator_q16 (pace d1)) = (unat (fracAccumulator_q16 (pace d)) + unat rate) mod 65536"
    "fmt d1 = fmt d" "maxFramesPerPacket (pace d1) = maxFramesPerPacket (pace d)"
proof -
  let ?acc = "fracAccumulator_q16 (pace d)" and ?m = "nat (maxFramesPerPacket (pace d))"
  let ?f = "(unat ?acc + unat rate) div 65536"
  have m': "?m < 65536" using m by simp
  note q = q16_step [OF acc r m']
  have r0: "sint (drop_bit 16 rate) = int (unat rate div 65536)" using q16_step(1) [of 0 rate ?m] r m' by simp
  have f: "min (if int ?f \<le> 0 then sint (drop_bit 16 rate) else int ?f) (maxFramesPerPacket (pace d)) = int ?f"
  proof (cases "?f = 0")
    case True
    then have "unat rate < 65536" by (simp add: div_eq_0_iff)
    then show ?thesis using True m by (simp add: r0)
  qed (use q(3) m in simp)
  have "next_packet_frames rate d = (int ?f, pace_update (fracAccumulator_q16_update (\<lambda>_. (?acc + rate) AND 0xFFFF)) d)"
    using fb f by (simp add: next_packet_frames_def Let_def q(1))
  then have e: "f = int ?f" "d1 = pace_update (fracAccumulator_q16_update (\<lambda>_. (?acc + rate) AND 0xFFFF)) d" using n by simp_all
  show "f = int ?f" by (rule e(1))
  show "unat (fracAccumulator_q16 (pace d1)) = (unat ?acc + unat rate) mod 65536" "fmt d1 = fmt d"
    "maxFramesPerPacket (pace d1) = maxFramesPerPacket (pace d)" using q(2) by (simp_all add: e(2))
qed

lemma feedback_packets:
  assumes "feedbackEndpointAddress (fmt d) \<noteq> 0" "unat (fracAccumulator_q16 (pace d)) < 65536"
    and "0 \<le> maxFramesPerPacket (pace d)" "maxFramesPerPacket (pace d) < 65536"
    and "\<forall>rate\<in>set rates. unat rate \<le> nat (maxFramesPerPacket (pace d)) * 65536"
  shows "sum_list (fst (paced_packets rates d)) * 65536 + int (unat (fracAccumulator_q16 (pace (snd (paced_packets rates d))))) =
      int (unat (fracAccumulator_q16 (pace d)) + (\<Sum>rate\<leftarrow>rates. unat rate)) \<and>
    unat (fracAccumulator_q16 (pace (snd (paced_packets rates d)))) < 65536"
  using assms
proof (induction rates arbitrary: d)
  case (Cons rate rates)
  obtain f d1 where n: "next_packet_frames rate d = (f, d1)" by fastforce
  note s = feedback_packet [OF Cons.prems(1-4) _ n]
  have r: "unat rate \<le> nat (maxFramesPerPacket (pace d)) * 65536" using Cons.prems(5) by simp
  have ih: "sum_list (fst (paced_packets rates d1)) * 65536 + int (unat (fracAccumulator_q16 (pace (snd (paced_packets rates d1))))) =
      int (unat (fracAccumulator_q16 (pace d1)) + (\<Sum>rate\<leftarrow>rates. unat rate)) \<and>
    unat (fracAccumulator_q16 (pace (snd (paced_packets rates d1)))) < 65536"
    using Cons.prems s(2-4) [OF r] by (intro Cons.IH) simp_all
  have "int (x div 65536) * 65536 + int (x mod 65536) = int x" for x
  proof -
    have "int (x div 65536) * 65536 + int (x mod 65536) = int (x div 65536 * 65536 + x mod 65536)"
      by (simp only: of_nat_add of_nat_mult of_nat_numeral)
    then show ?thesis by (simp only: div_mult_mod_eq)
  qed
  then have "f * 65536 + int (unat (fracAccumulator_q16 (pace d1))) = int (unat (fracAccumulator_q16 (pace d)) + unat rate)"
    unfolding s(1,2) [OF r] by blast
  then show ?case using ih by (simp add: n case_prod_beta algebra_simps)
qed simp

section \<open>A concrete transfer\<close>

text \<open>Two stereo frames queued, one capture packet of one frame announced, and a one-packet OUT
  transfer whose buffer holds two frames.\<close>

definition demo_stream :: driver where
  "demo_stream = demo_driver
     \<lparr>ring := \<lparr>store = [1, 2, 3, 4, 5, 6, 7, 8, 0, 0, 0, 0, 0, 0, 0, 0], rmask = 15, rhead = 8, rtail = 0\<rparr>,
      led := initLedger\<lparr>writtenFrames := 2\<rparr>,
      pace := initPacing\<lparr>maxFramesPerPacket := 2\<rparr>,
      fifo := \<lparr>implicitFrames = 1 # replicate 255 0, implicitRead = 0, implicitWrite = 1\<rparr>\<rparr>"

text \<open>The same stream with an explicit feedback endpoint.\<close>

definition demo_fed :: driver where
  "demo_fed = fmt_update (feedbackEndpointAddress_update (\<lambda>_. 0x81)) demo_stream"

definition demo_xfer :: xfer where
  "demo_xfer = \<lparr>xf_id = 1, xf_kind = OutEndpoint, xf_status = Completed, xf_buffer = replicate 8 0,
     xf_pkts = [\<lparr>pk_length = 0, pk_actual = 0, pk_status = Completed\<rparr>]\<rparr>"

lemma demo_ring_inv:
  "ring_inv (ring demo_stream)" "ring_len (ring demo_stream) = 8"
  by (auto simp: demo_stream_def ring_inv_def ring_shape_def ring_len_def ringSize_def
      mask_eq_exp_minus_1 intro!: exI [of _ 4])

lemma demo_stream_ok:
  "transport_ok demo_stream" "xfer_ok demo_stream demo_xfer" "packet_law demo_env"
  "frameBytes demo_stream = 4" "queued_frames demo_stream = 2" "fifo_plan demo_stream = [1]"
  "fifo_depth demo_stream = 1" "ring_contents (ring demo_stream) = [1, 2, 3, 4, 5, 6, 7, 8]"
proof -
  show fb: "frameBytes demo_stream = 4" "queued_frames demo_stream = 2"
    using demo_ring_inv by (simp_all add: frameBytes_def queued_frames_def demo_stream_def demo_driver_def strideOf_def)
  show fd: "fifo_depth demo_stream = 1" "fifo_plan demo_stream = [1]"
    by (simp_all add: fifo_depth_def fifo_plan_def demo_stream_def)
  show "xfer_ok demo_stream demo_xfer" using fb by (simp add: xfer_ok_def demo_xfer_def demo_stream_def)
  show "packet_law demo_env" by (simp add: packet_law_def demo_env_def packet_start_def)
  show "ring_contents (ring demo_stream) = [1, 2, 3, 4, 5, 6, 7, 8]"
    unfolding ring_contents_def demo_ring_inv(2)
    by (simp add: demo_stream_def ring_byte_def upt_rec [of _ 8])
  have "stride_ok demo_stream" by (simp add: stride_ok_def demo_stream_def demo_driver_def strideOf_def)
  moreover have "pb_inv demo_stream"
    using demo_ring_inv fb calculation
    by (simp add: pb_inv_def playback_ok_def budget_ok_def)
      (simp add: demo_stream_def demo_driver_def initLedger_def initBuffering_def)
  moreover have "fifo_ok demo_stream" using fd(1) by (simp add: fifo_ok_def demo_stream_def)
  moreover have "geometry_ok demo_stream"
    using calculation by (simp add: geometry_ok_def) (simp add: demo_stream_def demo_driver_def strideOf_def)
  ultimately show "transport_ok demo_stream" by (simp add: transport_ok_def)
qed

section \<open>Properties\<close>

text \<open>C9. Implicit feedback refills a transfer completely or not at all.  If the capture stream has
  announced at least as many packets as the transfer has, and the queue holds the frames they ask
  for, every packet gets exactly its planned frames (the captured packet's count, capped at the
  endpoint's capacity) and the transfer's payload is the oldest queued audio, removed from the
  queue; otherwise transfer, queue and plan are left untouched.  (The FIFO cursors are 64-bit
  packet counts that have not wrapped.)\<close>

theorem prepareImplicitTransfer_all_or_nothing:
  assumes "packet_law e" "transport_ok d" "xfer_ok d x" "implicitRead (fifo d) \<le> implicitWrite (fifo d)"
    and "prepareImplicitTransfer e x d = (ready, x1, d1)"
    and "n = length (xf_pkts x)"
    and "plan = map (\<lambda>k. min k (nat (maxFramesPerPacket (pace d)))) (take n (fifo_plan d))"
  shows "if n \<le> fifo_depth d \<and> sum_list plan \<le> queued_frames d
    then ready \<and> payload x1 @ ring_contents (ring d1) = ring_contents (ring d) \<and>
      map (\<lambda>p. unat (pk_length p)) (xf_pkts x1) = map (\<lambda>k. k * frameBytes d) plan \<and>
      fifo_depth d1 = fifo_depth d - n \<and> transport_ok d1
    else \<not> ready \<and> x1 = x \<and> ring d1 = ring d \<and> fifo d1 = fifo d \<and> led d1 = led d"
proof (cases ready)
  case True
  note p = assms(5) [unfolded eq_True [THEN iffD2, OF True]]
  note R = prepareImplicitTransfer_ready [OF assms(1-3) p, folded assms(6), folded assms(7)]
  show ?thesis using True R by simp
next
  case False
  note p = assms(5) [unfolded eq_False [THEN iffD2, OF False]]
  have c: "x1 = x" "ring d1 = ring d" "led d1 = led d" "fifo d1 = fifo d"
    using p by (auto elim!: prepareImplicitTransfer_cases simp: drain_frame_def)
  have "\<not> (n \<le> fifo_depth d \<and> sum_list plan \<le> queued_frames d)"
  proof
    assume h: "n \<le> fifo_depth d \<and> sum_list plan \<le> queued_frames d"
    have i: "ring_inv (ring d)" "stride_ok d" and fo: "fifo_ok d" "0 \<le> maxFramesPerPacket (pace d)"
      using assms(2) by (simp_all add: transport_ok_def pb_inv_def playback_ok_def geometry_ok_def)
    have n: "0 < n" "n \<le> 8" using assms(3,6) by (simp_all add: xfer_ok_def)
    have "\<not> implicitWrite (fifo d) - implicitRead (fifo d) < of_nat n"
      using h n by (simp add: word_less_nat_alt fifo_depth_def unat_of_nat)
    moreover have "\<not> bufferedFrames d < sum_list (planned_frames d n)"
    proof -
      have pf: "map nat (planned_frames d n) = plan"
        using planned_frames_fifo [OF fo] h by (simp add: assms(7))
      have nn: "\<forall>f\<in>set (planned_frames d n). 0 \<le> f" using planned_frames_bounds [OF fo] by blast
      have "int (sum_list (map nat fs)) = sum_list fs" if "\<forall>f\<in>set fs. 0 \<le> f" for fs
        using that by (induction fs) auto
      from this [OF nn] show ?thesis using h pf by (simp add: bufferedFrames_eq i)
    qed
    ultimately show False
      using p n assms(4) unfolding prepareImplicitTransfer_def Let_def assms(6) [symmetric]
      by (simp add: not_less split: if_splits)
  qed
  then show ?thesis using False c by simp
qed

theorem prepareImplicitTransfer_all_or_nothing_witness:
  "fst (prepareImplicitTransfer demo_env demo_xfer demo_stream) \<and>
   payload (fst (snd (prepareImplicitTransfer demo_env demo_xfer demo_stream))) @
     ring_contents (ring (snd (snd (prepareImplicitTransfer demo_env demo_xfer demo_stream)))) =
     [1, 2, 3, 4, 5, 6, 7, 8]"
proof -
  obtain ready x1 d1 where p: "prepareImplicitTransfer demo_env demo_xfer demo_stream = (ready, x1, d1)"
    by (metis prod_cases3)
  have "implicitRead (fifo demo_stream) \<le> implicitWrite (fifo demo_stream)" by (simp add: demo_stream_def)
  then show ?thesis
    using prepareImplicitTransfer_all_or_nothing
      [OF demo_stream_ok(3,1,2) _ p refl refl] demo_stream_ok(5-8) p
    by (simp add: demo_xfer_def split: if_splits)
qed

text \<open>C12. Without implicit feedback a refilled transfer follows the pacing plan exactly: packet \<open>i\<close>
  carries the \<open>i\<close>-th number of frames the rational scheduler (or the feedback accumulator) yields,
  except that the plan is cut off where the queue ends, and the payload is the oldest queued
  audio, in order, with nothing skipped and no padding.  (The README says an OUT transfer is deferred
  unless all its PCM is available; that holds of the implicit-feedback path only, C9.)\<close>

theorem ship_scheduled_follows_plan:
  assumes "packet_law e" "transport_ok d" "xfer_ok d x"
    and "ship_scheduled e rate 0 (length (xf_pkts x)) x d = (x1, d1)"
  shows "payload x1 @ ring_contents (ring d1) = ring_contents (ring d) \<and>
    map (\<lambda>p. unat (pk_length p)) (xf_pkts x1) =
      map (\<lambda>n. n * frameBytes d)
        (shipped_frames (queued_frames d) (driver_plan d rate (length (xf_pkts x)))) \<and>
    transport_ok d1 \<and> xfer_ok d1 x1"
  using carries_transfer [OF assms(2,3) ship_scheduled_transfer [OF assms] length_driver_plan] by simp

theorem ship_scheduled_follows_plan_witness:
  "payload (fst (ship_scheduled demo_env 65536 0 1 demo_xfer demo_stream)) @
     ring_contents (ring (snd (ship_scheduled demo_env 65536 0 1 demo_xfer demo_stream))) =
     [1, 2, 3, 4, 5, 6, 7, 8]"
proof -
  have "length (xf_pkts demo_xfer) = 1" by (simp add: demo_xfer_def)
  then show ?thesis
    using ship_scheduled_follows_plan [OF demo_stream_ok(3,1,2), of 65536] demo_stream_ok(8)
    by (metis prod.collapse)
qed

text \<open>C14. Explicit feedback is exact.  Whatever rates the feedback endpoint reports from packet to packet,
  within the endpoint's capacity, the frames of the packets and the fraction left in the accumulator
  add up to the fraction it started with plus the sum of the rates (all in 1/65536 frames), and the
  fraction left is below one frame: over any number of packets not a fraction of a frame is lost or
  made up, so the stream is never off by a whole frame.\<close>

theorem feedback_packets_exact:
  assumes "feedbackEndpointAddress (fmt d) \<noteq> 0" "unat (fracAccumulator_q16 (pace d)) < 65536"
    and "0 \<le> maxFramesPerPacket (pace d)" "maxFramesPerPacket (pace d) < 65536"
    and "\<forall>rate\<in>set rates. unat rate \<le> nat (maxFramesPerPacket (pace d)) * 65536"
    and "paced_packets rates d = (frames, d')"
  shows "sum_list frames * 65536 + int (unat (fracAccumulator_q16 (pace d'))) =
      int (unat (fracAccumulator_q16 (pace d)) + (\<Sum>rate\<leftarrow>rates. unat rate)) \<and>
    unat (fracAccumulator_q16 (pace d')) < 65536"
  using feedback_packets [OF assms(1-5)] assms(6) by simp

theorem feedback_packets_exact_witness:
  "sum_list (fst (paced_packets [98304, 98304, 98304] demo_fed)) * 65536 +
     int (unat (fracAccumulator_q16 (pace (snd (paced_packets [98304, 98304, 98304] demo_fed))))) = 294912"
  using feedback_packets_exact [of demo_fed "[98304, 98304, 98304]", OF _ _ _ _ _ prod.collapse [symmetric]]
  by (simp add: demo_fed_def demo_stream_def initPacing_def)

end
