(* ===== verification/Handlers.thy ===== *)
theory Handlers
  imports Transfers
begin

text \<open>
  The effect of the completion handlers on the pipeline, as one relation.  \<open>sends d d' calls lost\<close>
  says that on the way from \<open>d\<close> to \<open>d'\<close> the driver made the libusb calls \<open>calls\<close>; that the
  payloads of the OUT transfers it submitted, followed by \<open>lost\<close> and by what is still queued, are
  what was queued before; that audio is lost only together with the transport; and that the
  in-flight and queued-frame ledgers moved by exactly the submitted transfers.
\<close>

section \<open>The relation\<close>

definition frames_sum :: "driver \<Rightarrow> xfer list \<Rightarrow> u64" where
  "frames_sum d xs = (\<Sum>x\<leftarrow>xs. transfer_frames (strideOf (fmt d)) x)"

text \<open>The three run flags change only together, in the terminal transition.\<close>

definition steady :: "driver \<Rightarrow> driver \<Rightarrow> bool" where
  "steady d d' \<longleftrightarrow>
     transportFailed (mode d') \<and> stopRequested (mode d') \<and> \<not> captureActive (mode d') \<or>
     transportFailed (mode d') = transportFailed (mode d) \<and>
     stopRequested (mode d') = stopRequested (mode d) \<and> captureActive (mode d') = captureActive (mode d)"

lemma steady_trans: "steady a b \<Longrightarrow> steady b c \<Longrightarrow> steady a c"
  by (auto simp: steady_def)

definition sends :: "driver \<Rightarrow> driver \<Rightarrow> (usb_call \<times> int) list \<Rightarrow> bytes \<Rightarrow> bool" where
  "sends d d' calls lost \<longleftrightarrow>
     transport_ok d' \<and> bus d' = bus d @ calls \<and>
     concat (map payload (submitted_xfers OutEndpoint calls)) @ lost @ ring_contents (ring d') =
       ring_contents (ring d) \<and>
     (lost = [] \<or> transportFailed (mode d')) \<and>
     steady d d' \<and>
     fmt d' = fmt d \<and> captureFormat d' = captureFormat d \<and> buf d' = buf d \<and>
     maxFramesPerPacket (pace d') = maxFramesPerPacket (pace d) \<and>
     queuedOutFrames (led d') =
       queuedOutFrames (led d) + frames_sum d (submitted_xfers OutEndpoint calls) \<and>
     inflight (led d') = inflight (led d) + int (length (submitted_xfers OutEndpoint calls)) +
       int (length (submitted_xfers FeedbackEndpoint calls)) \<and>
     captureInflight (led d') = captureInflight (led d) + int (length (submitted_xfers InEndpoint calls))"

lemma frames_sum_simps [simp]:
  "frames_sum d [] = 0" "frames_sum d (x # xs) = transfer_frames (strideOf (fmt d)) x + frames_sum d xs"
  "frames_sum d (xs @ ys) = frames_sum d xs + frames_sum d ys"
  by (simp_all add: frames_sum_def)

lemma frames_sum_cong: "fmt d' = fmt d \<Longrightarrow> frames_sum d' xs = frames_sum d xs"
  by (simp add: frames_sum_def)

lemma submitted_xfers_Cons:
  "submitted_xfers k (c # cs) = submitted_call k c @ submitted_xfers k cs"
  by (simp add: submitted_xfers_def)

lemma sends_trans:
  assumes a: "sends d d1 c1 []" and b: "sends d1 d2 c2 lost"
  shows "sends d d2 (c1 @ c2) lost"
proof -
  have "ring_contents (ring d) = concat (map payload (submitted_xfers OutEndpoint c1)) @ ring_contents (ring d1)"
    using a by (simp add: sends_def)
  moreover have "ring_contents (ring d1) =
      concat (map payload (submitted_xfers OutEndpoint c2)) @ lost @ ring_contents (ring d2)"
    using b by (simp add: sends_def)
  moreover have "frames_sum d1 = frames_sum d" using a by (auto simp: sends_def frames_sum_def)
  moreover have "steady d d2" using a b steady_trans by (auto simp: sends_def)
  ultimately show ?thesis using a b by (simp add: sends_def)
qed

lemma transport_ok_cong:
  "ring d' = ring d \<Longrightarrow> fmt d' = fmt d \<Longrightarrow> buf d' = buf d \<Longrightarrow>
   maxFramesPerPacket (pace d') = maxFramesPerPacket (pace d) \<Longrightarrow> fifo d' = fifo d \<Longrightarrow>
   writtenFrames (led d') = writtenFrames (led d) \<Longrightarrow> playedFrames (led d') = playedFrames (led d) \<Longrightarrow>
   transport_ok d' = transport_ok d"
  by (simp add: transport_ok_def pb_inv_def playback_ok_def stride_ok_def frameBytes_def
      queued_frames_def geometry_ok_def fifo_ok_def fifo_depth_def)

lemma xfer_ok_cong:
  "fmt d' = fmt d \<Longrightarrow> maxFramesPerPacket (pace d') = maxFramesPerPacket (pace d) \<Longrightarrow>
   xfer_ok d' x = xfer_ok d x"
  by (simp add: xfer_ok_def frameBytes_def)

text \<open>A step that leaves the pipeline alone.\<close>

definition idle :: "driver \<Rightarrow> driver \<Rightarrow> bool" where
  "idle d d' \<longleftrightarrow> ring d' = ring d \<and> bus d' = bus d \<and> fmt d' = fmt d \<and> buf d' = buf d \<and>
     captureFormat d' = captureFormat d \<and> maxFramesPerPacket (pace d') = maxFramesPerPacket (pace d) \<and>
     writtenFrames (led d') = writtenFrames (led d) \<and> playedFrames (led d') = playedFrames (led d) \<and>
     queuedOutFrames (led d') = queuedOutFrames (led d) \<and> inflight (led d') = inflight (led d) \<and>
     captureInflight (led d') = captureInflight (led d) \<and>
     steady d d'"

lemma idle_trans: "idle a b \<Longrightarrow> idle b c \<Longrightarrow> idle a c"
  by (auto simp: idle_def intro: steady_trans)

lemma idle_refl [simp]: "idle d d"
  by (simp add: idle_def steady_def)

lemma idle_ok:
  assumes "idle d d'"
  shows "pb_inv d' = pb_inv d" "geometry_ok d' = geometry_ok d" "frameBytes d' = frameBytes d"
    "xfer_ok d' x = xfer_ok d x" "stride_ok d' = stride_ok d"
  using assms
  by (simp_all add: idle_def pb_inv_def playback_ok_def stride_ok_def frameBytes_def queued_frames_def
      geometry_ok_def xfer_ok_def)

lemma idle_sends: "idle d d' \<Longrightarrow> transport_ok d \<Longrightarrow> fifo_ok d' \<Longrightarrow> sends d d' [] []"
  using idle_ok [of d d'] by (auto simp: sends_def transport_ok_def idle_def)

lemma fifo_ok_cong: "fifo d' = fifo d \<Longrightarrow> fifo_ok d' = fifo_ok d"
  by (simp add: fifo_ok_def fifo_depth_def)

lemma sends_xfer_ok: "sends d d' c l \<Longrightarrow> xfer_ok d' x = xfer_ok d x"
  by (simp add: sends_def xfer_ok_def frameBytes_def)

lemma sends_lost_trans:
  assumes a: "sends d d1 c lost" and b: "idle d1 d2" "fifo d2 = fifo d1"
  shows "sends d d2 c lost"
  using a idle_ok [OF b(1)] fifo_ok_cong [OF b(2)] b(1) steady_trans [of d d1 d2]
  by (auto simp: sends_def transport_ok_def idle_def steady_def)

section \<open>Refill and submit\<close>

text \<open>\<open>x\<close> has been refilled from the ring of \<open>d\<close>, giving \<open>d1\<close>.\<close>

definition refilled :: "driver \<Rightarrow> driver \<Rightarrow> xfer \<Rightarrow> bool" where
  "refilled d d1 x \<longleftrightarrow> transport_ok d1 \<and> xfer_ok d1 x \<and>
     payload x @ ring_contents (ring d1) = ring_contents (ring d) \<and>
     fmt d1 = fmt d \<and> captureFormat d1 = captureFormat d \<and> buf d1 = buf d \<and> bus d1 = bus d \<and>
     maxFramesPerPacket (pace d1) = maxFramesPerPacket (pace d) \<and>
     queuedOutFrames (led d1) = queuedOutFrames (led d) \<and> inflight (led d1) = inflight (led d) \<and>
     captureInflight (led d1) = captureInflight (led d) \<and>
     transportFailed (mode d1) = transportFailed (mode d) \<and>
     captureActive (mode d1) = captureActive (mode d) \<and> stopRequested (mode d1) = stopRequested (mode d)"

lemma drain_frame_refilled:
  assumes "drain_frame d d1" "transport_ok d1" "xfer_ok d1 x"
    and "payload x @ ring_contents (ring d1) = ring_contents (ring d)"
  shows "refilled d d1 x"
  using assms by (simp add: refilled_def drain_frame_def)

lemma prepared_refilled:
  assumes "packet_law e" "transport_ok d" "xfer_ok d x" "prepareImplicitTransfer e x d = (True, x1, d1)"
  shows "refilled d d1 x1" "xf_id x1 = xf_id x"
  using prepareImplicitTransfer_ready [OF assms] by (simp_all add: refilled_def drain_frame_def)

lemma deferred_idle:
  assumes "prepareImplicitTransfer e x d = (False, x1, d1)"
  shows "idle d d1" "fifo d1 = fifo d" "x1 = x" "mode d1 = mode d" "pendingImplicit d1 = pendingImplicit d"
  using assms by (auto elim!: prepareImplicitTransfer_cases simp: idle_def steady_def drain_frame_def)

text \<open>After the submit call: the result \<open>d2\<close> differs from \<open>d1\<close> by the call, the ledgers of a
  successful submission and, on failure, the terminal transition.\<close>

definition handed_over :: "driver \<Rightarrow> driver \<Rightarrow> driver \<Rightarrow> xfer \<Rightarrow> int \<Rightarrow> bool" where
  "handed_over d d1 d2 x rc \<longleftrightarrow>
     ring d2 = ring d1 \<and> fifo d2 = fifo d1 \<and> fmt d2 = fmt d1 \<and> captureFormat d2 = captureFormat d1 \<and>
     buf d2 = buf d1 \<and> maxFramesPerPacket (pace d2) = maxFramesPerPacket (pace d1) \<and>
     writtenFrames (led d2) = writtenFrames (led d1) \<and> playedFrames (led d2) = playedFrames (led d1) \<and>
     captureInflight (led d2) = captureInflight (led d1) \<and> bus d2 = bus d1 @ [(Submit x, rc)] \<and>
     (rc = 0 \<longrightarrow> queuedOutFrames (led d2) = queuedOutFrames (led d1) + transfer_frames (strideOf (fmt d1)) x \<and>
        inflight (led d2) = inflight (led d) + 1 \<and> transportFailed (mode d2) = transportFailed (mode d1) \<and>
        captureActive (mode d2) = captureActive (mode d1) \<and> stopRequested (mode d2) = stopRequested (mode d1)) \<and>
     (rc \<noteq> 0 \<longrightarrow> queuedOutFrames (led d2) = queuedOutFrames (led d1) \<and>
        inflight (led d2) = inflight (led d) \<and> transportFailed (mode d2) \<and> stopRequested (mode d2) \<and>
        \<not> captureActive (mode d2))"

lemma handed_over_sends:
  assumes r: "refilled d d1 x" and h: "handed_over d0 d1 d2 x rc"
    and d0: "ring d0 = ring d" "bus d0 = bus d" "fmt d0 = fmt d" "captureFormat d0 = captureFormat d"
      "buf d0 = buf d" "pace d0 = pace d" "queuedOutFrames (led d0) = queuedOutFrames (led d)"
      "captureInflight (led d0) = captureInflight (led d)" "mode d0 = mode d"
  shows "sends d0 d2 [(Submit x, rc)] (if rc = 0 then [] else payload x)"
proof -
  have "transport_ok d2 = transport_ok d1"
    using h by (intro transport_ok_cong) (simp_all add: handed_over_def)
  then have "transport_ok d2" using r by (simp add: refilled_def)
  moreover have "xf_kind x = OutEndpoint" using r by (simp add: refilled_def xfer_ok_def)
  ultimately show ?thesis
    using r h d0 by (auto simp: sends_def refilled_def handed_over_def steady_def)
qed

lemma refilled_xfer_ok: "refilled d d1 x \<Longrightarrow> xfer_ok d x"
  using xfer_ok_cong [of d1 d x] by (simp add: refilled_def)

lemma markTransportFailed_frame [simp, frame]:
  "ring (markTransportFailed d) = ring d" "fmt (markTransportFailed d) = fmt d"
  "captureFormat (markTransportFailed d) = captureFormat d" "buf (markTransportFailed d) = buf d"
  "fifo (markTransportFailed d) = fifo d" "pace (markTransportFailed d) = pace d"
  "led (markTransportFailed d) = led d" "bus (markTransportFailed d) = bus d"
  "captureRing (markTransportFailed d) = captureRing d"
  "pendingImplicit (markTransportFailed d) = pendingImplicit d"
  "transportFailed (mode (markTransportFailed d))" "stopRequested (mode (markTransportFailed d))"
  "\<not> captureActive (mode (markTransportFailed d))"
  by (simp_all add: markTransportFailed_def)

lemmas retire_defs = retire_out_def count_playback_error_def retire_capture_def count_capture_error_def

section \<open>The pending queue\<close>

text \<open>Deferred transfers leave in the order they were deferred; what cannot go stays at the head.\<close>

lemma submit_pending_sends:
  assumes law: "packet_law e"
  shows "submit_pending e ps d = (n, left, d') \<Longrightarrow> transport_ok d \<Longrightarrow> (\<forall>x\<in>fst ` set ps. xfer_ok d x) \<Longrightarrow>
    \<exists>calls lost. sends d d' calls lost \<and>
      map xf_id (submitted_xfers OutEndpoint calls) @ map (xf_id \<circ> fst) left = map (xf_id \<circ> fst) ps \<and>
      n = length (submitted_xfers OutEndpoint calls) \<and>
      submitted_xfers InEndpoint calls = [] \<and> submitted_xfers FeedbackEndpoint calls = [] \<and>
      (\<forall>x\<in>set (submitted_xfers OutEndpoint calls). xfer_ok d x) \<and>
      (\<forall>x\<in>fst ` set left. xfer_ok d x) \<and> pendingImplicit d' = pendingImplicit d \<and>
      captureRing d' = captureRing d"
proof (induction ps arbitrary: d n)
  case Nil
  then show ?case by (intro exI [of _ "[]"]) (auto intro: idle_sends simp: transport_ok_def)
next
  case (Cons p ps)
  obtain x since where p: "p = (x, since)" by fastforce
  have xok: "xfer_ok d x" using Cons.prems(3) by (simp add: p)
  obtain ready x1 d1 where pr: "prepareImplicitTransfer e x d = (ready, x1, d1)" by (metis prod_cases3)
  show ?case
  proof (cases ready)
    case False
    note f = deferred_idle [OF pr [unfolded eq_False [THEN iffD2, OF False]]]
    have "captureRing d1 = captureRing d"
      using pr by (auto elim!: prepareImplicitTransfer_cases simp: drain_frame_def False)
    then show ?thesis
      using Cons.prems pr False f idle_sends [OF f(1)] fifo_ok_cong [OF f(2)]
      by (intro exI [of _ "[]"]) (auto simp: p transport_ok_def)
  next
    case True
    note rf = prepared_refilled [OF law Cons.prems(2) xok pr [unfolded eq_True [THEN iffD2, OF True]]]
    have fr: "pendingImplicit d1 = pendingImplicit d" "captureRing d1 = captureRing d"
      using pr True prepareImplicitTransfer_ready(8) [OF law Cons.prems(2) xok] by (auto simp: drain_frame_def)
    define rc where "rc = usb_rc e (bus d1) (Submit x1)"
    define d2 where "d2 = snd (usb e (Submit x1) (led_update (inflight_update (\<lambda>n. n + 1)) d1))"
    have u: "usb e (Submit x1) (led_update (inflight_update (\<lambda>n. n + 1)) d1) = (rc, d2)"
      by (simp add: usb_def Let_def d2_def rc_def)
    have d2: "ring d2 = ring d1" "fifo d2 = fifo d1" "fmt d2 = fmt d1" "captureFormat d2 = captureFormat d1"
      "buf d2 = buf d1" "pace d2 = pace d1" "mode d2 = mode d1" "bus d2 = bus d1 @ [(Submit x1, rc)]"
      "led d2 = inflight_update (\<lambda>n. n + 1) (led d1)" "pendingImplicit d2 = pendingImplicit d1"
      "captureRing d2 = captureRing d1"
      by (simp_all add: d2_def usb_def Let_def rc_def)
    show ?thesis
    proof (cases "rc = 0")
      case False
      let ?d3 = "markTransportFailed (retire_out (count_playback_error d2))"
      have "handed_over d d1 ?d3 x1 rc"
        using rf(1) False by (simp add: handed_over_def d2 retire_defs refilled_def)
      then have s: "sends d ?d3 [(Submit x1, rc)] (payload x1)"
        using handed_over_sends [OF rf(1), of d ?d3 rc] False by simp
      have "xfer_ok d x1" using rf(1) by (rule refilled_xfer_ok)
      then show ?thesis
        using Cons.prems pr True u False s rf(2) fr
        by (intro exI [of _ "[(Submit x1, rc)]"] exI [of _ "payload x1"])
          (auto simp: p d2 retire_defs)
    next
      case ok: True
      define d4 where "d4 = (let age = fst (monotonicNowNs e d2) - since;
                frames = transfer_frames (strideOf (fmt d2)) x1;
                d3 = led_update (queuedOutFrames_update (\<lambda>q. q + frames))
                       (pcnt_update (maxPendingAgeNs_update (keep_max age)) (snd (monotonicNowNs e d2)))
            in (if frames > 0
                then mode_update (implicitZeroRunwayActive_update (\<lambda>_. False)) d3 else d3))"
      have h: "handed_over d d1 d4 x1 0" and f4: "pendingImplicit d4 = pendingImplicit d" "captureRing d4 = captureRing d"
        using rf(1) by (auto simp: handed_over_def d4_def Let_def monotonicNowNs_def d2 ok refilled_def fr)
      have s: "sends d d4 [(Submit x1, 0)] []" using handed_over_sends [OF rf(1) h] by simp
      have x1: "xfer_ok d x1" "xf_kind x1 = OutEndpoint"
        using refilled_xfer_ok [OF rf(1)] by (simp_all add: xfer_ok_def)
      obtain n1 left1 d5 where r: "submit_pending e ps d4 = (n1, left1, d5)" by (metis prod_cases3)
      have ret: "n = Suc n1" "left = left1" "d' = d5"
        using Cons.prems(1) r by (simp_all add: p pr True u ok d4_def Let_def)
      have "transport_ok d4" using s by (simp add: sends_def)
      moreover have "\<forall>x\<in>fst ` set ps. xfer_ok d4 x"
        using Cons.prems(3) by (simp add: sends_xfer_ok [OF s])
      ultimately obtain calls lost where ih: "sends d4 d' calls lost"
        "map xf_id (submitted_xfers OutEndpoint calls) @ map (xf_id \<circ> fst) left = map (xf_id \<circ> fst) ps"
        "n1 = length (submitted_xfers OutEndpoint calls)"
        "submitted_xfers InEndpoint calls = []" "submitted_xfers FeedbackEndpoint calls = []"
        "\<forall>x\<in>set (submitted_xfers OutEndpoint calls). xfer_ok d4 x"
        "\<forall>x\<in>fst ` set left. xfer_ok d4 x" "pendingImplicit d' = pendingImplicit d4"
        "captureRing d' = captureRing d4"
        using Cons.IH [OF r [folded ret(2,3)]] by blast
      show ?thesis
        using sends_trans [OF s ih(1)] ih(2-9) ret x1 rf(2) f4
        by (intro exI [of _ "(Submit x1, 0) # calls"] exI [of _ lost])
          (simp add: p submitted_xfers_Cons sends_xfer_ok [OF s] comp_def)
    qed
  qed
qed

lemma submitPending_sends:
  assumes law: "packet_law e" and ok: "transport_ok d" and pend: "\<forall>x\<in>fst ` set (pendingImplicit d). xfer_ok d x"
  defines "d' \<equiv> submitPendingImplicitTransfers e d"
  shows "\<exists>calls lost. sends d d' calls lost \<and>
      map xf_id (submitted_xfers OutEndpoint calls) @ map (xf_id \<circ> fst) (pendingImplicit d') =
        map (xf_id \<circ> fst) (pendingImplicit d) \<and>
      submitted_xfers InEndpoint calls = [] \<and> submitted_xfers FeedbackEndpoint calls = [] \<and>
      (\<forall>x\<in>set (submitted_xfers OutEndpoint calls). xfer_ok d x) \<and>
      (\<forall>x\<in>fst ` set (pendingImplicit d'). xfer_ok d x) \<and> captureRing d' = captureRing d"
proof -
  obtain n left d1 where s: "submit_pending e (pendingImplicit d) d = (n, left, d1)" by (metis prod_cases3)
  obtain calls lost where c: "sends d d1 calls lost"
    "map xf_id (submitted_xfers OutEndpoint calls) @ map (xf_id \<circ> fst) left = map (xf_id \<circ> fst) (pendingImplicit d)"
    "submitted_xfers InEndpoint calls = []" "submitted_xfers FeedbackEndpoint calls = []"
    "\<forall>x\<in>set (submitted_xfers OutEndpoint calls). xfer_ok d x"
    "\<forall>x\<in>fst ` set left. xfer_ok d x" "captureRing d1 = captureRing d"
    using submit_pending_sends [OF law s ok pend] by blast
  have "idle d1 d'" "fifo d' = fifo d1" "pendingImplicit d' = left" "captureRing d' = captureRing d1"
    by (simp_all add: d'_def submitPendingImplicitTransfers_def s Let_def idle_def steady_def)
  then show ?thesis using sends_lost_trans [OF c(1)] c(2-7) by metis
qed

section \<open>The steps of a playback completion\<close>

text \<open>Bookkeeping that touches neither the pipeline nor the modes.\<close>

definition quiet :: "driver \<Rightarrow> driver \<Rightarrow> bool" where
  "quiet d d' \<longleftrightarrow> idle d d' \<and> fifo d' = fifo d \<and> pendingImplicit d' = pendingImplicit d \<and>
     captureRing d' = captureRing d \<and> mode d' = mode d \<and> pace d' = pace d"

lemma quiet_refl [simp]: "quiet d d"
  by (simp add: quiet_def)

lemma quiet_trans: "quiet a b \<Longrightarrow> quiet b c \<Longrightarrow> quiet a c"
  by (auto simp: quiet_def intro: idle_trans)

lemma quiet_updates [simp]:
  "quiet d (pcnt_update f d)" "quiet d (ccnt_update g d)" "quiet d (gaps_update h d)"
  "quiet d (fill_update i d)" "quiet d (service_update j d)" "quiet d (clock_reads_update k d)"
  "quiet d (led_update (playbackCredit_update c) d)"
  by (simp_all add: quiet_def idle_def steady_def)

lemma quiet_count_errors: "quiet d (iso_count_errors x d)"
proof -
  have "quiet d (fold (\<lambda>p d. if pk_status p \<noteq> Completed then count_playback_error d else d) ps d)" for ps :: "iso_packet list"
  proof (induction ps arbitrary: d)
    case (Cons p ps)
    have "quiet d (if pk_status p \<noteq> Completed then count_playback_error d else d)"
      by (simp add: count_playback_error_def)
    then show ?case unfolding fold_simps(2) by (rule quiet_trans [OF _ Cons.IH])
  qed simp
  then show ?thesis by (simp add: iso_count_errors_def count_playback_error_def)
qed

lemma quiet_now: "quiet d (snd (monotonicNowNs e d))"
  by (simp add: monotonicNowNs_def)

lemma quiet_spin: "quiet d (spin_until e until fuel d)"
proof (induction fuel arbitrary: d)
  case (Suc fuel)
  then show ?case using quiet_trans [OF quiet_now [of d e] Suc.IH] quiet_now [of d e]
    by (simp add: case_prod_beta)
qed simp

lemma quiet_stall: "quiet d (iso_stall e d)"
proof -
  let ?d1 = "service_update (serviceStallUs_update (\<lambda>_. 0)) d"
  have "quiet d (service_update f (spin_until e u n (snd (monotonicNowNs e ?d1))))" for f u n
    by (rule quiet_trans [OF _ quiet_trans [OF quiet_now quiet_trans [OF quiet_spin quiet_updates(5)]]]) simp
  then show ?thesis by (simp add: iso_stall_def Let_def case_prod_beta)
qed

lemma quiet_envelope: "quiet d (iso_envelope e n d)"
proof -
  have "quiet d (iso_gap now d)" for now d
    by (simp add: iso_gap_def Let_def quiet_def idle_def steady_def)
  moreover have "quiet d (iso_credit n d)" for d by (simp add: iso_credit_def quiet_def idle_def steady_def)
  moreover have "quiet d (iso_occupancy d)" for d by (simp add: iso_occupancy_def Let_def)
  ultimately have "quiet d (iso_occupancy (iso_credit n (gaps_update f (iso_gap now (snd (monotonicNowNs e d))))))" for f now
    by (meson quiet_trans quiet_now quiet_updates(3))
  then show ?thesis by (simp add: iso_envelope_def case_prod_beta)
qed

text \<open>Taking a completed OUT (or feedback) transfer back from the bus.\<close>

definition take_back :: "u64 \<Rightarrow> driver \<Rightarrow> driver" where
  "take_back q d = led_update (inflight_update (\<lambda>n. n - 1) \<circ> queuedOutFrames_update (\<lambda>_. q)) d"

lemma iso_resubmit_sends:
  fixes e :: env and n :: u64 and imp :: bool
  assumes r: "refilled d d1 x" and c: "pendingImplicit d1 = pendingImplicit d" "captureRing d1 = captureRing d"
  defines "d' \<equiv> iso_resubmit e n imp x d1"
  shows "\<exists>rc. sends (retire_out d) d' [(Submit x, rc)] (if rc = 0 then [] else payload x)"
    and "pendingImplicit d' = pendingImplicit d" "captureRing d' = captureRing d"
proof -
  let ?d2 = "record_event e PlaybackComplete (u32_of_size n) 0 (u32_of_int (bufferedFrames d1))
    (u32_of_size (queuedOutFrames (led d1))) d1"
  let ?rc = "usb_rc e (bus d1) (Submit x)"
  have "handed_over (retire_out d) d1 d' x ?rc"
    using r by (auto simp: handed_over_def d'_def iso_resubmit_def Let_def usb_def retire_defs refilled_def)
  then have "sends (retire_out d) d' [(Submit x, ?rc)] (if ?rc = 0 then [] else payload x)"
    using r by (intro handed_over_sends) (simp_all add: retire_defs)
  then show "\<exists>rc. sends (retire_out d) d' [(Submit x, rc)] (if rc = 0 then [] else payload x)" by blast
  show "pendingImplicit d' = pendingImplicit d" "captureRing d' = captureRing d"
    using c by (simp_all add: d'_def iso_resubmit_def Let_def usb_def retire_defs)
qed

lemma iso_defer_sends:
  fixes e :: env and x :: xfer
  assumes ok: "transport_ok d"
  defines "d' \<equiv> iso_defer e x d"
  shows "sends (retire_out d) d' [] []"
    and "length (pendingImplicit d) < 8 \<Longrightarrow>
      \<exists>now. pendingImplicit d' = pendingImplicit d @ [(x, now)] \<and> transportFailed (mode d') = transportFailed (mode d)"
    and "\<not> length (pendingImplicit d) < 8 \<Longrightarrow> pendingImplicit d' = pendingImplicit d \<and> stopRequested (mode d')"
    and "captureRing d' = captureRing d"
proof -
  have i: "idle (retire_out d) d'" "fifo d' = fifo d"
    by (simp_all add: d'_def iso_defer_def Let_def idle_def steady_def retire_defs monotonicNowNs_def)
  have "transport_ok (retire_out d)"
    using ok transport_ok_cong [of "retire_out d" d] by (simp add: retire_defs)
  moreover have "fifo_ok d'" using ok fifo_ok_cong [OF i(2)] by (simp add: transport_ok_def)
  ultimately show "sends (retire_out d) d' [] []" by (rule idle_sends [OF i(1)])
  show "\<exists>now. pendingImplicit d' = pendingImplicit d @ [(x, now)] \<and> transportFailed (mode d') = transportFailed (mode d)"
    if "length (pendingImplicit d) < 8"
    using that by (simp add: d'_def iso_defer_def Let_def retire_defs monotonicNowNs_def)
  show "\<not> length (pendingImplicit d) < 8 \<Longrightarrow> pendingImplicit d' = pendingImplicit d \<and> stopRequested (mode d')"
    by (simp add: d'_def iso_defer_def Let_def retire_defs)
  show "captureRing d' = captureRing d"
    by (simp add: d'_def iso_defer_def Let_def retire_defs monotonicNowNs_def)
qed

section \<open>The handlers\<close>

abbreviation (input) outs :: "(usb_call \<times> int) list \<Rightarrow> xfer list" where
  "outs \<equiv> submitted_xfers OutEndpoint"

definition pending_ids :: "driver \<Rightarrow> nat list" where
  "pending_ids d = map (xf_id \<circ> fst) (pendingImplicit d)"

text \<open>The state the handlers rely on and keep.\<close>

definition pipeline_ok :: "driver \<Rightarrow> bool" where
  "pipeline_ok d \<longleftrightarrow> transport_ok d \<and> (\<forall>x\<in>fst ` set (pendingImplicit d). xfer_ok d x) \<and>
     length (pendingImplicit d) \<le> 8 \<and> (transportFailed (mode d) \<or> implicit_mode d \<or> pendingImplicit d = []) \<and>
     (transportFailed (mode d) \<longrightarrow> stopRequested (mode d) \<and> \<not> captureActive (mode d))"

text \<open>\<open>step_ok d d' calls lost completed\<close>: from \<open>d\<close>, which no longer counts the completed
  transfers, the driver reached \<open>d'\<close>; transfers go out in the order they completed, and only a
  stopping driver drops one.\<close>

definition step_ok :: "driver \<Rightarrow> driver \<Rightarrow> (usb_call \<times> int) list \<Rightarrow> bytes \<Rightarrow> nat list \<Rightarrow> bool" where
  "step_ok d d' calls lost completed \<longleftrightarrow> sends d d' calls lost \<and> pipeline_ok d' \<and>
     (\<forall>x\<in>set (outs calls). xfer_ok d x) \<and>
     (\<exists>dropped. map xf_id (outs calls) @ pending_ids d' @ dropped = pending_ids d @ completed \<and>
        (dropped = [] \<or> stopRequested (mode d')))"

lemma pipeline_okI:
  assumes s: "sends d0 d' calls lost" and ok: "pipeline_ok d" and nf: "\<not> transportFailed (mode d)"
    and d0: "fmt d0 = fmt d" "captureFormat d0 = captureFormat d" "mode d0 = mode d"
    and p: "\<forall>x\<in>fst ` set (pendingImplicit d'). xfer_ok d0 x" "length (pendingImplicit d') \<le> 8"
    and i: "implicit_mode d \<or> pendingImplicit d' = []"
  shows "pipeline_ok d'"
  using s ok nf p i d0 sends_xfer_ok [OF s]
  by (auto simp: pipeline_ok_def implicit_mode_def sends_def steady_def)

lemma iso_refill_step:
  assumes law: "packet_law e" and ok: "pipeline_ok d" and x: "xfer_ok d x" and nf: "\<not> transportFailed (mode d)"
  shows "\<exists>calls lost. step_ok (retire_out d) (iso_refill e n x d) calls lost [xf_id x] \<and>
    submitted_xfers InEndpoint calls = [] \<and> submitted_xfers FeedbackEndpoint calls = [] \<and>
    captureRing (iso_refill e n x d) = captureRing d"
proof -
  have t: "transport_ok d" and pd: "\<forall>x\<in>fst ` set (pendingImplicit d). xfer_ok d x" "length (pendingImplicit d) \<le> 8"
    and im: "implicit_mode d \<or> pendingImplicit d = []" using ok nf by (auto simp: pipeline_ok_def)
  have r0: "xfer_ok (retire_out d) y = xfer_ok d y" "pending_ids (retire_out d) = pending_ids d"
    "pendingImplicit (retire_out d) = pendingImplicit d" for y
    by (simp_all add: retire_defs xfer_ok_def frameBytes_def pending_ids_def)
  have rf: "fmt (retire_out d) = fmt d" "captureFormat (retire_out d) = captureFormat d" "mode (retire_out d) = mode d"
    by (simp_all add: retire_defs)
  have resubmitted: ?thesis
    if "iso_refill e n x d = iso_resubmit e n imp x1 d1" "refilled d d1 x1" "xf_id x1 = xf_id x"
      "pendingImplicit d1 = pendingImplicit d" "captureRing d1 = captureRing d" "pendingImplicit d = []"
    for imp x1 d1
  proof -
    note R = iso_resubmit_sends [OF that(2,4,5), of e n imp, folded that(1)]
    obtain rc where s: "sends (retire_out d) (iso_refill e n x d) [(Submit x1, rc)] (if rc = 0 then [] else payload x1)"
      using R(1) by blast
    have k: "xfer_ok d x1" "xf_kind x1 = OutEndpoint"
      using refilled_xfer_ok [OF that(2)] by (simp_all add: xfer_ok_def)
    have "pipeline_ok (iso_refill e n x d)"
      using pipeline_okI [OF s ok nf rf] R(2) that(6) im by simp
    moreover have "rc \<noteq> 0 \<Longrightarrow> stopRequested (mode (iso_refill e n x d))"
      using that(1) by (simp add: iso_resubmit_def Let_def usb_def) (use s in \<open>auto simp: sends_def usb_def\<close>)
    ultimately show ?thesis
      using s R(2,3) k that(3,6)
      by (intro exI [of _ "[(Submit x1, rc)]"] exI [of _ "if rc = 0 then [] else payload x1"])
        (auto simp: step_ok_def r0 pending_ids_def)
  qed
  have deferred: ?thesis
    if "iso_refill e n x d = iso_defer e x d1" "idle d d1" "fifo d1 = fifo d" "mode d1 = mode d"
      "pendingImplicit d1 = pendingImplicit d" "captureRing d1 = captureRing d" "implicit_mode d" for d1
  proof -
    have t1: "transport_ok d1" using t idle_ok [OF that(2)] fifo_ok_cong [OF that(3)] by (simp add: transport_ok_def)
    note D = iso_defer_sends [OF t1, of e x, folded that(1)]
    have "idle (retire_out d) (retire_out d1)" using that(2) by (simp add: idle_def steady_def retire_defs)
    moreover have "transport_ok (retire_out d)" "fifo_ok (retire_out d1)"
      using t t1 transport_ok_cong [of "retire_out d" d] fifo_ok_cong [of "retire_out d1" d1]
      by (simp_all add: retire_defs transport_ok_def)
    ultimately have s: "sends (retire_out d) (iso_refill e n x d) [] []"
      using sends_trans [OF idle_sends D(1)] by simp
    have p: "(\<exists>now. pendingImplicit (iso_refill e n x d) = pendingImplicit d @ [(x, now)] \<and> length (pendingImplicit d) < 8) \<or>
        pendingImplicit (iso_refill e n x d) = pendingImplicit d \<and> stopRequested (mode (iso_refill e n x d))"
      using D(2,3) that(5) by auto
    then have "pipeline_ok (iso_refill e n x d)"
      using pd x that(7) rf r0 by (intro pipeline_okI [OF s ok nf rf]) auto
    then show ?thesis
      using s p D(4) that(6) r0(2) by (intro exI [of _ "[]"]) (auto simp: step_ok_def pending_ids_def)
  qed
  show ?thesis
  proof (cases "implicit_mode d")
    case False
    obtain x1 d1 where s: "ship_scheduled e (framesPerUframe_q16 (pace d)) 0 (length (xf_pkts x)) x d = (x1, d1)"
      by fastforce
    note c = carries_transfer [OF t x ship_scheduled_transfer [OF law t x s] length_driver_plan]
    show ?thesis
      using resubmitted [of False x1 d1] drain_frame_refilled [OF c(4,2,3,1)] c(4,5) s False im
      by (simp add: iso_refill_def drain_frame_def)
  next
    case True
    show ?thesis
    proof (cases "pendingImplicit d = []")
      case False
      then show ?thesis using deferred [of d] True by (simp add: iso_refill_def)
    next
      case none: True
      obtain ready x1 d1 where p: "prepareImplicitTransfer e x d = (ready, x1, d1)" by (metis prod_cases3)
      show ?thesis
      proof (cases ready)
        case r: True
        note p = p [unfolded eq_True [THEN iffD2, OF r]]
        show ?thesis
          using resubmitted [of True x1 d1] prepared_refilled [OF law t x p]
            prepareImplicitTransfer_ready(8) [OF law t x p] p True none
          by (simp add: iso_refill_def drain_frame_def)
      next
        case r: False
        note p = p [unfolded eq_False [THEN iffD2, OF r]]
        have "captureRing d1 = captureRing d"
          using p by (auto elim!: prepareImplicitTransfer_cases simp: drain_frame_def)
        then show ?thesis
          using deferred [of d1] deferred_idle [OF p] p True none by (simp add: iso_refill_def)
      qed
    qed
  qed
qed

lemma quiet_retire: "quiet d d' \<Longrightarrow> quiet (retire_out d) (retire_out d')"
  by (simp add: quiet_def idle_def steady_def retire_defs)

lemma quiet_ok:
  assumes "quiet d d'"
  shows "pipeline_ok d' = pipeline_ok d" "xfer_ok d' x = xfer_ok d x" "pending_ids d' = pending_ids d"
    "transport_ok d' = transport_ok d"
proof -
  have q: "idle d d'" "fifo d' = fifo d" "pendingImplicit d' = pendingImplicit d" "mode d' = mode d"
    using assms by (simp_all add: quiet_def)
  have xo: "xfer_ok d' y = xfer_ok d y" for y using idle_ok(4) [OF q(1)] .
  show "xfer_ok d' x = xfer_ok d x" by (rule xo)
  show t: "transport_ok d' = transport_ok d"
    using idle_ok [OF q(1)] fifo_ok_cong [OF q(2)] by (simp add: transport_ok_def)
  show "pipeline_ok d' = pipeline_ok d"
    using q by (simp add: pipeline_ok_def t xo implicit_mode_def idle_def)
  show "pending_ids d' = pending_ids d" using q by (simp add: pending_ids_def)
qed

lemma step_ok_quiet:
  assumes q: "quiet a b" and s: "step_ok b c calls lost completed" and ok: "transport_ok a"
  shows "step_ok a c calls lost completed"
proof -
  have "idle a b" using q by (simp add: quiet_def)
  moreover have "fifo_ok b" using quiet_ok(4) [OF q] ok by (simp add: transport_ok_def)
  ultimately have "sends a b [] []" using ok by (intro idle_sends)
  then have "sends a c ([] @ calls) lost" using s sends_trans [of a b "[]" c calls lost] by (simp add: step_ok_def)
  then show ?thesis using s quiet_ok [OF q] by (simp add: step_ok_def)
qed

text \<open>A playback completion.  The base state no longer counts the completed transfer.\<close>

lemma take_back_ok:
  "pipeline_ok (take_back q d) = pipeline_ok d" "transport_ok (take_back q d) = transport_ok d"
  "xfer_ok (take_back q d) x = xfer_ok d x" "pending_ids (take_back q d) = pending_ids d"
proof -
  have q: "xfer_ok (take_back q d) y = xfer_ok d y" for y
    by (simp add: take_back_def xfer_ok_def frameBytes_def)
  show t: "transport_ok (take_back q d) = transport_ok d"
    by (intro transport_ok_cong) (simp_all add: take_back_def)
  show "pipeline_ok (take_back q d) = pipeline_ok d"
    unfolding pipeline_ok_def t q by (simp add: take_back_def implicit_mode_def)
  show "xfer_ok (take_back q d) x = xfer_ok d x" by (rule q)
  show "pending_ids (take_back q d) = pending_ids d" by (simp add: take_back_def pending_ids_def)
qed

lemma step_ok_dropped:
  assumes "transport_ok a" "pipeline_ok d'" "idle a d'" "fifo d' = fifo a" "pending_ids d' = pending_ids a"
    "stopRequested (mode d')"
  shows "step_ok a d' [] [] completed"
proof -
  have "fifo_ok d'" using fifo_ok_cong [OF assms(4)] assms(1) by (simp add: transport_ok_def)
  then show ?thesis
    using idle_sends [OF assms(3,1)] assms(2,5,6) by (auto simp: step_ok_def)
qed

lemma pipeline_ok_failed:
  assumes "pipeline_ok d" shows "pipeline_ok (markTransportFailed d)"
proof -
  have x: "xfer_ok (markTransportFailed d) y = xfer_ok d y" for y
    by (simp add: xfer_ok_def frameBytes_def)
  have "transport_ok (markTransportFailed d) = transport_ok d" by (intro transport_ok_cong) simp_all
  then show ?thesis using assms by (simp add: pipeline_ok_def x)
qed

lemma onIso_step:
  assumes law: "packet_law e" and ok: "pipeline_ok d" and x: "xfer_ok d x"
    and cancel: "xf_status x = Cancelled \<longrightarrow> stopRequested (mode d)"
  defines "d0 \<equiv> take_back (subtractQueued (queuedOutFrames (led d)) (transfer_frames (strideOf (fmt d)) x)) d"
  shows "\<exists>calls lost. step_ok d0 (onIso e x d) calls lost [xf_id x] \<and>
    submitted_xfers InEndpoint calls = [] \<and> submitted_xfers FeedbackEndpoint calls = [] \<and>
    captureRing (onIso e x d) = captureRing d"
proof -
  let ?n = "transfer_frames (strideOf (fmt d)) x"
  define d1 where "d1 = led_update (queuedOutFrames_update (\<lambda>q. subtractQueued q ?n)) d"
  have d0: "retire_out d1 = d0"
    by (simp add: d1_def d0_def take_back_def retire_out_def)
  have p0: "pipeline_ok d0" using ok by (simp add: d0_def take_back_ok)
  then have t0: "transport_ok d0" by (simp add: pipeline_ok_def)
  have m1: "mode d1 = mode d" "captureRing d1 = captureRing d" "mode d0 = mode d" "captureRing d0 = captureRing d"
    by (simp_all add: d1_def d0_def take_back_def)
  consider (gone) "xf_status x = Cancelled \<or> stopRequested (mode d)"
    | (unplugged) "xf_status x = NoDeviceStatus" "\<not> (xf_status x = Cancelled \<or> stopRequested (mode d))"
    | (running) "xf_status x \<noteq> NoDeviceStatus" "\<not> (xf_status x = Cancelled \<or> stopRequested (mode d))" by blast
  then show ?thesis
  proof cases
    case gone
    then have "onIso e x d = d0" by (simp add: onIso_def Let_def d0 [symmetric] d1_def)
    then show ?thesis
      using step_ok_dropped [OF t0 p0] gone cancel m1 by (intro exI [of _ "[]"]) auto
  next
    case unplugged
    then have r: "onIso e x d = markTransportFailed (retire_out (count_playback_error d1))"
      by (simp add: onIso_def Let_def d1_def)
    have q: "quiet d0 (retire_out (count_playback_error d1))"
      unfolding d0 [symmetric] by (intro quiet_retire) (simp add: count_playback_error_def)
    have "idle d0 (onIso e x d)" "fifo (onIso e x d) = fifo d0" "pending_ids (onIso e x d) = pending_ids d0"
      "captureRing (onIso e x d) = captureRing d0"
      using q by (simp_all add: r quiet_def idle_def steady_def pending_ids_def)
    moreover have "pipeline_ok (onIso e x d)"
      using p0 quiet_ok(1) [OF q] by (simp add: r pipeline_ok_failed)
    ultimately show ?thesis
      using step_ok_dropped [OF t0] m1 by (intro exI [of _ "[]"]) (auto simp: r)
  next
    case running
    let ?d2 = "iso_envelope e ?n (iso_stall e (iso_count_errors x d1))"
    have q: "quiet d1 ?d2"
      by (rule quiet_trans [OF quiet_trans [OF quiet_count_errors quiet_stall] quiet_envelope])
    have r: "onIso e x d = iso_refill e ?n x ?d2" using running by (simp add: onIso_def Let_def d1_def)
    have "quiet (retire_out d1) (retire_out ?d2)" using q by (rule quiet_retire)
    moreover have o1: "pipeline_ok d1 = pipeline_ok d" "xfer_ok d1 x = xfer_ok d x"
      using take_back_ok [of _ d] unfolding d1_def
      by (simp_all add: pipeline_ok_def xfer_ok_def frameBytes_def implicit_mode_def transport_ok_def pb_inv_def
          playback_ok_def stride_ok_def queued_frames_def geometry_ok_def fifo_ok_def fifo_depth_def)
    moreover have "\<not> transportFailed (mode ?d2)"
      using q running ok m1 by (auto simp: quiet_def pipeline_ok_def)
    then obtain calls lost where "step_ok (retire_out ?d2) (onIso e x d) calls lost [xf_id x]"
      "submitted_xfers InEndpoint calls = []" "submitted_xfers FeedbackEndpoint calls = []"
      "captureRing (onIso e x d) = captureRing ?d2"
      using iso_refill_step [OF law, of ?d2 x ?n] quiet_ok(1,2) [OF q] o1 ok x unfolding r by auto
    ultimately show ?thesis
      using step_ok_quiet [OF _ _ t0] q m1 unfolding d0 [symmetric]
      by (intro exI [of _ calls] exI [of _ lost]) (simp add: quiet_def)
  qed
qed

end
