(* ===== verification/Capture_Completion.thy ===== *)
theory Capture_Completion
  imports Handlers Packet_Plans
begin

text \<open>
  What a capture completion does: \<open>onCapture\<close> appends the frame count of every packet to the
  metadata FIFO that paces implicit-feedback playback, copies the whole frames that fit into the
  capture ring, and releases the playback transfers that were waiting for a packet plan.
\<close>

section \<open>The metadata FIFO as a bounded queue\<close>

lemma mask255_index: "unat ((w + of_nat p) AND (255::u64)) = (unat w + p) mod 256"
proof -
  have "unat ((w + of_nat p) AND mask 8) = unat (w + of_nat p) mod 2 ^ 8" by (rule unat_and_mask) simp
  also have "\<dots> = (unat w + p) mod 2 ^ 8" by (rule unat_add_mod_pow2) simp
  finally show ?thesis by (simp add: mask_eq_exp_minus_1)
qed

text \<open>A packet's frame count goes through \<open>uint16_t\<close>; a bad packet counts as empty.\<close>

definition metadata_entry :: "bool \<Rightarrow> int \<Rightarrow> nat" where
  "metadata_entry good frames = (if good then nat (frames mod 65536) else 0)"

lemma metadata_entry_word:
  "unat (ucast (if good then word_of_int frames else 0 :: u16) :: u32) = metadata_entry good frames"
  by (simp add: metadata_entry_def unsigned_ucast_eq unat_eq_nat_uint uint_word_of_int take_bit_eq_mod
      nat_less_iff)

lemma push_metadata_fifo_fields:
  assumes "fifo_ok d"
  defines "w \<equiv> implicitWrite (fifo d)"
  defines "r \<equiv> (if fifo_depth d < 256 then implicitRead (fifo d) else w)"
  shows "implicitWrite (fifo (push_metadata good n d)) = w + 1"
    "implicitRead (fifo (push_metadata good n d)) = r"
    "implicitFrames (fifo (push_metadata good n d)) =
      (implicitFrames (fifo d))[unat (w AND 255) := ucast (if good then word_of_int n else 0 :: u16)]"
    "unat (w - r) = (if fifo_depth d < 256 then fifo_depth d else 0)"
  by (simp_all add: push_metadata_def Let_def w_def r_def fifo_depth_def word_le_nat_alt)

lemma push_metadata_plan:
  assumes ok: "fifo_ok d"
  shows "fifo_plan (push_metadata good n d) =
      (if fifo_depth d < 256 then fifo_plan d else []) @ [metadata_entry good n]"
    and "fifo_ok (push_metadata good n d)"
proof -
  let ?d = "push_metadata good n d"
  define k where "k = (if fifo_depth d < 256 then fifo_depth d else 0)"
  define w where "w = implicitWrite (fifo d)"
  define r where "r = (if fifo_depth d < 256 then implicitRead (fifo d) else w)"
  note F = push_metadata_fifo_fields(1-3) [OF ok, of good n, folded w_def, folded r_def]
    push_metadata_fifo_fields(4) [OF ok, folded w_def, folded r_def, folded k_def]
  have len: "length (implicitFrames (fifo d)) = 256" using ok by (simp add: fifo_ok_def)
  have wr: "w = r + of_nat k" using word_of_unat [OF F(4)] by (metis add.commute diff_add_cancel)
  have kl: "k < 256" by (simp add: k_def)
  have dep: "fifo_depth ?d = Suc k"
  proof -
    have "unat (w - r) + 1 < 2 ^ 64" using F(4) kl by simp
    then have "unat (w + of_nat 1 - r) = unat (w - r) + 1" by (rule cursor_advance_head)
    then show ?thesis unfolding fifo_depth_def [of ?d] F(1,2) by (simp only: F(4) of_nat_1 Suc_eq_plus1)
  qed
  let ?e = "metadata_entry good n"
  have ent: "unat (implicitFrames (fifo ?d) ! unat ((r + of_nat p) AND 255)) =
      (if p = k then ?e else unat (implicitFrames (fifo d) ! unat ((r + of_nat p) AND 255)))" if "p \<le> k" for p
  proof -
    have "(unat r + p) mod 256 = (unat r + k) mod 256 \<longleftrightarrow> p = k"
    proof
      assume "(unat r + p) mod 256 = (unat r + k) mod 256"
      then have "256 dvd k - p" using that mod_eq_dvd_iff_nat [of "unat r + p" "unat r + k" 256] by auto
      then show "p = k" using that kl by (auto dest: dvd_imp_le)
    qed simp
    then show ?thesis
      unfolding F(3) mask255_index wr using len metadata_entry_word [of good n]
      by (auto simp: nth_list_update)
  qed
  have pre: "map (\<lambda>p. unat (implicitFrames (fifo ?d) ! unat ((r + of_nat p) AND 255))) [0..<k] =
      (if fifo_depth d < 256 then fifo_plan d else [])"
    using ent by (auto simp: fifo_plan_def r_def k_def)
  have "fifo_plan ?d = map (\<lambda>p. unat (implicitFrames (fifo ?d) ! unat ((r + of_nat p) AND 255))) [0..<k] @
      [unat (implicitFrames (fifo ?d) ! unat ((r + of_nat k) AND 255))]"
    unfolding fifo_plan_def dep F(2) by simp
  then show "fifo_plan ?d = (if fifo_depth d < 256 then fifo_plan d else []) @ [?e]"
    unfolding pre using ent [of k] by simp
  have "?e < 65536" by (simp add: metadata_entry_def nat_less_iff)
  then have "\<forall>v\<in>set (implicitFrames (fifo ?d)). unat v < 65536"
    using ok metadata_entry_word [of good n] set_update_subset_insert unfolding F(3) fifo_ok_def by fastforce
  then show "fifo_ok ?d" using dep kl len by (simp add: fifo_ok_def F)
qed

section \<open>Copying the packets\<close>

text \<open>The ring as the running copy loop sees it: its producer cursor is still local.\<close>

definition scan_ring :: "capture_scan \<Rightarrow> driver \<Rightarrow> spsc_ring" where
  "scan_ring sc d = (captureRing d)\<lparr>rhead := sc_head sc\<rparr>"

definition scan_ok :: "capture_scan \<Rightarrow> driver \<Rightarrow> bool" where
  "scan_ok sc d \<longleftrightarrow> ring_inv (scan_ring sc d) \<and> 0 < strideOf (captureFormat d) \<and>
     strideOf (captureFormat d) \<le> 4096"

text \<open>Bytes of an \<open>n\<close>-byte packet that are kept when \<open>room\<close> bytes are free.\<close>

definition kept :: "nat \<Rightarrow> nat \<Rightarrow> nat \<Rightarrow> nat" where
  "kept stride room n = min n (room - room mod stride)"

lemma kept_le: "kept s room n \<le> n" "kept s room n \<le> room"
  by (auto simp: kept_def)

lemma keep_packet_put:
  assumes ok: "scan_ok sc d" and n: "0 < n" "n \<le> INT_MAX" "nat n \<le> length bs"
  defines "k \<equiv> kept (captureBytes d) (ring_room (scan_ring sc d)) (nat n)"
  assumes kp: "keep_packet bs n (rtail (captureRing d)) sc d = (sc', d')"
  shows "scan_ring sc' d' = ring_put (take k bs) (scan_ring sc d)"
    "captureOverruns (ccnt d') = captureOverruns (ccnt d) + (if k < nat n then 1 else 0)"
    "sc_cursor sc' = sc_cursor sc" "rhead (captureRing d') = rhead (captureRing d)"
    "rtail (captureRing d') = rtail (captureRing d)"
proof -
  let ?r = "scan_ring sc d" and ?s = "captureBytes d"
  have inv: "ring_inv ?r" using ok by (simp add: scan_ok_def)
  have r: "store ?r = store (captureRing d)" "rmask ?r = rmask (captureRing d)" "rtail ?r = rtail (captureRing d)"
    "rhead ?r = sc_head sc" by (simp_all add: scan_ring_def)
  have s: "unat (size_of_int (strideOf (captureFormat d))) = ?s"
    using ok by (simp add: scan_ok_def captureBytes_def)
  let ?free = "of_nat (length (store (captureRing d))) - (sc_head sc - rtail (captureRing d)) :: u64"
  have "sc_head sc - rtail (captureRing d) \<le> of_nat (length (store (captureRing d)))"
    using ring_inv_len(1) [OF inv] capacity_word [OF inv]
    by (simp add: word_le_nat_alt ring_len_def ringSize_def r)
  then have free: "unat ?free = ring_room ?r"
    using capacity_word [OF inv] by (simp add: unat_sub ring_room_def ring_len_def ringSize_def r)
  define keep where "keep = min (size_of_int n) (?free - ?free mod size_of_int (strideOf (captureFormat d)))"
  have "?free mod size_of_int (strideOf (captureFormat d)) \<le> ?free"
    by (simp add: word_le_nat_alt unat_mod)
  then have keep: "unat keep = k"
    using n by (simp add: keep_def unat_min unat_sub unat_mod free s k_def kept_def)
  then have kw: "keep = of_nat k" by (rule word_of_unat)
  have lt: "keep < size_of_int n \<longleftrightarrow> k < nat n" using n by (simp add: word_less_nat_alt keep)
  define off where "off = sc_head sc AND rmask (captureRing d)"
  have off: "unat off = ring_offset ?r (rhead ?r)" by (simp add: ring_offset_def r off_def)
  have "ring_offset ?r (rhead ?r) < length (store ?r)"
    using inv by (intro ring_offset_less) (simp add: ring_inv_def)
  then have "unat (of_nat (length (store (captureRing d))) - off) = length (store ?r) - ring_offset ?r (rhead ?r)"
    using capacity_word [OF inv] off by (simp add: unat_sub word_le_nat_alt r)
  then have first: "unat (min keep (of_nat (length (store (captureRing d))) - off)) =
      first_span ?r (rhead ?r) k"
    by (simp add: unat_min keep first_span_def)
  have lk: "length (take k bs) = k" using n(3) kept_le(1) [of ?s "ring_room ?r" "nat n"] by (simp add: k_def)
  define d1 where "d1 = (if keep < size_of_int n then ccnt_update (captureOverruns_update (\<lambda>x. x + 1)) d else d)"
  have e: "sc' = sc\<lparr>sc_head := sc_head sc + keep, sc_total := sc_total sc + int_of_size (keep div size_of_int (strideOf (captureFormat d)))\<rparr>"
    "d' = captureRing_update (store_update
            (span_write (ring_offset ?r (rhead ?r)) (first_span ?r (rhead ?r) k) (take k bs))) d1"
    using kp unfolding keep_packet_def Let_def keep_def [symmetric] off_def [symmetric] d1_def [symmetric] first off keep by simp_all
  show "scan_ring sc' d' = ring_put (take k bs) ?r"
    unfolding ring_put_def lk by (simp add: e scan_ring_def d1_def kw)
  show "captureOverruns (ccnt d') = captureOverruns (ccnt d) + (if k < nat n then 1 else 0)"
    "sc_cursor sc' = sc_cursor sc" "rhead (captureRing d') = rhead (captureRing d)"
    "rtail (captureRing d') = rtail (captureRing d)" using lt by (simp_all add: e d1_def)
qed

text \<open>What a completed IN transfer adds to the ring: of every good packet the whole frames that
  still fit.  The packet's bytes start after the nominal lengths of the packets before it.\<close>

fun captured_audio :: "xfer \<Rightarrow> nat \<Rightarrow> nat \<Rightarrow> nat \<Rightarrow> iso_packet list \<Rightarrow> bytes" where
  "captured_audio x stride room cursor [] = []"
| "captured_audio x stride room cursor (p # ps) =
     (let k = (if packet_ok x (int stride) p then kept stride room (unat (pk_actual p)) else 0)
      in take k (drop cursor (xf_buffer x)) @
         captured_audio x stride (room - k) (cursor + unat (pk_length p)) ps)"

text \<open>libusb reports at most the requested length of a packet, and the buffer holds all packets.\<close>

fun packets_fit :: "nat \<Rightarrow> nat \<Rightarrow> iso_packet list \<Rightarrow> bool" where
  "packets_fit cursor len [] \<longleftrightarrow> True"
| "packets_fit cursor len (p # ps) \<longleftrightarrow>
     cursor + unat (pk_actual p) \<le> len \<and> packets_fit (cursor + unat (pk_length p)) len ps"

lemma packet_ok_actual:
  assumes "packet_ok x stride p"
  shows "sint (pk_actual p) = int (unat (pk_actual p))" "0 < sint (pk_actual p)" "sint (pk_actual p) \<le> INT_MAX"
proof -
  have p: "0 < sint (pk_actual p)" using assms by (simp add: packet_ok_def)
  have "uint (word_of_int (sint (pk_actual p)) :: u32) = sint (pk_actual p)"
    using p sint_lt [of "pk_actual p"] by (intro word_of_int_inverse) simp_all
  then show "sint (pk_actual p) = int (unat (pk_actual p))" by simp
  show "0 < sint (pk_actual p)" by (rule p)
  show "sint (pk_actual p) \<le> INT_MAX" using sint_lt [of "pk_actual p"] by simp
qed

lemma push_metadata_frame [simp]:
  "captureRing (push_metadata g n d) = captureRing d" "captureFormat (push_metadata g n d) = captureFormat d"
  "mode (push_metadata g n d) = mode d" "pace (push_metadata g n d) = pace d"
  "pendingImplicit (push_metadata g n d) = pendingImplicit d" "idle d (push_metadata g n d)"
  "captureOverruns (ccnt (push_metadata g n d)) = captureOverruns (ccnt d)"
  "ses (push_metadata g n d) = ses d" "fmt (push_metadata g n d) = fmt d"
  by (simp_all add: push_metadata_def Let_def idle_def steady_def)

text \<open>Everything the copy loop leaves alone: playback, its packet plan's shape, the modes.\<close>

definition capture_frame :: "driver \<Rightarrow> driver \<Rightarrow> bool" where
  "capture_frame d d' \<longleftrightarrow> idle d d' \<and> pendingImplicit d' = pendingImplicit d \<and> mode d' = mode d \<and>
     pace d' = pace d \<and> (fifo_ok d \<longrightarrow> fifo_ok d') \<and>
     rhead (captureRing d') = rhead (captureRing d) \<and> rtail (captureRing d') = rtail (captureRing d)"

lemma capture_frame_trans: "capture_frame a b \<Longrightarrow> capture_frame b c \<Longrightarrow> capture_frame a c"
  by (auto simp: capture_frame_def intro: idle_trans)

lemma capture_store_frame:
  "capture_frame d (captureRing_update (store_update f) (if c then ccnt_update g d else d)) \<and>
   fifo (captureRing_update (store_update f) (if c then ccnt_update g d else d)) = fifo d"
  by (cases c) (simp_all add: capture_frame_def idle_def steady_def fifo_ok_def fifo_depth_def)

lemma keep_packet_frame: "keep_packet bs n t sc d = (sc', d') \<Longrightarrow> capture_frame d d' \<and> fifo d' = fifo d"
  unfolding keep_packet_def Let_def prod.inject by (elim conjE, hypsubst, rule capture_store_frame)

lemma capture_packet_step:
  assumes c: "capture_packet x (rtail (captureRing d)) p (sc, d) = (sc', d')" and ok: "scan_ok sc d"
    and fit: "sc_cursor sc + unat (pk_actual p) \<le> length (xf_buffer x)"
  defines "k \<equiv> (if packet_ok x (int (captureBytes d)) p
      then kept (captureBytes d) (ring_room (scan_ring sc d)) (unat (pk_actual p)) else 0)"
  shows "scan_ring sc' d' = ring_put (take k (drop (sc_cursor sc) (xf_buffer x))) (scan_ring sc d)"
    "capture_frame d d'" "sc_cursor sc' = sc_cursor sc + unat (pk_length p)"
proof -
  let ?good = "packet_ok x (strideOf (captureFormat d)) p" and ?n = "sint (pk_actual p)"
  have s: "strideOf (captureFormat d) = int (captureBytes d)" using ok by (simp add: scan_ok_def captureBytes_def)
  define d1 where "d1 = (if ?good then d else ccnt_update (capturePacketDrops_update (\<lambda>x. x + 1)) d)"
  define d2 where "d2 = (if implicitFeedback (captureFormat d) \<and> feedbackEndpointAddress (fmt d) = 0
      then push_metadata ?good (cdiv ?n (strideOf (captureFormat d))) d1 else d1)"
  have f: "capture_frame d d1" "capture_frame d1 d2"
    by (simp_all add: d1_def d2_def capture_frame_def idle_def steady_def push_metadata_plan)
      (simp_all add: push_metadata_def Let_def fifo_ok_def fifo_depth_def)
  have r2: "captureRing d2 = captureRing d" "captureFormat d2 = captureFormat d" by (simp_all add: d2_def d1_def)
  then have same: "scan_ring sc d2 = scan_ring sc d" "scan_ok sc d2" "captureBytes d2 = captureBytes d"
    using ok by (simp_all add: scan_ring_def scan_ok_def captureBytes_def)
  have fm: "fmt d1 = fmt d" "captureFormat d1 = captureFormat d" by (simp_all add: d1_def)
  have body: "(sc', d') = (case (if ?good then keep_packet (drop (sc_cursor sc) (xf_buffer x)) ?n (rtail (captureRing d)) sc d2
      else (sc, d2)) of (sc3, d3) \<Rightarrow> (sc3\<lparr>sc_cursor := sc_cursor sc + unat (pk_length p)\<rparr>, d3))"
    using c unfolding capture_packet_def Let_def prod.case d1_def [symmetric] d2_def [symmetric] by (rule sym)
  show "scan_ring sc' d' = ring_put (take k (drop (sc_cursor sc) (xf_buffer x))) (scan_ring sc d)"
    "capture_frame d d'" "sc_cursor sc' = sc_cursor sc + unat (pk_length p)"
  proof -
    have G: "scan_ring sc' d' = ring_put (take k (drop (sc_cursor sc) (xf_buffer x))) (scan_ring sc d) \<and>
      capture_frame d2 d' \<and> sc_cursor sc' = sc_cursor sc + unat (pk_length p)"
    proof (cases ?good)
      case False
      then have "sc' = sc\<lparr>sc_cursor := sc_cursor sc + unat (pk_length p)\<rparr>" "d' = d2" "k = 0"
        using body s by (simp_all add: k_def)
      then show ?thesis
        using r2 by (simp add: scan_ring_def ring_put_def span_write_def capture_frame_def)
    next
      case True
      note a = packet_ok_actual [OF True]
      obtain sc3 d3 where kp: "keep_packet (drop (sc_cursor sc) (xf_buffer x)) ?n (rtail (captureRing d2)) sc d2 = (sc3, d3)"
        by fastforce
      have e: "sc' = sc3\<lparr>sc_cursor := sc_cursor sc + unat (pk_length p)\<rparr>" "d' = d3"
        using body True kp r2 by simp_all
      have nn: "nat ?n = unat (pk_actual p)" "nat ?n \<le> length (drop (sc_cursor sc) (xf_buffer x))"
        using a(1) fit by simp_all
      note K = keep_packet_put [OF same(2) a(2,3) nn(2) kp]
      show ?thesis
        using K(1) keep_packet_frame [OF kp] True s
        by (simp add: e same scan_ring_def k_def nn(1) r2)
    qed
    then show "scan_ring sc' d' = ring_put (take k (drop (sc_cursor sc) (xf_buffer x))) (scan_ring sc d)"
      "capture_frame d d'" "sc_cursor sc' = sc_cursor sc + unat (pk_length p)"
      using capture_frame_trans [OF capture_frame_trans [OF f]] by blast+
  qed
qed

lemma captured_audio_fits: "length (captured_audio x s room c ps) \<le> room"
proof (induction ps arbitrary: room c)
  case (Cons p ps)
  let ?k = "if packet_ok x (int s) p then kept s room (unat (pk_actual p)) else 0"
  have "?k \<le> room" by (simp add: kept_le)
  moreover have "length (take ?k (drop c (xf_buffer x))) \<le> ?k" by simp
  moreover have "length (captured_audio x s (room - ?k) (c + unat (pk_length p)) ps) \<le> room - ?k" by (rule Cons.IH)
  ultimately show ?case unfolding captured_audio.simps Let_def length_append by linarith
qed simp

lemma scan_packets:
  "fold (capture_packet x (rtail (captureRing d))) ps (sc, d) = (sc', d') \<Longrightarrow> scan_ok sc d \<Longrightarrow>
   packets_fit (sc_cursor sc) (length (xf_buffer x)) ps \<Longrightarrow>
   scan_ok sc' d' \<and> capture_frame d d' \<and>
   ring_contents (scan_ring sc' d') = ring_contents (scan_ring sc d) @
     captured_audio x (captureBytes d) (ring_room (scan_ring sc d)) (sc_cursor sc) ps"
proof (induction ps arbitrary: sc d)
  case Nil
  then show ?case by (auto simp: capture_frame_def)
next
  case (Cons p ps)
  obtain sc1 d1 where c: "capture_packet x (rtail (captureRing d)) p (sc, d) = (sc1, d1)" by fastforce
  let ?s = "captureBytes d" and ?r = "scan_ring sc d"
  define k where "k = (if packet_ok x (int ?s) p then kept ?s (ring_room ?r) (unat (pk_actual p)) else 0)"
  define bs where "bs = take k (drop (sc_cursor sc) (xf_buffer x))"
  have fit: "sc_cursor sc + unat (pk_actual p) \<le> length (xf_buffer x)" using Cons.prems(3) by simp
  note S = capture_packet_step [OF c Cons.prems(2) fit, folded k_def, folded bs_def]
  have "k \<le> ring_room ?r" "k \<le> unat (pk_actual p)" by (simp_all add: k_def kept_le)
  then have bs: "length bs \<le> ring_room ?r" "length bs = k" using fit by (simp_all add: bs_def)
  have inv: "ring_inv ?r" using Cons.prems(2) by (simp add: scan_ok_def)
  have st: "length (store (scan_ring sc1 d1)) = length (store ?r)"
    using ring_put_shape [of ?r bs] bs inv by (simp add: S(1) ring_inv_def ring_room_def)
  have put: "ring_contents (scan_ring sc1 d1) = ring_contents ?r @ bs" "ring_inv (scan_ring sc1 d1)"
    "ring_room (scan_ring sc1 d1) = ring_room ?r - k"
    using ring_put_contents [OF inv bs(1)] ring_put_inv [OF inv bs(1)] ring_put_len [OF inv bs(1)] bs(2) st
    by (simp_all add: S(1) ring_room_def)
  have f1: "captureFormat d1 = captureFormat d" "rtail (captureRing d1) = rtail (captureRing d)"
    "captureBytes d1 = ?s" using S(2) by (simp_all add: capture_frame_def idle_def captureBytes_def)
  have "scan_ok sc1 d1" using Cons.prems(2) put(2) f1 by (simp add: scan_ok_def)
  moreover have "fold (capture_packet x (rtail (captureRing d1))) ps (sc1, d1) = (sc', d')"
    using Cons.prems(1) c f1 by simp
  moreover have "packets_fit (sc_cursor sc1) (length (xf_buffer x)) ps" using Cons.prems(3) S(3) by simp
  ultimately have ih: "scan_ok sc' d' \<and> capture_frame d1 d' \<and>
     ring_contents (scan_ring sc' d') = ring_contents (scan_ring sc1 d1) @
     captured_audio x (captureBytes d1) (ring_room (scan_ring sc1 d1)) (sc_cursor sc1) ps"
    by (intro Cons.IH)
  then show ?case
    using capture_frame_trans [OF S(2)] put(1,3)
    by (simp add: f1 Let_def k_def [symmetric] bs_def [symmetric] S(3))
qed

section \<open>The handler\<close>

text \<open>Everything up to the publication of the new cursor.\<close>

lemma capture_scan_publish:
  fixes e :: env
  assumes sc: "capture_scan_all x d = (sc, d1)" and ok: "capture_ok d"
    and fit: "packets_fit 0 (length (xf_buffer x)) (xf_pkts x)"
  defines "d2 \<equiv> capture_publish e sc d1"
  shows "ring_contents (captureRing d2) = ring_contents (captureRing d) @
      captured_audio x (captureBytes d) (ring_room (captureRing d)) 0 (xf_pkts x)"
    and "ring_inv (captureRing d2)" "idle d d2" "pendingImplicit d2 = pendingImplicit d" "mode d2 = mode d"
    and "fifo_ok d \<longrightarrow> fifo_ok d2"
proof -
  let ?sc = "\<lparr>sc_head = rhead (captureRing d), sc_total = 0, sc_cursor = 0\<rparr>"
  have r: "scan_ring ?sc d = captureRing d" by (simp add: scan_ring_def)
  have "scan_ok ?sc d" using ok r by (simp add: scan_ok_def capture_ok_def)
  then have S: "scan_ok sc d1" "capture_frame d d1"
    "ring_contents (scan_ring sc d1) = ring_contents (captureRing d) @
       captured_audio x (captureBytes d) (ring_room (captureRing d)) 0 (xf_pkts x)"
    using scan_packets [of x d "xf_pkts x" ?sc sc d1] sc fit r by (auto simp: capture_scan_all_def)
  have c2: "captureRing d2 = scan_ring sc d1"
    by (simp add: d2_def capture_publish_def Let_def scan_ring_def)
  have "idle d1 d2" "pendingImplicit d2 = pendingImplicit d1" "mode d2 = mode d1" "fifo d2 = fifo d1"
    by (simp_all add: d2_def capture_publish_def Let_def idle_def steady_def)
  then show "idle d d2" "pendingImplicit d2 = pendingImplicit d" "mode d2 = mode d" "fifo_ok d \<longrightarrow> fifo_ok d2"
    using S(2) idle_trans [of d d1 d2] fifo_ok_cong [of d2 d1] by (simp_all add: capture_frame_def)
  show "ring_contents (captureRing d2) = ring_contents (captureRing d) @
      captured_audio x (captureBytes d) (ring_room (captureRing d)) 0 (xf_pkts x)"
    "ring_inv (captureRing d2)" using S by (simp_all add: c2 scan_ok_def)
qed

lemma sends_retire_capture:
  assumes "sends d d' calls lost"
  shows "sends (retire_capture d) (retire_capture d') calls lost"
proof -
  have "transport_ok (retire_capture d') = transport_ok d'"
    by (intro transport_ok_cong) (simp_all add: retire_capture_def)
  then show ?thesis using assms by (simp add: sends_def steady_def frames_sum_def retire_capture_def)
qed

lemma sends_resubmit_capture:
  assumes s: "sends d d1 calls []" and k: "xf_kind x = InEndpoint" and u: "usb e (Submit x) d1 = (rc, d2)"
  defines "d3 \<equiv> (if rc \<noteq> 0 then markTransportFailed (count_capture_error (retire_capture d2)) else d2)"
  shows "sends (retire_capture d) d3 (calls @ [(Submit x, rc)]) []"
proof -
  have d2: "d2 = d1\<lparr>bus := bus d1 @ [(Submit x, rc)]\<rparr>" using u by (auto simp: usb_def Let_def)
  have "transport_ok d3 = transport_ok d1"
    by (intro transport_ok_cong) (simp_all add: d3_def d2 retire_capture_def count_capture_error_def)
  then show ?thesis
    using s k by (auto simp: sends_def d3_def d2 steady_def retire_capture_def count_capture_error_def frames_sum_def)
qed

text \<open>The same for the base state without the completed IN transfer.\<close>

lemma retire_capture_ok:
  "pipeline_ok (retire_capture d) = pipeline_ok d" "transport_ok (retire_capture d) = transport_ok d"
  "xfer_ok (retire_capture d) x = xfer_ok d x" "pending_ids (retire_capture d) = pending_ids d"
proof -
  have x: "xfer_ok (retire_capture d) y = xfer_ok d y" for y
    by (simp add: xfer_ok_def frameBytes_def retire_capture_def)
  have t: "transport_ok (retire_capture d) = transport_ok d"
    by (intro transport_ok_cong) (simp_all add: retire_capture_def)
  show "pipeline_ok (retire_capture d) = pipeline_ok d" unfolding pipeline_ok_def x t
    by (simp add: retire_capture_def implicit_mode_def)
  show "transport_ok (retire_capture d) = transport_ok d" "xfer_ok (retire_capture d) x = xfer_ok d x"
    by (rule t, rule x)
  show "pending_ids (retire_capture d) = pending_ids d" by (simp add: pending_ids_def retire_capture_def)
qed

lemma retire_capture_mode:
  "mode (retire_capture d) = mode d" "fmt (retire_capture d) = fmt d"
  "captureFormat (retire_capture d) = captureFormat d" "pendingImplicit (retire_capture d) = pendingImplicit d"
  by (simp_all add: retire_capture_def)

lemma onCapture_step:
  assumes law: "packet_law e" and ok: "pipeline_ok d" and cap: "capture_ok d"
    and x: "xf_kind x = InEndpoint" "packets_fit 0 (length (xf_buffer x)) (xf_pkts x)"
  shows "\<exists>calls lost. step_ok (retire_capture d) (onCapture e x d) calls lost [] \<and>
    submitted_xfers FeedbackEndpoint calls = [] \<and>
    (submitted_xfers InEndpoint calls = [x] \<or>
      submitted_xfers InEndpoint calls = [] \<and> (\<not> captureActive (mode (onCapture e x d)) \<or> xf_status x = Cancelled
        \<or> stopRequested (mode (onCapture e x d))))"
proof -
  have p0: "pipeline_ok (retire_capture d)" using ok by (simp add: retire_capture_ok)
  have t0: "transport_ok (retire_capture d)" using ok by (simp add: retire_capture_ok pipeline_ok_def)
  have none: "sends (retire_capture d) d' [] [] \<Longrightarrow> pipeline_ok d' \<Longrightarrow> pending_ids d' = pending_ids d \<Longrightarrow>
      step_ok (retire_capture d) d' [] [] []" for d'
    by (simp add: step_ok_def retire_capture_ok)
  consider (gone) "\<not> captureActive (mode d) \<or> xf_status x = Cancelled \<or> stopRequested (mode d)"
    | (unplugged) "xf_status x = NoDeviceStatus" "captureActive (mode d)" "\<not> (xf_status x = Cancelled \<or> stopRequested (mode d))"
    | (running) "xf_status x \<noteq> NoDeviceStatus" "captureActive (mode d)"
        "\<not> (xf_status x = Cancelled \<or> stopRequested (mode d))" by blast
  then show ?thesis
  proof cases
    case gone
    then have r: "onCapture e x d = retire_capture d" by (auto simp: onCapture_def)
    have "sends (retire_capture d) (retire_capture d) [] []"
      using t0 by (intro idle_sends) (simp_all add: transport_ok_def)
    then show ?thesis
      using none [of "retire_capture d"] p0 gone r
      by (intro exI [of _ "[]"]) (auto simp: retire_capture_ok retire_capture_mode)
  next
    case unplugged
    let ?d = "retire_capture (count_capture_error d)"
    have r: "onCapture e x d = markTransportFailed ?d" using unplugged by (simp add: onCapture_def)
    have "quiet d (count_capture_error d)" by (simp add: count_capture_error_def)
    then have "pipeline_ok ?d" using ok quiet_ok(1) by (simp add: retire_capture_ok)
    then have "pipeline_ok (onCapture e x d)" unfolding r by (rule pipeline_ok_failed)
    moreover have i: "idle (retire_capture d) (onCapture e x d)" "fifo (onCapture e x d) = fifo (retire_capture d)"
      "pending_ids (onCapture e x d) = pending_ids d"
      by (simp_all add: r idle_def steady_def retire_capture_def count_capture_error_def pending_ids_def)
    moreover have "fifo_ok (onCapture e x d)" using t0 fifo_ok_cong [OF i(2)] by (simp add: transport_ok_def)
    ultimately show ?thesis
      using none idle_sends [OF i(1) t0] by (intro exI [of _ "[]"]) (auto simp: r)
  next
    case running
    have nf: "\<not> transportFailed (mode d)" and t: "transport_ok d" using ok running by (auto simp: pipeline_ok_def)
    obtain sc d1 where sc: "capture_scan_all x d = (sc, d1)" by fastforce
    let ?dp = "capture_publish e sc d1"
    note P = capture_scan_publish [OF sc cap x(2), of e]
    have fok: "fifo_ok ?dp" using P(6) t by (simp add: transport_ok_def)
    have sp: "sends d ?dp [] []" by (rule idle_sends [OF P(3) t fok])
    have xo: "xfer_ok ?dp y = xfer_ok d y" for y by (rule idle_ok(4) [OF P(3)])
    define d2 where "d2 = submitPendingImplicitTransfers e ?dp"
    have tp: "transport_ok ?dp" using sp by (simp add: sends_def)
    have "\<forall>y\<in>fst ` set (pendingImplicit ?dp). xfer_ok ?dp y" using ok P(4) xo by (simp add: pipeline_ok_def)
    then obtain calls lost where c: "sends ?dp d2 calls lost"
      "map xf_id (outs calls) @ map (xf_id \<circ> fst) (pendingImplicit d2) = map (xf_id \<circ> fst) (pendingImplicit ?dp)"
      "submitted_xfers InEndpoint calls = []" "submitted_xfers FeedbackEndpoint calls = []"
      "\<forall>y\<in>set (outs calls). xfer_ok ?dp y" "\<forall>y\<in>fst ` set (pendingImplicit d2). xfer_ok ?dp y"
      using submitPending_sends [OF law tp] unfolding d2_def by blast
    define d3 where "d3 = d2\<lparr>captureWake := wake_signalIfWaiting (captureWake d2)\<rparr>"
    have q: "quiet d2 d3" by (simp add: d3_def quiet_def idle_def steady_def)
    then have s3: "sends d d3 calls lost"
      using sends_lost_trans [OF sends_trans [OF sp c(1)]] by (simp add: quiet_def)
    have ids: "map xf_id (outs calls) @ pending_ids d3 = pending_ids d" "pendingImplicit d3 = pendingImplicit d2"
      using c(2) P(4) q by (simp_all add: pending_ids_def quiet_def)
    have finish: "step_ok (retire_capture d) d' calls' lost' [] \<and> submitted_xfers FeedbackEndpoint calls' = []"
      if "sends (retire_capture d) d' calls' lost'" "pendingImplicit d' = pendingImplicit d3"
        "outs calls' = outs calls" "submitted_xfers FeedbackEndpoint calls' = []" for d' calls' lost'
    proof -
      have "length (pendingImplicit d3) \<le> length (pendingImplicit d)"
        using arg_cong [OF ids(1), of length] by (simp add: pending_ids_def)
      then have "pipeline_ok d'"
        using that(2) ids(2) c(6) xo ok nf running
        by (intro pipeline_okI [OF that(1) ok nf])
          (auto simp: retire_capture_ok retire_capture_mode pipeline_ok_def)
      then show ?thesis
        using that ids c(5) xo unfolding step_ok_def
        by (intro conjI exI [of _ "[]"]) (simp_all add: retire_capture_ok retire_capture_mode pending_ids_def)
    qed
    have body: "onCapture e x d = (if transportFailed (mode d3) then retire_capture d3
        else case usb e (Submit x) d3 of (rc, d4) \<Rightarrow>
          if rc \<noteq> 0 then markTransportFailed (count_capture_error (retire_capture d4)) else d4)"
      using running by (simp add: onCapture_def sc Let_def d2_def d3_def)
    show ?thesis
    proof (cases "transportFailed (mode d3)")
      case True
      then have "stopRequested (mode d3)" using s3 nf by (auto simp: sends_def steady_def)
      then show ?thesis
        using finish [OF sends_retire_capture [OF s3]] c(3,4) True body
        by (intro exI [of _ calls] exI [of _ lost]) (simp add: retire_capture_def)
    next
      case False
      obtain rc d4 where u: "usb e (Submit x) d3 = (rc, d4)" by fastforce
      have l: "lost = []" using s3 False by (simp add: sends_def)
      have pd: "pendingImplicit (onCapture e x d) = pendingImplicit d3"
        using u False body by (auto simp: usb_def Let_def retire_capture_def count_capture_error_def)
      have sx: "sends (retire_capture d) (onCapture e x d) (calls @ [(Submit x, rc)]) []"
        using sends_resubmit_capture [OF s3 [unfolded l] x(1) u] False u body by simp
      show ?thesis
        using finish [OF sx pd] c(3,4) x(1) False u body
        by (intro exI [of _ "calls @ [(Submit x, rc)]"] exI [of _ "[]"]) auto
    qed
  qed
qed

text \<open>The capture ring after the handler: a completion that is processed appends the captured
  audio, every other one leaves the ring alone.\<close>

definition capture_processed :: "xfer \<Rightarrow> driver \<Rightarrow> bool" where
  "capture_processed x d \<longleftrightarrow> captureActive (mode d) \<and> \<not> stopRequested (mode d) \<and>
     xf_status x \<noteq> Cancelled \<and> xf_status x \<noteq> NoDeviceStatus"

lemma onCapture_ring:
  assumes law: "packet_law e" and ok: "pipeline_ok d" and cap: "capture_ok d"
    and x: "packets_fit 0 (length (xf_buffer x)) (xf_pkts x)"
  shows "ring_contents (captureRing (onCapture e x d)) = ring_contents (captureRing d) @
      (if capture_processed x d
       then captured_audio x (captureBytes d) (ring_room (captureRing d)) 0 (xf_pkts x) else [])"
    and "ring_inv (captureRing (onCapture e x d))"
proof -
  have inv: "ring_inv (captureRing d)" using cap by (simp add: capture_ok_def)
  have "ring_contents (captureRing (onCapture e x d)) = ring_contents (captureRing d) @
      (if capture_processed x d
       then captured_audio x (captureBytes d) (ring_room (captureRing d)) 0 (xf_pkts x) else []) \<and>
    ring_inv (captureRing (onCapture e x d))"
  proof (cases "capture_processed x d")
    case False
    then have "captureRing (onCapture e x d) = captureRing d"
      by (auto simp: onCapture_def capture_processed_def retire_capture_def count_capture_error_def)
    then show ?thesis using False inv by simp
  next
    case True
    obtain sc d1 where sc: "capture_scan_all x d = (sc, d1)" by fastforce
    let ?dp = "capture_publish e sc d1"
    note P = capture_scan_publish [OF sc cap x, of e]
    have t: "transport_ok d" using ok by (simp add: pipeline_ok_def)
    have "transport_ok ?dp" using idle_ok [OF P(3)] P(6) t by (simp add: transport_ok_def)
    moreover have "\<forall>y\<in>fst ` set (pendingImplicit ?dp). xfer_ok ?dp y"
      using ok P(4) idle_ok(4) [OF P(3)] by (simp add: pipeline_ok_def)
    ultimately have "captureRing (submitPendingImplicitTransfers e ?dp) = captureRing ?dp"
      using submitPending_sends [OF law] by blast
    then have "captureRing (onCapture e x d) = captureRing ?dp"
      using True by (simp add: onCapture_def capture_processed_def sc Let_def usb_def
          retire_capture_def count_capture_error_def)
    then show ?thesis using P(1,2) True by simp
  qed
  then show "ring_contents (captureRing (onCapture e x d)) = ring_contents (captureRing d) @
      (if capture_processed x d
       then captured_audio x (captureBytes d) (ring_room (captureRing d)) 0 (xf_pkts x) else [])"
    "ring_inv (captureRing (onCapture e x d))" by simp_all
qed

text \<open>Whole frames in, whole frames kept.\<close>

lemma captured_audio_aligned:
  assumes "0 < s"
  shows "(\<forall>p\<in>set ps. s dvd unat (pk_actual p)) \<Longrightarrow> packets_fit c (length (xf_buffer x)) ps \<Longrightarrow>
    s dvd length (captured_audio x s room c ps)"
proof (induction ps arbitrary: room c)
  case (Cons p ps)
  define k where "k = (if packet_ok x (int s) p then kept s room (unat (pk_actual p)) else 0)"
  have "s dvd room - room mod s" by (rule dvd_minus_mod)
  then have "s dvd k" using Cons.prems(1) by (auto simp: k_def kept_def min_def)
  moreover have "k \<le> unat (pk_actual p)" by (simp add: k_def kept_le)
  then have "length (take k (drop c (xf_buffer x))) = k" using Cons.prems(2) by auto
  ultimately show ?case
    using Cons.IH [of "c + unat (pk_length p)" "room - k"] Cons.prems by (simp add: Let_def k_def [symmetric])
qed simp

section \<open>Feedback completions\<close>

lemma apply_feedback_quiet:
  "idle d (apply_feedback x d)" "fifo (apply_feedback x d) = fifo d" "mode (apply_feedback x d) = mode d"
  "pendingImplicit (apply_feedback x d) = pendingImplicit d" "captureRing (apply_feedback x d) = captureRing d"
  by (simp_all add: apply_feedback_def Let_def count_playback_error_def idle_def steady_def)

lemma onFeedback_step:
  assumes ok: "pipeline_ok d" and x: "xf_kind x = FeedbackEndpoint"
  shows "\<exists>calls. step_ok (retire_out d) (onFeedback e x d) calls [] [] \<and> outs calls = [] \<and>
    submitted_xfers InEndpoint calls = [] \<and> captureRing (onFeedback e x d) = captureRing d \<and>
    (submitted_xfers FeedbackEndpoint calls = [x] \<or> submitted_xfers FeedbackEndpoint calls = [])"
proof -
  have t: "transport_ok d" using ok by (simp add: pipeline_ok_def)
  have r0: "transport_ok (retire_out d) = transport_ok d" by (intro transport_ok_cong) (simp_all add: retire_defs)
  have x0: "xfer_ok (retire_out d) y = xfer_ok d y" for y by (simp add: retire_defs xfer_ok_def frameBytes_def)
  define d' where "d' = onFeedback e x d"
  define calls where "calls = (if xf_status x = Cancelled \<or> stopRequested (mode d) \<or> xf_status x = NoDeviceStatus then []
    else [(Submit x, fst (usb e (Submit x) (apply_feedback x d)))])"
  note q = apply_feedback_quiet [where d = d and x = x]
  have f: "fifo d' = fifo d" "ring d' = ring d" "fmt d' = fmt d" "buf d' = buf d" "captureFormat d' = captureFormat d"
    "maxFramesPerPacket (pace d') = maxFramesPerPacket (pace d)" "writtenFrames (led d') = writtenFrames (led d)"
    "playedFrames (led d') = playedFrames (led d)" "pendingImplicit d' = pendingImplicit d"
    "captureRing d' = captureRing d" "steady d d'"
    using q by (auto simp: d'_def onFeedback_def retire_defs usb_def Let_def idle_def steady_def)
  have t': "transport_ok d'" using t transport_ok_cong [of d' d] f by simp
  have "queuedOutFrames (led d') = queuedOutFrames (led d)" "captureInflight (led d') = captureInflight (led d)"
    "inflight (led d') = inflight (led d) - 1 + int (length (submitted_xfers FeedbackEndpoint calls))" "bus d' = bus d @ calls"
    using q x by (auto simp: d'_def calls_def onFeedback_def retire_defs usb_def Let_def idle_def)
  moreover have c: "outs calls = []" "submitted_xfers InEndpoint calls = []"
    "submitted_xfers FeedbackEndpoint calls = [x] \<or> submitted_xfers FeedbackEndpoint calls = []"
    using x by (auto simp: calls_def)
  ultimately have s: "sends (retire_out d) d' calls []"
    using t' f by (simp add: sends_def retire_defs steady_def)
  have "xfer_ok d' y = xfer_ok d y" for y using f by (simp add: xfer_ok_def frameBytes_def)
  then have "pipeline_ok d'"
    using ok t' f by (auto simp: pipeline_ok_def implicit_mode_def steady_def)
  then have "step_ok (retire_out d) d' calls [] []"
    using s c f by (simp add: step_ok_def pending_ids_def retire_defs)
  then show ?thesis using c f unfolding d'_def by blast
qed

text \<open>A feedback rate is stored only if it is positive and within the packet capacity.\<close>

lemma apply_feedback_rate:
  assumes "0 \<le> maxFramesPerPacket (pace d)" "maxFramesPerPacket (pace d) < 65536"
    and "0 < framesPerUframe_q16 (pace d)" "unat (framesPerUframe_q16 (pace d)) \<le> nat (maxFramesPerPacket (pace d)) * 65536"
  shows "0 < framesPerUframe_q16 (pace (apply_feedback x d))"
    "unat (framesPerUframe_q16 (pace (apply_feedback x d))) \<le> nat (maxFramesPerPacket (pace d)) * 65536"
proof -
  define w where "w = (ucast (feedback_q16 (sint (pk_actual (xf_pkts x ! 0))) (xf_buffer x)) :: u64) *
    size_of_int (packetIntervalUframes (pace d))"
  let ?m = "maxFramesPerPacket (pace d)"
  have m: "unat (push_bit 16 (size_of_int ?m)) = nat ?m * 65536"
    using assms(1,2) by (simp add: push_bit_eq_mult unat_word_ariths)
  have small: "unat (u32_of_size w) = unat w" if "w \<le> push_bit 16 (size_of_int ?m)"
  proof -
    have "unat w \<le> nat ?m * 65536" using that m by (simp add: word_le_nat_alt)
    also have "\<dots> \<le> 65535 * 65536" using assms(2) by (intro mult_le_mono1) simp
    finally have "unat w < 2 ^ 32" by simp
    then show ?thesis by (simp add: u32_of_size_def unsigned_ucast_eq take_bit_nat_eq_self)
  qed
  have "framesPerUframe_q16 (pace (apply_feedback x d)) = framesPerUframe_q16 (pace d) \<or>
      (0 < w \<and> w \<le> push_bit 16 (size_of_int ?m) \<and> framesPerUframe_q16 (pace (apply_feedback x d)) = u32_of_size w)"
    by (simp add: apply_feedback_def Let_def w_def count_playback_error_def)
  then show "0 < framesPerUframe_q16 (pace (apply_feedback x d))"
    "unat (framesPerUframe_q16 (pace (apply_feedback x d))) \<le> nat ?m * 65536"
    using assms small m by (auto simp: word_less_nat_alt word_le_nat_alt)
qed

section \<open>A concrete duplex stream\<close>

text \<open>The playback stream of the previous demonstration with a mono 16-bit capture direction, and an
  IN transfer of one packet that received two frames.\<close>

definition demo_duplex :: driver where
  "demo_duplex = demo_stream
     \<lparr>captureRing := emptyRing 16,
      captureFormat := defaultStreamFormat\<lparr>channels := 1, bytesPerSample := 2, implicitFeedback := True\<rparr>,
      mode := initModes\<lparr>streaming := True, playbackStarted := True, captureActive := True\<rparr>\<rparr>"

definition demo_in :: xfer where
  "demo_in = \<lparr>xf_id = 9, xf_kind = InEndpoint, xf_status = Completed, xf_buffer = [9, 8, 7, 6, 0, 0, 0, 0],
     xf_pkts = [\<lparr>pk_length = 8, pk_actual = 4, pk_status = Completed\<rparr>]\<rparr>"

lemma demo_duplex_ok:
  "pipeline_ok demo_duplex" "capture_ok demo_duplex" "xfer_ok demo_duplex demo_xfer"
  "captureBytes demo_duplex = 2" "ring_room (captureRing demo_duplex) = 16" "fifo_ok demo_duplex"
  "ring_contents (captureRing demo_duplex) = []"
proof -
  have c: "ring_inv (emptyRing 16)" "ring_len (emptyRing 16) = 0" using emptyRing_inv [of 4] by simp_all
  show cb: "captureBytes demo_duplex = 2"
    by (simp add: demo_duplex_def captureBytes_def strideOf_def)
  have "transport_ok demo_duplex = transport_ok demo_stream"
    by (intro transport_ok_cong) (simp_all add: demo_duplex_def)
  then show "pipeline_ok demo_duplex"
    using demo_stream_ok(1)
    by (simp add: pipeline_ok_def)
      (simp add: demo_duplex_def demo_stream_def demo_driver_def newDriver_def initModes_def)
  show "capture_ok demo_duplex"
    using c cb unfolding capture_ok_def
    by (simp add: demo_duplex_def strideOf_def demo_stream_def demo_driver_def initBuffering_def)
  show "ring_room (captureRing demo_duplex) = 16" using c by (simp add: demo_duplex_def ring_room_def emptyRing_def)
  show "ring_contents (captureRing demo_duplex) = []" using c by (simp add: demo_duplex_def ring_contents_def)
  show "xfer_ok demo_duplex demo_xfer"
    using demo_stream_ok(2) xfer_ok_cong [of demo_duplex demo_stream] by (simp add: demo_duplex_def)
  show "fifo_ok demo_duplex" using demo_stream_ok(1) fifo_ok_cong [of demo_duplex demo_stream]
    by (simp add: transport_ok_def demo_duplex_def)
qed

section \<open>Properties\<close>

text \<open>C13. The packet-size FIFO is a bounded queue.  Every capture packet appends exactly one entry,
  its frame count (zero for a bad packet); when 256 entries are waiting they are discarded, with
  one overrun counted, so the depth never exceeds 256 and the plan is never read past its end.\<close>

theorem push_metadata_bounded_queue:
  assumes "fifo_ok d"
  shows "fifo_plan (push_metadata good n d) =
      (if fifo_depth d < 256 then fifo_plan d else []) @ [metadata_entry good n] \<and>
    fifo_depth (push_metadata good n d) \<le> 256 \<and>
    metadataFifoOverruns (ccnt (push_metadata good n d)) =
      metadataFifoOverruns (ccnt d) + (if fifo_depth d < 256 then 0 else 1)"
proof -
  have "fifo_ok (push_metadata good n d)" using push_metadata_plan(2) [OF assms] .
  moreover have "metadataFifoOverruns (ccnt (push_metadata good n d)) =
      metadataFifoOverruns (ccnt d) + (if fifo_depth d < 256 then 0 else 1)"
    by (simp add: push_metadata_def Let_def fifo_depth_def word_le_nat_alt)
  ultimately show ?thesis using push_metadata_plan(1) [OF assms] by (simp add: fifo_ok_def)
qed

theorem push_metadata_bounded_queue_witness:
  "fifo_plan (push_metadata True 6 demo_duplex) = fifo_plan demo_duplex @ [6]"
proof -
  have "fifo_depth demo_duplex < 256" by (simp add: demo_duplex_def demo_stream_def fifo_depth_def)
  then show ?thesis
    using push_metadata_bounded_queue [OF demo_duplex_ok(6), of True 6] by (simp add: metadata_entry_def)
qed

text \<open>C11. A capture completion appends and never overwrites.  When it is processed, the capture
  queue grows by the received audio of the good packets, of each as many whole frames as still
  fit, in packet order; bytes already queued are untouched.  A completion that arrives after stop
  or without the device leaves the queue alone.\<close>

theorem onCapture_appends:
  assumes "packet_law e" "pipeline_ok d" "capture_ok d" "packets_fit 0 (length (xf_buffer x)) (xf_pkts x)"
  shows "ring_contents (captureRing (onCapture e x d)) = ring_contents (captureRing d) @
      (if capture_processed x d
       then captured_audio x (captureBytes d) (ring_room (captureRing d)) 0 (xf_pkts x) else []) \<and>
    ring_len (captureRing (onCapture e x d)) \<le> length (store (captureRing (onCapture e x d)))"
  using onCapture_ring [OF assms] by (simp add: ring_inv_def)

theorem onCapture_appends_witness:
  "ring_contents (captureRing (onCapture demo_env demo_in demo_duplex)) = [9, 8, 7, 6]"
proof -
  have "capture_processed demo_in demo_duplex"
    by (simp add: capture_processed_def demo_in_def demo_duplex_def initModes_def)
  then show ?thesis
    using onCapture_appends [OF demo_stream_ok(3) demo_duplex_ok(1,2), of demo_in] demo_duplex_ok(4,5,7)
    by (simp add: demo_in_def kept_def packet_ok_def)
qed

text \<open>C16. A feedback packet cannot push the pacing out of range: whatever the device sends, the
  stored Q16 rate stays positive and within the endpoint's frames per packet.\<close>

theorem feedback_rate_in_range:
  assumes "0 \<le> maxFramesPerPacket (pace d)" "maxFramesPerPacket (pace d) < 65536"
    and "0 < framesPerUframe_q16 (pace d)" "unat (framesPerUframe_q16 (pace d)) \<le> nat (maxFramesPerPacket (pace d)) * 65536"
  shows "0 < framesPerUframe_q16 (pace (apply_feedback x d)) \<and>
    unat (framesPerUframe_q16 (pace (apply_feedback x d))) \<le> nat (maxFramesPerPacket (pace d)) * 65536"
  using apply_feedback_rate [OF assms] by blast

theorem feedback_rate_in_range_witness:
  "0 < framesPerUframe_q16 (pace (apply_feedback demo_in (pace_update (framesPerUframe_q16_update (\<lambda>_. 65536)) demo_duplex)))"
  using feedback_rate_in_range [of "pace_update (framesPerUframe_q16_update (\<lambda>_. 65536)) demo_duplex" demo_in]
  by (simp add: demo_duplex_def demo_stream_def)

end
