(* ===== verification/Streaming.thy ===== *)
theory Streaming
  imports Capture_Completion "HOL-Library.Sublist" "HOL-Library.Multiset"
begin

text \<open>
  The running pipeline: the driver, the transfers libusb holds, and the threads that act on them.
  A step is one call of the render thread (\<open>writePcm\<close>, \<open>readCapturePcm\<close>) or one completion the
  event thread handles (\<open>onIso\<close>, \<open>onCapture\<close>, \<open>onFeedback\<close>), in any order.  libusb may complete
  any transfer it holds, with any status; what it returns is limited by \<open>out_completion\<close> and
  \<open>in_completion\<close>.

  The invariant ties the ledgers of the driver to the transfers in flight and the wire to what the
  application wrote: the payloads of the submitted OUT transfers, in submission order, followed by
  the bytes still queued, are the bytes the driver accepted.
\<close>

section \<open>The system\<close>

record system =
  drv :: driver
  outq :: "xfer list"
  inq :: "xfer list"
  fbq :: "xfer list"
  accepted :: bytes

text \<open>The bytes handed to the host controller so far, in order.\<close>

definition wire :: "driver \<Rightarrow> bytes" where
  "wire d = concat (map payload (submitted_xfers OutEndpoint (bus d)))"

text \<open>A completed OUT transfer comes back with its statuses set; an IN transfer also with its data
  and the lengths received, whole frames within the buffer.  libusb reports a transfer cancelled
  only after the driver, which is then stopping, cancelled it.\<close>

definition out_completion :: "driver \<Rightarrow> xfer \<Rightarrow> xfer \<Rightarrow> bool" where
  "out_completion d x x' \<longleftrightarrow>
     xf_id x' = xf_id x \<and> xf_kind x' = xf_kind x \<and> xf_buffer x' = xf_buffer x \<and>
     map pk_length (xf_pkts x') = map pk_length (xf_pkts x) \<and>
     (xf_status x' = Cancelled \<longrightarrow> stopRequested (mode d))"

definition in_completion :: "driver \<Rightarrow> xfer \<Rightarrow> xfer \<Rightarrow> bool" where
  "in_completion d x x' \<longleftrightarrow>
     xf_id x' = xf_id x \<and> xf_kind x' = xf_kind x \<and> length (xf_buffer x') = length (xf_buffer x) \<and>
     packets_fit 0 (length (xf_buffer x')) (xf_pkts x') \<and>
     (\<forall>p\<in>set (xf_pkts x'). captureBytes d dvd unat (pk_actual p)) \<and>
     (xf_status x' = Cancelled \<longrightarrow> stopRequested (mode d))"

text \<open>What a handler newly submitted to an endpoint.\<close>

definition new_submits :: "endpoint_kind \<Rightarrow> driver \<Rightarrow> driver \<Rightarrow> xfer list" where
  "new_submits k d d' = submitted_xfers k (drop (length (bus d)) (bus d'))"

inductive sys_step :: "env \<Rightarrow> system \<Rightarrow> system \<Rightarrow> bool" for e where
  app_write: "0 < n \<Longrightarrow> n \<le> INT_MAX \<Longrightarrow> nat n * frameBytes (drv s) \<le> length data \<Longrightarrow>
    writePcm (Some data) n (drv s) = (got, d') \<Longrightarrow>
    sys_step e s (s\<lparr>drv := d', accepted := accepted s @ take (nat got * frameBytes (drv s)) data\<rparr>)"
| app_read: "0 < n \<Longrightarrow> n \<le> INT_MAX \<Longrightarrow> capturing (drv s) \<Longrightarrow>
    readCapturePcm False n (drv s) = (r, d') \<Longrightarrow> sys_step e s (s\<lparr>drv := d'\<rparr>)"
| out_done: "outq s = a @ x # b \<Longrightarrow> out_completion (drv s) x x' \<Longrightarrow> onIso e x' (drv s) = d' \<Longrightarrow>
    sys_step e s (s\<lparr>drv := d', outq := a @ b @ new_submits OutEndpoint (drv s) d'\<rparr>)"
| in_done: "inq s = a @ x # b \<Longrightarrow> in_completion (drv s) x x' \<Longrightarrow> onCapture e x' (drv s) = d' \<Longrightarrow>
    sys_step e s (s\<lparr>drv := d', outq := outq s @ new_submits OutEndpoint (drv s) d',
      inq := a @ b @ new_submits InEndpoint (drv s) d'\<rparr>)"
| fb_done: "fbq s = a @ x # b \<Longrightarrow> xf_kind x' = xf_kind x \<Longrightarrow> xf_id x' = xf_id x \<Longrightarrow>
    onFeedback e x' (drv s) = d' \<Longrightarrow>
    sys_step e s (s\<lparr>drv := d', fbq := a @ b @ new_submits FeedbackEndpoint (drv s) d'\<rparr>)"

section \<open>The invariant\<close>

definition sys_inv :: "system \<Rightarrow> bool" where
  "sys_inv s \<longleftrightarrow>
     pipeline_ok (drv s) \<and> capture_ok (drv s) \<and>
     (\<forall>x\<in>set (outq s). xfer_ok (drv s) x) \<and>
     (\<forall>x\<in>set (inq s). xf_kind x = InEndpoint) \<and> (\<forall>x\<in>set (fbq s). xf_kind x = FeedbackEndpoint) \<and>
     length (outq s) + length (pendingImplicit (drv s)) \<le> 8 \<and>
     inflight (led (drv s)) = int (length (outq s)) + int (length (fbq s)) \<and>
     captureInflight (led (drv s)) = int (length (inq s)) \<and>
     queuedOutFrames (led (drv s)) = frames_sum (drv s) (outq s) \<and>
     (\<exists>lost. wire (drv s) @ lost @ ring_contents (ring (drv s)) = accepted s \<and>
        (lost = [] \<or> transportFailed (mode (drv s))))"

definition circulating :: "system \<Rightarrow> nat multiset" where
  "circulating s = mset (map xf_id (outq s) @ pending_ids (drv s))"

section \<open>Lemmas\<close>

lemma new_submits_bus: "bus d' = bus d @ calls \<Longrightarrow> new_submits k d d' = submitted_xfers k calls"
  by (simp add: new_submits_def)

lemma wire_bus: "bus d' = bus d @ calls \<Longrightarrow> wire d' = wire d @ concat (map payload (submitted_xfers OutEndpoint calls))"
  by (simp add: wire_def)

lemma unat_sum_list_bound:
  assumes "\<forall>x\<in>set xs. unat (f x :: u64) \<le> B" "length xs * B < 2 ^ 64"
  shows "unat (\<Sum>x\<leftarrow>xs. f x) = (\<Sum>x\<leftarrow>xs. unat (f x)) \<and> (\<Sum>x\<leftarrow>xs. unat (f x)) \<le> length xs * B"
  using assms
proof (induction xs)
  case (Cons a xs)
  then have ih: "unat (\<Sum>x\<leftarrow>xs. f x) = (\<Sum>x\<leftarrow>xs. unat (f x))" "(\<Sum>x\<leftarrow>xs. unat (f x)) \<le> length xs * B"
    and a: "unat (f a) \<le> B" by auto
  have "unat (f a) + (\<Sum>x\<leftarrow>xs. unat (f x)) < 2 ^ 64"
    using ih(2) a Cons.prems(2) by simp
  then show ?case using ih a by (simp add: unat_word_ariths)
qed simp

lemma frames_of_bound: "length (xf_pkts x) \<le> 8 \<Longrightarrow> frames_of d x \<le> 2 ^ 35"
proof -
  assume l: "length (xf_pkts x) \<le> 8"
  have "(\<Sum>p\<leftarrow>ps. unat (pk_length p) div frameBytes d) \<le> length ps * 2 ^ 32" for ps :: "iso_packet list"
  proof (induction ps)
    case (Cons p ps)
    have "unat (pk_length p) div frameBytes d \<le> unat (pk_length p)" by (rule div_le_dividend)
    also have "\<dots> \<le> 2 ^ 32" using unsigned_less [where 'a = nat, of "pk_length p"] by simp
    finally show ?case using Cons.IH by simp
  qed simp
  then have "frames_of d x \<le> length (xf_pkts x) * 2 ^ 32" by (simp add: frames_of_def)
  also have "\<dots> \<le> 8 * 2 ^ 32" using l by (intro mult_le_mono1)
  finally show ?thesis by simp
qed

text \<open>Within the limits of the transfers, the word sum of the ledger does not wrap.\<close>

lemma frames_sum_nat:
  assumes "stride_ok d" "\<forall>x\<in>set xs. xfer_ok d x" "length xs \<le> 8"
  shows "unat (frames_sum d xs) = (\<Sum>x\<leftarrow>xs. frames_of d x)"
proof -
  have t: "unat (transfer_frames (strideOf (fmt d)) x) = frames_of d x" if "x \<in> set xs" for x
    using assms(1,2) that by (intro transfer_frames_nat) (auto simp: xfer_ok_def)
  have "\<forall>x\<in>set xs. unat (transfer_frames (strideOf (fmt d)) x) \<le> 2 ^ 35"
    using t assms(2) frames_of_bound by (auto simp: xfer_ok_def)
  moreover have "length xs * 2 ^ 35 < (2::nat) ^ 64" using assms(3) by simp
  ultimately have "unat (frames_sum d xs) = (\<Sum>x\<leftarrow>xs. unat (transfer_frames (strideOf (fmt d)) x))"
    unfolding frames_sum_def by (intro unat_sum_list_bound [THEN conjunct1])
  also have "\<dots> = (\<Sum>x\<leftarrow>xs. frames_of d x)" using t by (induction xs) simp_all
  finally show ?thesis .
qed

lemma subtractQueued_exact:
  "unat amount \<le> unat current \<Longrightarrow> subtractQueued current amount = current - amount"
proof -
  assume "unat amount \<le> unat current"
  then have "amount < current \<or> amount = current" by (simp add: word_less_nat_alt word_unat_eq_iff le_less)
  then show ?thesis
  proof
    assume "amount < current"
    then have "current \<noteq> 0" by auto
    then show ?thesis using \<open>amount < current\<close> by (simp add: subtractQueued_def)
  qed (simp add: subtractQueued_def)
qed

lemma take_back_ledger:
  assumes "stride_ok d" "\<forall>y\<in>set (a @ x # b). xfer_ok d y" "length (a @ x # b) \<le> 8"
    and "queuedOutFrames (led d) = frames_sum d (a @ x # b)"
  shows "subtractQueued (queuedOutFrames (led d)) (transfer_frames (strideOf (fmt d)) x) = frames_sum d (a @ b)"
proof -
  have "unat (frames_sum d [x]) \<le> unat (frames_sum d (a @ x # b))"
    using frames_sum_nat [OF assms(1), of "[x]"] frames_sum_nat [OF assms(1-3)] assms(2) by simp
  then show ?thesis using subtractQueued_exact [of "frames_sum d [x]"] by (simp add: assms(4))
qed

text \<open>What a handler's step does to the wire.\<close>

lemma sends_wire:
  assumes s: "sends d0 d' calls lost" and d0: "ring d0 = ring d" "bus d0 = bus d" "mode d0 = mode d"
    and ok: "pipeline_ok d" and quiet: "stopRequested (mode d) \<longrightarrow> calls = [] \<and> ring d' = ring d"
    and w: "wire d @ l @ ring_contents (ring d) = acc" "l = [] \<or> transportFailed (mode d)"
  shows "\<exists>l'. wire d' @ l' @ ring_contents (ring d') = acc \<and> (l' = [] \<or> transportFailed (mode d'))"
proof (cases "transportFailed (mode d)")
  case True
  then have "calls = []" "ring d' = ring d" "transportFailed (mode d')"
    using ok quiet s d0 by (auto simp: pipeline_ok_def sends_def steady_def)
  then show ?thesis using w wire_bus [of d' d calls] s d0 by (intro exI [of _ l]) (simp add: sends_def)
next
  case False
  then have "l = []" using w(2) by simp
  moreover have "wire d' = wire d @ concat (map payload (submitted_xfers OutEndpoint calls))"
    using s d0 by (intro wire_bus) (simp add: sends_def)
  ultimately show ?thesis using w(1) s d0 by (intro exI [of _ lost]) (simp add: sends_def)
qed

lemma onIso_stopped: "stopRequested (mode d) \<Longrightarrow> bus (onIso e x d) = bus d \<and> ring (onIso e x d) = ring d"
  by (simp add: onIso_def Let_def retire_defs)

lemma onFeedback_stopped: "stopRequested (mode d) \<Longrightarrow> bus (onFeedback e x d) = bus d \<and> ring (onFeedback e x d) = ring d"
  by (simp add: onFeedback_def Let_def retire_defs)

lemma onCapture_stopped: "stopRequested (mode d) \<Longrightarrow> bus (onCapture e x d) = bus d \<and> ring (onCapture e x d) = ring d"
  by (simp add: onCapture_def Let_def retire_defs)

lemma out_completion_same:
  assumes "out_completion d x x'"
  shows "xfer_ok d x' = xfer_ok d x" "transfer_frames s x' = transfer_frames s x" "xf_id x' = xf_id x"
proof -
  have l: "map pk_length (xf_pkts x') = map pk_length (xf_pkts x)" using assms by (simp add: out_completion_def)
  then have "length (xf_pkts x') = length (xf_pkts x)" by (rule map_eq_imp_length_eq)
  then show "xfer_ok d x' = xfer_ok d x" using assms by (simp add: xfer_ok_def out_completion_def)
  have tf: "transfer_frames s y = (if s > 0 then sum_list (map (\<lambda>n. ucast (n div u32_of_int s)) (map pk_length (xf_pkts y))) else 0)"
    for y :: xfer
    by (simp add: transfer_frames_def comp_def)
  show "transfer_frames s x' = transfer_frames s x" unfolding tf l ..
  show "xf_id x' = xf_id x" using assms by (simp add: out_completion_def)
qed

lemma step_ok_count:
  assumes "step_ok d d' calls lost completed"
  shows "length (outs calls) + length (pendingImplicit d') \<le> length (pendingImplicit d) + length completed"
proof -
  obtain dropped where "map xf_id (outs calls) @ pending_ids d' @ dropped = pending_ids d @ completed"
    using assms by (auto simp: step_ok_def)
  then have "length (map xf_id (outs calls) @ pending_ids d' @ dropped) = length (pending_ids d @ completed)" by simp
  then show ?thesis by (simp add: pending_ids_def)
qed

lemma capture_ok_cong:
  "captureRing d' = captureRing d \<Longrightarrow> captureFormat d' = captureFormat d \<Longrightarrow> buf d' = buf d \<Longrightarrow>
   capture_ok d' = capture_ok d"
  by (simp add: capture_ok_def captureBytes_def)

lemma submitted_kind: "x \<in> set (submitted_xfers k calls) \<Longrightarrow> xf_kind x = k"
proof -
  have "x \<in> set (submitted_call k c) \<Longrightarrow> xf_kind x = k" for c
    by (cases "(k, c)" rule: submitted_call.cases) (auto split: if_splits)
  then show "x \<in> set (submitted_xfers k calls) \<Longrightarrow> xf_kind x = k" by (auto simp: submitted_xfers_def)
qed

text \<open>Any handler: \<open>d0\<close> is the state without the completed transfer, \<open>oq\<close>, \<open>iq\<close>, \<open>fq\<close> are the
  queues without it.\<close>

lemma handler_inv:
  assumes inv: "sys_inv s" and d: "drv s = d" and s: "step_ok d0 d' calls lost completed"
    and d0: "ring d0 = ring d" "bus d0 = bus d" "mode d0 = mode d" "fmt d0 = fmt d"
      "pace d0 = pace d" "pendingImplicit d0 = pendingImplicit d"
    and led: "inflight (led d0) = int (length oq) + int (length fq)" "captureInflight (led d0) = int (length iq)"
      "queuedOutFrames (led d0) = frames_sum d oq"
    and qs: "\<forall>y\<in>set oq. xfer_ok d y" "\<forall>y\<in>set iq. xf_kind y = InEndpoint" "\<forall>y\<in>set fq. xf_kind y = FeedbackEndpoint"
    and len: "length oq + length (pendingImplicit d) + length completed \<le> 8"
    and cap: "capture_ok d'" and stop: "stopRequested (mode d) \<longrightarrow> bus d' = bus d \<and> ring d' = ring d"
  shows "sys_inv (s\<lparr>drv := d', outq := oq @ new_submits OutEndpoint d d',
      inq := iq @ new_submits InEndpoint d d', fbq := fq @ new_submits FeedbackEndpoint d d'\<rparr>)"
proof -
  have sn: "sends d0 d' calls lost" and pk: "pipeline_ok d'" using s by (simp_all add: step_ok_def)
  have ns: "new_submits k d d' = submitted_xfers k calls" for k
    using sn d0 by (intro new_submits_bus) (simp add: sends_def)
  have fs: "frames_sum d' ys = frames_sum d ys" "frames_sum d0 ys = frames_sum d ys" for ys
    using sn d0 by (simp_all add: sends_def frames_sum_def)
  have xo: "xfer_ok d' y = xfer_ok d y" "xfer_ok d0 y = xfer_ok d y" for y
    using sends_xfer_ok [OF sn] d0 by (simp_all add: xfer_ok_def frameBytes_def)
  have "\<forall>y\<in>set (oq @ outs calls). xfer_ok d' y" using qs(1) s xo by (auto simp: step_ok_def)
  moreover have "length (oq @ outs calls) + length (pendingImplicit d') \<le> 8"
    using step_ok_count [OF s] len d0(6) by simp
  moreover have "inflight (led d') = int (length (oq @ outs calls)) +
      int (length (fq @ submitted_xfers FeedbackEndpoint calls))"
    "captureInflight (led d') = int (length (iq @ submitted_xfers InEndpoint calls))"
    "queuedOutFrames (led d') = frames_sum d' (oq @ outs calls)"
    using sn led by (simp_all add: sends_def fs)
  moreover have "\<exists>lost. wire d' @ lost @ ring_contents (ring d') = accepted s \<and> (lost = [] \<or> transportFailed (mode d'))"
  proof -
    obtain l where "wire d @ l @ ring_contents (ring d) = accepted s" "l = [] \<or> transportFailed (mode d)"
      using inv by (auto simp: sys_inv_def d)
    moreover have "stopRequested (mode d) \<longrightarrow> calls = [] \<and> ring d' = ring d"
      using stop sn d0 by (auto simp: sends_def)
    moreover have "pipeline_ok d" using inv by (simp add: sys_inv_def d)
    ultimately show ?thesis by (intro sends_wire [OF sn d0(1-3)])
  qed
  moreover have "\<forall>y\<in>set (iq @ submitted_xfers InEndpoint calls). xf_kind y = InEndpoint"
    "\<forall>y\<in>set (fq @ submitted_xfers FeedbackEndpoint calls). xf_kind y = FeedbackEndpoint"
    using qs submitted_kind by auto
  ultimately show ?thesis using pk cap unfolding sys_inv_def ns by simp
qed

lemma no_submits: "bus d' = bus d @ calls \<Longrightarrow> submitted_xfers k calls = [] \<Longrightarrow> new_submits k d d' = []"
  by (simp add: new_submits_bus)

lemma out_done_inv:
  assumes law: "packet_law e" and inv: "sys_inv s" and q: "outq s = a @ x # b"
    and c: "out_completion (drv s) x x'" and d': "onIso e x' (drv s) = d'"
  shows "sys_inv (s\<lparr>drv := d', outq := a @ b @ new_submits OutEndpoint (drv s) d'\<rparr>)"
proof -
  define d where "d = drv s"
  have ok: "pipeline_ok d" and cap: "capture_ok d" and xs: "\<forall>y\<in>set (a @ x # b). xfer_ok d y"
    and led: "inflight (led d) = int (length (a @ x # b)) + int (length (fbq s))"
      "captureInflight (led d) = int (length (inq s))" "queuedOutFrames (led d) = frames_sum d (a @ x # b)"
    and len: "length (a @ x # b) + length (pendingImplicit d) \<le> 8"
    and ks: "\<forall>x\<in>set (inq s). xf_kind x = InEndpoint" "\<forall>x\<in>set (fbq s). xf_kind x = FeedbackEndpoint"
    using inv q by (simp_all add: sys_inv_def d_def)
  note S = out_completion_same [OF c, folded d_def]
  have x': "xfer_ok d x'" using xs S(1) by simp
  define d0 where "d0 = take_back (subtractQueued (queuedOutFrames (led d)) (transfer_frames (strideOf (fmt d)) x')) d"
  have "xf_status x' = Cancelled \<longrightarrow> stopRequested (mode d)" using c by (simp add: out_completion_def d_def)
  then obtain calls lost where s: "step_ok d0 d' calls lost [xf_id x']"
    and none: "submitted_xfers InEndpoint calls = []" "submitted_xfers FeedbackEndpoint calls = []"
      "captureRing d' = captureRing d"
    using onIso_step [OF law ok x'] d' unfolding d0_def [symmetric] d_def [symmetric] by blast
  have d0: "ring d0 = ring d" "bus d0 = bus d" "mode d0 = mode d" "fmt d0 = fmt d"
    "pace d0 = pace d" "pendingImplicit d0 = pendingImplicit d"
    by (simp_all add: d0_def take_back_def)
  have st: "stride_ok d" using ok by (simp add: pipeline_ok_def transport_ok_def pb_inv_def playback_ok_def)
  have "subtractQueued (queuedOutFrames (led d)) (transfer_frames (strideOf (fmt d)) x') = frames_sum d (a @ b)"
    unfolding S(2) using len by (intro take_back_ledger [OF st xs _ led(3)]) simp
  then have l0: "inflight (led d0) = int (length (a @ b)) + int (length (fbq s))"
    "captureInflight (led d0) = int (length (inq s))" "queuedOutFrames (led d0) = frames_sum d (a @ b)"
    using led by (simp_all add: d0_def take_back_def)
  have b': "bus d' = bus d @ calls" "captureFormat d' = captureFormat d" "buf d' = buf d"
    using s by (simp_all add: step_ok_def sends_def d0_def take_back_def)
  have "capture_ok d'" using cap none(3) b' capture_ok_cong [of d' d] by simp
  moreover have "stopRequested (mode d) \<longrightarrow> bus d' = bus d \<and> ring d' = ring d"
    using onIso_stopped [of d e x'] d' by (simp add: d_def)
  ultimately have "sys_inv (s\<lparr>drv := d', outq := (a @ b) @ new_submits OutEndpoint d d',
      inq := inq s @ new_submits InEndpoint d d', fbq := fbq s @ new_submits FeedbackEndpoint d d'\<rparr>)"
    using xs ks len by (intro handler_inv [OF inv d_def [symmetric] s d0 l0]) auto
  then show ?thesis
    using no_submits [OF b'(1)] none by (simp add: d_def [symmetric])
qed

lemma fb_done_inv:
  assumes inv: "sys_inv s" and q: "fbq s = a @ x # b" and k: "xf_kind x' = xf_kind x"
    and d': "onFeedback e x' (drv s) = d'"
  shows "sys_inv (s\<lparr>drv := d', fbq := a @ b @ new_submits FeedbackEndpoint (drv s) d'\<rparr>)"
proof -
  define d where "d = drv s"
  have ok: "pipeline_ok d" and cap: "capture_ok d" using inv by (simp_all add: sys_inv_def d_def)
  have x': "xf_kind x' = FeedbackEndpoint" using inv k q by (simp add: sys_inv_def)
  obtain calls where s: "step_ok (retire_out d) d' calls [] []"
    and none: "outs calls = []" "submitted_xfers InEndpoint calls = []" "captureRing d' = captureRing d"
    using onFeedback_step [OF ok x'] d' unfolding d_def [symmetric] by blast
  have b': "bus d' = bus d @ calls" "captureFormat d' = captureFormat d" "buf d' = buf d"
    using s by (simp_all add: step_ok_def sends_def retire_defs)
  have "capture_ok d'" using cap none(3) b' capture_ok_cong [of d' d] by simp
  moreover have "stopRequested (mode d) \<longrightarrow> bus d' = bus d \<and> ring d' = ring d"
    using onFeedback_stopped [of d e x'] d' by (simp add: d_def)
  ultimately have "sys_inv (s\<lparr>drv := d', outq := outq s @ new_submits OutEndpoint d d',
      inq := inq s @ new_submits InEndpoint d d', fbq := (a @ b) @ new_submits FeedbackEndpoint d d'\<rparr>)"
    using inv q by (intro handler_inv [OF inv d_def [symmetric] s]) (auto simp: retire_defs sys_inv_def d_def)
  then show ?thesis
    using no_submits [OF b'(1)] none by (simp add: d_def [symmetric])
qed

lemma in_done_inv:
  assumes law: "packet_law e" and inv: "sys_inv s" and q: "inq s = a @ x # b"
    and c: "in_completion (drv s) x x'" and d': "onCapture e x' (drv s) = d'"
  shows "sys_inv (s\<lparr>drv := d', outq := outq s @ new_submits OutEndpoint (drv s) d',
      inq := a @ b @ new_submits InEndpoint (drv s) d'\<rparr>)"
proof -
  define d where "d = drv s"
  have ok: "pipeline_ok d" and cap: "capture_ok d" using inv by (simp_all add: sys_inv_def d_def)
  have x': "xf_kind x' = InEndpoint" "packets_fit 0 (length (xf_buffer x')) (xf_pkts x')"
    "\<forall>p\<in>set (xf_pkts x'). captureBytes d dvd unat (pk_actual p)"
    using inv c q unfolding sys_inv_def in_completion_def d_def by auto
  obtain calls lost where s: "step_ok (retire_capture d) d' calls lost []"
    and none: "submitted_xfers FeedbackEndpoint calls = []"
    using onCapture_step [OF law ok cap x'(1,2)] d' unfolding d_def [symmetric] by blast
  have b': "bus d' = bus d @ calls" "captureFormat d' = captureFormat d" "buf d' = buf d"
    using s by (simp_all add: step_ok_def sends_def retire_capture_def)
  note R = onCapture_ring [OF law ok cap x'(2), unfolded d' [folded d_def]]
  have "captureBytes d dvd length (ring_contents (captureRing d'))"
    using cap captured_audio_aligned [OF capture_stride(2) [OF cap] x'(3,2)] unfolding R(1)
    by (simp add: capture_ok_def)
  then have "capture_ok d'" using cap R(2) b' by (simp add: capture_ok_def captureBytes_def)
  moreover have "stopRequested (mode d) \<longrightarrow> bus d' = bus d \<and> ring d' = ring d"
    using onCapture_stopped [of d e x'] d' by (simp add: d_def)
  ultimately have "sys_inv (s\<lparr>drv := d', outq := outq s @ new_submits OutEndpoint d d',
      inq := (a @ b) @ new_submits InEndpoint d d', fbq := fbq s @ new_submits FeedbackEndpoint d d'\<rparr>)"
    using inv q by (intro handler_inv [OF inv d_def [symmetric] s])
      (auto simp: retire_capture_def sys_inv_def d_def)
  then show ?thesis
    using no_submits [OF b'(1)] none by (simp add: d_def [symmetric])
qed

lemma app_write_inv:
  assumes inv: "sys_inv s" and n: "0 < n" "n \<le> INT_MAX" "nat n * frameBytes (drv s) \<le> length data"
    and w: "writePcm (Some data) n (drv s) = (got, d')"
  shows "sys_inv (s\<lparr>drv := d', accepted := accepted s @ take (nat got * frameBytes (drv s)) data\<rparr>)"
proof -
  define d where "d = drv s"
  have dd: "d' = snd (writePcm (Some data) n d)" using w by (simp add: d_def)
  have f: "fmt d' = fmt d" "buf d' = buf d" "bus d' = bus d" "fifo d' = fifo d" "pace d' = pace d"
    "pendingImplicit d' = pendingImplicit d" "captureRing d' = captureRing d" "captureFormat d' = captureFormat d"
    "transportFailed (mode d') = transportFailed (mode d)" "captureActive (mode d') = captureActive (mode d)"
    "stopRequested (mode d') = stopRequested (mode d)" by (simp_all add: dd)
  have pbi: "pb_inv d" and ok: "pipeline_ok d"
    using inv by (simp_all add: sys_inv_def d_def pipeline_ok_def transport_ok_def)
  note W = writePcm_step [OF _ _ n w, folded d_def]
  have po: "playback_ok d" "budget_ok (buf d)" using pbi by (simp_all add: pb_inv_def)
  have pb': "pb_inv d'" and rc: "ring_contents (ring d') = ring_contents (ring d) @ take (nat got * frameBytes d) data"
    using W(1-5) [OF po] pbi f by (simp_all add: pb_inv_def)
  have l': "inflight (led d') = inflight (led d)" "captureInflight (led d') = captureInflight (led d)"
    "queuedOutFrames (led d') = queuedOutFrames (led d)" using W(5) [OF po] by simp_all
  have xo: "xfer_ok d' y = xfer_ok d y" for y using f by (simp add: xfer_ok_def frameBytes_def)
  have "transport_ok d'"
    using ok pb' f by (simp add: pipeline_ok_def transport_ok_def geometry_ok_def stride_ok_def fifo_ok_def fifo_depth_def)
  then have "pipeline_ok d'" using ok f xo by (simp add: pipeline_ok_def implicit_mode_def)
  moreover have "capture_ok d' = capture_ok d" using f by (intro capture_ok_cong)
  moreover have "frames_sum d' ys = frames_sum d ys" for ys using f by (simp add: frames_sum_def)
  moreover have "wire d' = wire d" using f by (simp add: wire_def)
  ultimately show ?thesis
    using inv l' f xo rc unfolding sys_inv_def d_def [symmetric] by auto
qed

lemma readCapturePcm_frame:
  assumes "readCapturePcm b n d = (r, d')"
  shows "idle d d'" "fifo d' = fifo d" "pendingImplicit d' = pendingImplicit d" "mode d' = mode d" "pace d' = pace d"
proof -
  have "d' = snd (readCapturePcm b n d)" using assms by simp
  moreover have "quiet d (note_underrun c (snd (trim_tail d)))" for c
  proof -
    have "quiet d (snd (trim_tail d))" by (simp add: trim_tail_def Let_def)
    moreover have "quiet d1 (note_underrun c d1)" for d1 by (simp add: note_underrun_def)
    ultimately show ?thesis by (rule quiet_trans)
  qed
  then have q: "quiet d (snd (prepareCaptureRead n d))"
    by (simp add: prepareCaptureRead_def Let_def case_prod_beta note_underrun_def)
  have "snd (readCapturePcm b n d) = d \<or> (\<exists>reg. snd (readCapturePcm b n d) = commitCaptureRead reg (snd (prepareCaptureRead n d)))"
    by (auto simp: readCapturePcm_def case_prod_beta)
  moreover have "idle d1 (commitCaptureRead reg d1) \<and> fifo (commitCaptureRead reg d1) = fifo d1 \<and>
      pendingImplicit (commitCaptureRead reg d1) = pendingImplicit d1 \<and> mode (commitCaptureRead reg d1) = mode d1 \<and>
      pace (commitCaptureRead reg d1) = pace d1" for reg d1
    by (simp add: commitCaptureRead_def idle_def steady_def)
  ultimately have "d' = d \<or> (\<exists>d1. quiet d d1 \<and> idle d1 d' \<and> fifo d' = fifo d1 \<and>
      pendingImplicit d' = pendingImplicit d1 \<and> mode d' = mode d1 \<and> pace d' = pace d1)"
    using q by metis
  then show "idle d d'" "fifo d' = fifo d" "pendingImplicit d' = pendingImplicit d" "mode d' = mode d" "pace d' = pace d"
    using idle_trans by (auto simp: quiet_def)
qed

lemma app_read_inv:
  assumes inv: "sys_inv s" and n: "0 < n" "n \<le> INT_MAX" "capturing (drv s)"
    and r: "readCapturePcm False n (drv s) = (r, d')"
  shows "sys_inv (s\<lparr>drv := d'\<rparr>)"
proof -
  define d where "d = drv s"
  note F = readCapturePcm_frame [OF r, folded d_def]
  have cap: "capture_ok d" and ok: "pipeline_ok d" using inv by (simp_all add: sys_inv_def d_def)
  obtain got out where "r = (got, out)" by fastforce
  then have c': "capture_ok d'" using readCapturePcm_step(3) [OF _ _ n(1,2)] r n(3) cap by (simp add: d_def)
  have xo: "xfer_ok d' y = xfer_ok d y" for y by (rule idle_ok(4) [OF F(1)])
  have "transport_ok d'" using ok idle_ok [OF F(1)] fifo_ok_cong [OF F(2)] by (simp add: pipeline_ok_def transport_ok_def)
  then have "pipeline_ok d'" using ok F xo by (simp add: pipeline_ok_def implicit_mode_def idle_def)
  moreover have "frames_sum d' ys = frames_sum d ys" for ys using F(1) by (simp add: frames_sum_def idle_def)
  moreover have "wire d' = wire d" using F(1) by (simp add: wire_def idle_def)
  ultimately show ?thesis
    using inv F xo c' unfolding sys_inv_def d_def [symmetric] by (simp add: idle_def)
qed

lemma sys_step_inv: "sys_step e s s' \<Longrightarrow> packet_law e \<Longrightarrow> sys_inv s \<Longrightarrow> sys_inv s'"
  by (induction rule: sys_step.induct)
    (simp_all only: app_write_inv app_read_inv out_done_inv in_done_inv fb_done_inv)

inductive reach :: "env \<Rightarrow> system \<Rightarrow> system \<Rightarrow> bool" for e s0 where
  start: "reach e s0 s0"
| more: "reach e s0 s \<Longrightarrow> sys_step e s s' \<Longrightarrow> reach e s0 s'"

lemma reach_inv: "reach e s0 s \<Longrightarrow> packet_law e \<Longrightarrow> sys_inv s0 \<Longrightarrow> sys_inv s"
  by (induction rule: reach.induct) (blast intro: sys_step_inv)+

section \<open>Transfers in circulation\<close>

lemma step_ok_ids:
  assumes "step_ok d0 d' calls lost completed" "\<not> stopRequested (mode d')"
  shows "map xf_id (outs calls) @ pending_ids d' = pending_ids d0 @ completed"
  using assms by (auto simp: step_ok_def)

lemma out_done_ids:
  assumes law: "packet_law e" and inv: "sys_inv s" and q: "outq s = a @ x # b"
    and c: "out_completion (drv s) x x'" and run: "\<not> stopRequested (mode (onIso e x' (drv s)))"
  shows "map xf_id (new_submits OutEndpoint (drv s) (onIso e x' (drv s))) @ pending_ids (onIso e x' (drv s)) =
    pending_ids (drv s) @ [xf_id x]"
proof -
  let ?d = "drv s" and ?d' = "onIso e x' (drv s)"
  have ok: "pipeline_ok ?d" and x': "xfer_ok ?d x'" "xf_status x' = Cancelled \<longrightarrow> stopRequested (mode ?d)"
    using inv q c out_completion_same(1) [OF c] by (simp_all add: sys_inv_def out_completion_def)
  define d0 where "d0 = take_back (subtractQueued (queuedOutFrames (led ?d)) (transfer_frames (strideOf (fmt ?d)) x')) ?d"
  obtain calls lost where s: "step_ok d0 ?d' calls lost [xf_id x']"
    using onIso_step [OF law ok x'] unfolding d0_def [symmetric] by blast
  have "bus ?d' = bus ?d @ calls" using s by (simp add: step_ok_def sends_def d0_def take_back_def)
  moreover have "pending_ids d0 = pending_ids ?d" by (simp add: d0_def take_back_ok)
  ultimately show ?thesis
    using step_ok_ids [OF s run] new_submits_bus out_completion_same(3) [OF c] by simp
qed

lemma out_done_bus:
  assumes law: "packet_law e" and inv: "sys_inv s" and q: "outq s = a @ x # b" and c: "out_completion (drv s) x x'"
  shows "\<exists>calls. bus (onIso e x' (drv s)) = bus (drv s) @ calls"
proof -
  have ok: "pipeline_ok (drv s)" and x': "xfer_ok (drv s) x'" "xf_status x' = Cancelled \<longrightarrow> stopRequested (mode (drv s))"
    using inv q c out_completion_same(1) [OF c] by (simp_all add: sys_inv_def out_completion_def)
  from onIso_step [OF law ok x'] show ?thesis by (auto simp: step_ok_def sends_def take_back_def)
qed

lemma in_done_bus:
  assumes law: "packet_law e" and inv: "sys_inv s" and q: "inq s = a @ x # b" and c: "in_completion (drv s) x x'"
  shows "\<exists>calls. bus (onCapture e x' (drv s)) = bus (drv s) @ calls"
proof -
  have ok: "pipeline_ok (drv s)" "capture_ok (drv s)"
    and x': "xf_kind x' = InEndpoint" "packets_fit 0 (length (xf_buffer x')) (xf_pkts x')"
    using inv q c unfolding sys_inv_def in_completion_def by auto
  from onCapture_step [OF law ok x'] show ?thesis by (auto simp: step_ok_def sends_def retire_capture_def)
qed

lemma fb_done_bus:
  assumes inv: "sys_inv s" and q: "fbq s = a @ x # b" and k: "xf_kind x' = xf_kind x"
  shows "\<exists>calls. bus (onFeedback e x' (drv s)) = bus (drv s) @ calls \<and> outs calls = []"
proof -
  have ok: "pipeline_ok (drv s)" and x': "xf_kind x' = FeedbackEndpoint" using inv q k by (simp_all add: sys_inv_def)
  from onFeedback_step [OF ok x'] show ?thesis by (fastforce simp: step_ok_def sends_def retire_defs)
qed

lemma in_done_ids:
  assumes law: "packet_law e" and inv: "sys_inv s" and q: "inq s = a @ x # b"
    and c: "in_completion (drv s) x x'" and run: "\<not> stopRequested (mode (onCapture e x' (drv s)))"
  shows "map xf_id (new_submits OutEndpoint (drv s) (onCapture e x' (drv s))) @
    pending_ids (onCapture e x' (drv s)) = pending_ids (drv s)"
proof -
  let ?d = "drv s" and ?d' = "onCapture e x' (drv s)"
  have ok: "pipeline_ok ?d" "capture_ok ?d" and x': "xf_kind x' = InEndpoint" "packets_fit 0 (length (xf_buffer x')) (xf_pkts x')"
    using inv q c unfolding sys_inv_def in_completion_def by auto
  obtain calls lost where s: "step_ok (retire_capture ?d) ?d' calls lost []"
    using onCapture_step [OF law ok x'] by blast
  have "bus ?d' = bus ?d @ calls" using s by (simp add: step_ok_def sends_def retire_capture_def)
  then show ?thesis using step_ok_ids [OF s run] new_submits_bus by (simp add: retire_capture_ok)
qed

lemma fb_done_ids:
  assumes inv: "sys_inv s" and q: "fbq s = a @ x # b" and k: "xf_kind x' = xf_kind x"
    and run: "\<not> stopRequested (mode (onFeedback e x' (drv s)))"
  shows "pending_ids (onFeedback e x' (drv s)) = pending_ids (drv s)"
proof -
  let ?d = "drv s" and ?d' = "onFeedback e x' (drv s)"
  have ok: "pipeline_ok ?d" and x': "xf_kind x' = FeedbackEndpoint" using inv q k by (simp_all add: sys_inv_def)
  obtain calls where s: "step_ok (retire_out ?d) ?d' calls [] []" "outs calls = []"
    using onFeedback_step [OF ok x'] by blast
  then show ?thesis using step_ok_ids [OF s(1) run] by (simp add: retire_defs pending_ids_def)
qed

lemma sys_step_circulating:
  "sys_step e s s' \<Longrightarrow> packet_law e \<Longrightarrow> sys_inv s \<Longrightarrow> \<not> stopRequested (mode (drv s')) \<Longrightarrow>
   circulating s' = circulating s"
proof (induction rule: sys_step.induct)
  case (app_write n s data got d')
  have "d' = snd (writePcm (Some data) n (drv s))" using app_write by simp
  then show ?case by (simp add: circulating_def pending_ids_def)
next
  case (app_read n s r d')
  then show ?case using readCapturePcm_frame(3) [OF app_read(4)] by (simp add: circulating_def pending_ids_def)
next
  case (out_done s a x b x' d')
  have "map xf_id (new_submits OutEndpoint (drv s) d') @ pending_ids d' = pending_ids (drv s) @ [xf_id x]"
    using out_done_ids [OF out_done(4,5,1,2)] out_done(3,6) by simp
  then have "mset (map xf_id (new_submits OutEndpoint (drv s) d') @ pending_ids d') = mset (pending_ids (drv s) @ [xf_id x])" by simp
  then show ?case using out_done(1) by (simp add: circulating_def ac_simps)
next
  case (in_done s a x b x' d')
  have "map xf_id (new_submits OutEndpoint (drv s) d') @ pending_ids d' = pending_ids (drv s)"
    using in_done_ids [OF in_done(4,5,1,2)] in_done(3,6) by simp
  then have "mset (map xf_id (new_submits OutEndpoint (drv s) d') @ pending_ids d') = mset (pending_ids (drv s))" by simp
  then show ?case by (simp add: circulating_def ac_simps)
next
  case (fb_done s a x b x' d')
  then show ?case using fb_done_ids [OF fb_done(6,1,2), of e] by (simp add: circulating_def)
qed

lemma sys_step_stop_mono:
  "sys_step e s s' \<Longrightarrow> packet_law e \<Longrightarrow> sys_inv s \<Longrightarrow> stopRequested (mode (drv s)) \<Longrightarrow> stopRequested (mode (drv s'))"
proof (induction rule: sys_step.induct)
  case (app_write n s data got d')
  have "d' = snd (writePcm (Some data) n (drv s))" using app_write by simp
  then show ?case using app_write(7) by simp
next
  case (app_read n s r d')
  then show ?case using readCapturePcm_frame(4) [OF app_read(4)] by simp
next
  case (out_done s a x b x' d')
  then show ?case by (auto simp: onIso_def Let_def retire_defs)
next
  case (in_done s a x b x' d')
  then show ?case by (auto simp: onCapture_def Let_def retire_defs)
next
  case (fb_done s a x b x' d')
  then show ?case by (auto simp: onFeedback_def Let_def retire_defs)
qed

lemma reach_circulating:
  "reach e s0 s \<Longrightarrow> packet_law e \<Longrightarrow> sys_inv s0 \<Longrightarrow> \<not> stopRequested (mode (drv s)) \<Longrightarrow> circulating s = circulating s0"
proof (induction rule: reach.induct)
  case (more s s')
  have inv: "sys_inv s" using reach_inv [OF more(1) more(4,5)] .
  then have "\<not> stopRequested (mode (drv s))" using sys_step_stop_mono [OF more(2,4)] more(6) by blast
  then show ?case using more.IH [OF more(4,5)] sys_step_circulating [OF more(2,4) inv more(6)] by simp
qed simp

section \<open>The line, abstractly\<close>

text \<open>What the pipeline promises, without transfers, rings or ledgers: a queue of bytes that are
  accepted at one end and sent at the other, until the line breaks.\<close>

record line =
  sent :: bytes
  queued :: bytes
  broken :: bool

inductive line_step :: "line \<Rightarrow> line \<Rightarrow> bool" where
  accept: "line_step l (l\<lparr>queued := queued l @ bs\<rparr>)"
| transmit: "\<not> broken l \<Longrightarrow> queued l = bs @ rest \<Longrightarrow> line_step l (l\<lparr>sent := sent l @ bs, queued := rest\<rparr>)"
| line_break: "\<not> broken l \<Longrightarrow> queued l = bs @ gone @ rest \<Longrightarrow>
    line_step l \<lparr>sent = sent l @ bs, queued = rest, broken = True\<rparr>"

definition line_of :: "driver \<Rightarrow> line" where
  "line_of d = \<lparr>sent = wire d, queued = ring_contents (ring d), broken = transportFailed (mode d)\<rparr>"

lemma line_same:
  "bus d' = bus d \<Longrightarrow> ring d' = ring d \<Longrightarrow> transportFailed (mode d') = transportFailed (mode d) \<Longrightarrow>
   line_step (line_of d) (line_of d')"
  using line_step.accept [of "line_of d" "[]"] by (simp add: line_of_def wire_def)

lemma sends_line:
  assumes s: "sends d0 d' calls lost" and d0: "ring d0 = ring d" "bus d0 = bus d" "mode d0 = mode d"
    and ok: "pipeline_ok d" and stop: "stopRequested (mode d) \<longrightarrow> bus d' = bus d \<and> ring d' = ring d"
  shows "line_step (line_of d) (line_of d')"
proof (cases "transportFailed (mode d)")
  case True
  then have "bus d' = bus d" "ring d' = ring d" "transportFailed (mode d')"
    using ok stop s d0 by (auto simp: pipeline_ok_def sends_def steady_def)
  then show ?thesis using True by (intro line_same) simp_all
next
  case False
  let ?p = "concat (map payload (outs calls))"
  have w: "wire d' = wire d @ ?p" using s d0 by (intro wire_bus) (simp add: sends_def)
  have r: "ring_contents (ring d) = ?p @ lost @ ring_contents (ring d')" using s d0 by (simp add: sends_def)
  show ?thesis
  proof (cases "transportFailed (mode d')")
    case True
    then show ?thesis
      using line_step.line_break [of "line_of d" ?p lost "ring_contents (ring d')"] False r w
      by (simp add: line_of_def)
  next
    case nf: False
    then have "lost = []" using s by (simp add: sends_def)
    then show ?thesis
      using line_step.transmit [of "line_of d" ?p "ring_contents (ring d')"] False nf r w
      by (simp add: line_of_def)
  qed
qed

lemma sys_step_line:
  "sys_step e s s' \<Longrightarrow> packet_law e \<Longrightarrow> sys_inv s \<Longrightarrow> line_step (line_of (drv s)) (line_of (drv s'))"
proof (induction rule: sys_step.induct)
  case (app_write n s data got d')
  have "playback_ok (drv s)" "budget_ok (buf (drv s))"
    using app_write(6) by (simp_all add: sys_inv_def pipeline_ok_def transport_ok_def pb_inv_def)
  note W = writePcm_step(4) [OF this app_write(1-4)]
  have "d' = snd (writePcm (Some data) n (drv s))" using app_write(4) by simp
  then have "bus d' = bus (drv s)" "transportFailed (mode d') = transportFailed (mode (drv s))" by simp_all
  then show ?case
    using line_step.accept [of "line_of (drv s)"] W by (simp add: line_of_def wire_def)
next
  case (app_read n s r d')
  then show ?case using readCapturePcm_frame [OF app_read(4)] by (auto intro!: line_same simp: idle_def)
next
  case (out_done s a x b x' d')
  have ok: "pipeline_ok (drv s)" and x': "xfer_ok (drv s) x'" "xf_status x' = Cancelled \<longrightarrow> stopRequested (mode (drv s))"
    using out_done(1,2,5) out_completion_same(1) [OF out_done(2)] by (simp_all add: sys_inv_def out_completion_def)
  obtain calls lost where "step_ok (take_back (subtractQueued (queuedOutFrames (led (drv s)))
      (transfer_frames (strideOf (fmt (drv s))) x')) (drv s)) d' calls lost [xf_id x']"
    using onIso_step [OF out_done(4) ok x'] out_done(3) by blast
  then show ?case
    using sends_line [OF _ _ _ _ ok] onIso_stopped [of "drv s" e x'] out_done(3) by (auto simp: step_ok_def take_back_def)
next
  case (in_done s a x b x' d')
  have ok: "pipeline_ok (drv s)" "capture_ok (drv s)"
    and x': "xf_kind x' = InEndpoint" "packets_fit 0 (length (xf_buffer x')) (xf_pkts x')"
    using in_done(1,2,5) unfolding sys_inv_def in_completion_def by auto
  obtain calls lost where "step_ok (retire_capture (drv s)) d' calls lost []"
    using onCapture_step [OF in_done(4) ok x'] in_done(3) by blast
  then show ?case
    using sends_line [OF _ _ _ _ ok(1)] onCapture_stopped [of "drv s" e x'] in_done(3)
    by (auto simp: step_ok_def retire_capture_def)
next
  case (fb_done s a x b x' d')
  have ok: "pipeline_ok (drv s)" and x': "xf_kind x' = FeedbackEndpoint" using fb_done(1,2,6) by (simp_all add: sys_inv_def)
  obtain calls where "step_ok (retire_out (drv s)) d' calls [] []"
    using onFeedback_step [OF ok x'] fb_done(4) by blast
  then show ?case
    using sends_line [OF _ _ _ _ ok] onFeedback_stopped [of "drv s" e x'] fb_done(4) by (auto simp: step_ok_def retire_defs)
qed

section \<open>An accepting bus\<close>

lemma ship_packet_frame: "drain_frame d (snd (ship_packet e i f y d))"
  using drainRing_drain_frame [OF prod.collapse [symmetric]] by (simp add: ship_packet_def Let_def case_prod_beta)

lemma ship_packets_frame: "drain_frame d (snd (ship_packets e i fs y d))"
proof (induction fs arbitrary: i y d)
  case (Cons f fs)
  show ?case using drain_frame_trans [OF ship_packet_frame Cons.IH] by (simp add: case_prod_beta)
qed simp

lemma ship_scheduled_frame: "drain_frame d (snd (ship_scheduled e r i k y d))"
proof (induction k arbitrary: i y d)
  case (Suc k)
  have "drain_frame d (snd (next_packet_frames r d))"
    by (simp add: next_packet_frames_def Let_def case_prod_beta drain_frame_def)
  then show ?case using drain_frame_trans [OF drain_frame_trans [OF _ ship_packet_frame] Suc.IH] by (simp add: case_prod_beta)
qed simp

lemma prepare_frame:
  assumes "prepareImplicitTransfer e y d = (r, y1, d')"
  shows "stopRequested (mode d') = stopRequested (mode d)" "transportFailed (mode d') = transportFailed (mode d)"
    "pendingImplicit d' = pendingImplicit d"
proof -
  have "stopRequested (mode d') = stopRequested (mode d) \<and> transportFailed (mode d') = transportFailed (mode d) \<and>
    pendingImplicit d' = pendingImplicit d"
    using assms
  proof (cases rule: prepareImplicitTransfer_cases)
    case deferred
    then show ?thesis by (simp add: drain_frame_def)
  next
    case shipped
    then show ?thesis
      using ship_packets_frame [of "fifo_update (implicitRead_update (\<lambda>_. implicitRead (fifo d) + of_nat (length (xf_pkts y)))) d" e 0
          "planned_frames d (length (xf_pkts y))" y]
      by (simp add: drain_frame_def)
  qed
  then show "stopRequested (mode d') = stopRequested (mode d)" "transportFailed (mode d') = transportFailed (mode d)"
    "pendingImplicit d' = pendingImplicit d" by simp_all
qed

lemma onIso_accepting:
  assumes rc: "\<forall>h c. usb_rc e h c = 0" and p: "length (pendingImplicit d) < 8" and x: "xf_status x \<noteq> NoDeviceStatus"
  shows "stopRequested (mode (onIso e x d)) = stopRequested (mode d) \<and>
    transportFailed (mode (onIso e x d)) = transportFailed (mode d)"
proof -
  have resub: "stopRequested (mode (iso_resubmit e n i y d1)) = stopRequested (mode d1) \<and>
      transportFailed (mode (iso_resubmit e n i y d1)) = transportFailed (mode d1)" for n i y d1
    using rc by (simp add: iso_resubmit_def Let_def usb_def)
  have defr: "stopRequested (mode (iso_defer e y d1)) = stopRequested (mode d1) \<and>
      transportFailed (mode (iso_defer e y d1)) = transportFailed (mode d1)" if "length (pendingImplicit d1) < 8" for y d1
    using that by (simp add: iso_defer_def Let_def monotonicNowNs_def retire_defs)
  have refill: "stopRequested (mode (iso_refill e n x d1)) = stopRequested (mode d1) \<and>
      transportFailed (mode (iso_refill e n x d1)) = transportFailed (mode d1)" if "length (pendingImplicit d1) < 8" for n d1
  proof -
    obtain r y1 d2 where pr: "prepareImplicitTransfer e x d1 = (r, y1, d2)" by (metis prod_cases3)
    obtain y3 d3 where sc: "ship_scheduled e (framesPerUframe_q16 (pace d1)) 0 (length (xf_pkts x)) x d1 = (y3, d3)" by fastforce
    show ?thesis
      using prepare_frame [OF pr] resub defr that ship_scheduled_frame [of d1 e "framesPerUframe_q16 (pace d1)" 0 "length (xf_pkts x)" x]
      by (auto simp: iso_refill_def pr sc drain_frame_def)
  qed
  let ?d1 = "led_update (queuedOutFrames_update (\<lambda>q. subtractQueued q (transfer_frames (strideOf (fmt d)) x))) d"
  have q: "quiet ?d1 (iso_envelope e (transfer_frames (strideOf (fmt d)) x) (iso_stall e (iso_count_errors x ?d1)))"
    by (rule quiet_trans [OF quiet_trans [OF quiet_count_errors quiet_stall] quiet_envelope])
  then show ?thesis
    using refill p x by (auto simp: onIso_def Let_def retire_defs quiet_def)
qed

lemma submit_pending_accepting:
  assumes "\<forall>h c. usb_rc e h c = 0"
  shows "submit_pending e ps d = (n, left, d') \<Longrightarrow>
    stopRequested (mode d') = stopRequested (mode d) \<and> transportFailed (mode d') = transportFailed (mode d)"
proof (induction ps arbitrary: d n left d')
  case (Cons p ps)
  obtain x since where p: "p = (x, since)" by fastforce
  obtain ready x1 d1 where pr: "prepareImplicitTransfer e x d = (ready, x1, d1)" by (metis prod_cases3)
  note f = prepare_frame [OF pr]
  show ?case
    using Cons.prems Cons.IH assms f
    by (auto simp: p pr usb_def monotonicNowNs_def Let_def split: if_splits prod.splits)
qed simp

lemma onCapture_accepting:
  assumes rc: "\<forall>h c. usb_rc e h c = 0" and ok: "capture_ok d" "packets_fit 0 (length (xf_buffer x)) (xf_pkts x)"
    and x: "xf_status x \<noteq> NoDeviceStatus"
  shows "stopRequested (mode (onCapture e x d)) = stopRequested (mode d) \<and>
    transportFailed (mode (onCapture e x d)) = transportFailed (mode d)"
proof -
  obtain sc d1 where sc: "capture_scan_all x d = (sc, d1)" by fastforce
  let ?dp = "capture_publish e sc d1"
  have m: "mode ?dp = mode d" by (rule capture_scan_publish(5) [OF sc ok])
  obtain n left d2 where sp: "submit_pending e (pendingImplicit ?dp) ?dp = (n, left, d2)" by (metis prod_cases3)
  show ?thesis
    using submit_pending_accepting [OF rc sp] m rc x
    by (auto simp: onCapture_def sc sp submitPendingImplicitTransfers_def Let_def usb_def retire_capture_def)
qed

section \<open>The order of the playback transfers\<close>

text \<open>A run of the system with the playback transfers that completed in it, in completion order.\<close>

inductive run :: "env \<Rightarrow> system \<Rightarrow> nat list \<Rightarrow> system \<Rightarrow> bool" for e s0 where
  stay: "run e s0 [] s0"
| wrote: "run e s0 ids s \<Longrightarrow> 0 < n \<Longrightarrow> n \<le> INT_MAX \<Longrightarrow> nat n * frameBytes (drv s) \<le> length data \<Longrightarrow>
    writePcm (Some data) n (drv s) = (got, d') \<Longrightarrow>
    run e s0 ids (s\<lparr>drv := d', accepted := accepted s @ take (nat got * frameBytes (drv s)) data\<rparr>)"
| read: "run e s0 ids s \<Longrightarrow> 0 < n \<Longrightarrow> n \<le> INT_MAX \<Longrightarrow> capturing (drv s) \<Longrightarrow>
    readCapturePcm False n (drv s) = (r, d') \<Longrightarrow> run e s0 ids (s\<lparr>drv := d'\<rparr>)"
| played: "run e s0 ids s \<Longrightarrow> outq s = a @ x # b \<Longrightarrow> out_completion (drv s) x x' \<Longrightarrow> onIso e x' (drv s) = d' \<Longrightarrow>
    run e s0 (ids @ [xf_id x]) (s\<lparr>drv := d', outq := a @ b @ new_submits OutEndpoint (drv s) d'\<rparr>)"
| captured: "run e s0 ids s \<Longrightarrow> inq s = a @ x # b \<Longrightarrow> in_completion (drv s) x x' \<Longrightarrow> onCapture e x' (drv s) = d' \<Longrightarrow>
    run e s0 ids (s\<lparr>drv := d', outq := outq s @ new_submits OutEndpoint (drv s) d',
      inq := a @ b @ new_submits InEndpoint (drv s) d'\<rparr>)"
| paced: "run e s0 ids s \<Longrightarrow> fbq s = a @ x # b \<Longrightarrow> xf_kind x' = xf_kind x \<Longrightarrow> xf_id x' = xf_id x \<Longrightarrow>
    onFeedback e x' (drv s) = d' \<Longrightarrow>
    run e s0 ids (s\<lparr>drv := d', fbq := a @ b @ new_submits FeedbackEndpoint (drv s) d'\<rparr>)"

lemma run_reach: "run e s0 ids s \<Longrightarrow> reach e s0 s"
  by (induction rule: run.induct) (auto intro: reach.intros sys_step.intros)

text \<open>One step: the transfers it submits, followed by those it leaves pending, are those pending before,
  followed by the completed one.\<close>

definition in_order :: "driver \<Rightarrow> nat list \<Rightarrow> driver \<Rightarrow> bool" where
  "in_order d ids d' \<longleftrightarrow> (\<exists>calls. bus d' = bus d @ calls \<and> map xf_id (outs calls) @ pending_ids d' = pending_ids d @ ids)"

lemma in_order_trans: "in_order a xs b \<Longrightarrow> in_order b ys c \<Longrightarrow> in_order a (xs @ ys) c"
  unfolding in_order_def
proof (elim exE conjE)
  fix u v
  assume "bus b = bus a @ u" "map xf_id (outs u) @ pending_ids b = pending_ids a @ xs"
    "bus c = bus b @ v" "map xf_id (outs v) @ pending_ids c = pending_ids b @ ys"
  moreover from this have "map xf_id (outs (u @ v)) @ pending_ids c = (map xf_id (outs u) @ pending_ids b) @ ys" by simp
  ultimately show "\<exists>calls. bus c = bus a @ calls \<and> map xf_id (outs calls) @ pending_ids c = pending_ids a @ xs @ ys"
    by (intro exI [of _ "u @ v"]) simp
qed

lemma in_orderI:
  "\<exists>calls. bus d' = bus d @ calls \<Longrightarrow> map xf_id (new_submits OutEndpoint d d') @ pending_ids d' = pending_ids d @ ids \<Longrightarrow>
   in_order d ids d'"
  by (auto simp: in_order_def new_submits_def)

lemma in_order_idle: "bus d' = bus d \<Longrightarrow> pendingImplicit d' = pendingImplicit d \<Longrightarrow> in_order d [] d'"
  by (simp add: in_order_def pending_ids_def)

lemma run_in_order:
  "run e s0 ids s \<Longrightarrow> packet_law e \<Longrightarrow> sys_inv s0 \<Longrightarrow> \<not> stopRequested (mode (drv s)) \<Longrightarrow> in_order (drv s0) ids (drv s)"
proof (induction rule: run.induct)
  case stay
  show ?case by (rule in_order_idle) simp_all
next
  case (wrote ids s n data got d')
  have "d' = snd (writePcm (Some data) n (drv s))" using wrote(5) by simp
  then have "in_order (drv s) [] d'" "\<not> stopRequested (mode (drv s))" using wrote.prems by (simp_all add: in_order_idle)
  with in_order_trans [of "drv s0" ids "drv s" "[]" d'] wrote show ?case by simp
next
  case (read ids s n r d')
  have "in_order (drv s) [] d'" "\<not> stopRequested (mode (drv s))"
    using readCapturePcm_frame [OF read(5)] read.prems by (auto simp: idle_def intro!: in_order_idle)
  with in_order_trans [of "drv s0" ids "drv s" "[]" d'] read show ?case by simp
next
  case (played ids s a x b x' d')
  have i: "sys_inv s" using reach_inv [OF run_reach] played by blast
  have st: "sys_step e s (s\<lparr>drv := d', outq := a @ b @ new_submits OutEndpoint (drv s) d'\<rparr>)"
    using played(2-4) by (rule sys_step.out_done)
  have n: "\<not> stopRequested (mode (drv s))" using sys_step_stop_mono [OF st] played.prems i by auto
  have "in_order (drv s) [xf_id x] d'"
    using out_done_ids [OF played.prems(1) i played(2,3)] out_done_bus [OF played.prems(1) i played(2,3)] played.prems(3)
    unfolding played(4) [symmetric] by (intro in_orderI) simp_all
  with in_order_trans played n show ?case by auto
next
  case (captured ids s a x b x' d')
  have i: "sys_inv s" using reach_inv [OF run_reach] captured by blast
  have st: "sys_step e s (s\<lparr>drv := d', outq := outq s @ new_submits OutEndpoint (drv s) d',
      inq := a @ b @ new_submits InEndpoint (drv s) d'\<rparr>)" using captured(2-4) by (rule sys_step.in_done)
  have n: "\<not> stopRequested (mode (drv s))" using sys_step_stop_mono [OF st] captured.prems i by auto
  have "in_order (drv s) [] d'"
    using in_done_ids [OF captured.prems(1) i captured(2,3)] in_done_bus [OF captured.prems(1) i captured(2,3)] captured.prems(3)
    unfolding captured(4) [symmetric] by (intro in_orderI) simp_all
  with in_order_trans [of "drv s0" ids "drv s" "[]" d'] captured n show ?case by simp
next
  case (paced ids s a x b x' d')
  have i: "sys_inv s" using reach_inv [OF run_reach] paced by blast
  have st: "sys_step e s (s\<lparr>drv := d', fbq := a @ b @ new_submits FeedbackEndpoint (drv s) d'\<rparr>)"
    using paced(2-5) by (rule sys_step.fb_done)
  have n: "\<not> stopRequested (mode (drv s))" using sys_step_stop_mono [OF st] paced.prems i by auto
  have "in_order (drv s) [] d'"
    using fb_done_ids [OF i paced(2,3), of e] fb_done_bus [OF i paced(2,3), of e] paced.prems(3)
    unfolding paced(5) [symmetric] by (auto simp: in_order_def)
  with in_order_trans [of "drv s0" ids "drv s" "[]" d'] paced n show ?case by simp
qed

section \<open>A concrete run\<close>

text \<open>The duplex demonstration with its OUT transfer in flight; the first completion refills and
  resubmits it.\<close>

definition demo_system :: system where
  "demo_system = \<lparr>drv = led_update (inflight_update (\<lambda>_. 1)) demo_duplex, outq = [demo_xfer], inq = [], fbq = [],
     accepted = [1, 2, 3, 4, 5, 6, 7, 8]\<rparr>"

definition demo_next :: system where
  "demo_next = demo_system\<lparr>drv := onIso demo_env demo_xfer (drv demo_system),
     outq := new_submits OutEndpoint (drv demo_system) (onIso demo_env demo_xfer (drv demo_system))\<rparr>"

lemma demo_system_inv: "sys_inv demo_system"
proof -
  let ?d = "led_update (inflight_update (\<lambda>_. 1)) demo_duplex"
  have "transport_ok ?d = transport_ok demo_duplex" by (intro transport_ok_cong) simp_all
  moreover have x: "xfer_ok ?d y = xfer_ok demo_duplex y" for y by (simp add: xfer_ok_def frameBytes_def)
  ultimately have p: "pipeline_ok ?d" using demo_duplex_ok(1) by (simp add: pipeline_ok_def implicit_mode_def)
  have "capture_ok ?d" using demo_duplex_ok(2) capture_ok_cong [of ?d demo_duplex] by simp
  moreover have "pendingImplicit demo_duplex = []" "bus demo_duplex = []" "captureInflight (led demo_duplex) = 0"
    "queuedOutFrames (led demo_duplex) = 0"
    by (simp_all add: demo_duplex_def demo_stream_def demo_driver_def newDriver_def initLedger_def)
  moreover have "ring_contents (ring demo_duplex) = [1, 2, 3, 4, 5, 6, 7, 8]"
    using demo_stream_ok(8) by (simp add: demo_duplex_def)
  moreover have "transfer_frames s demo_xfer = 0" for s by (simp add: transfer_frames_def demo_xfer_def)
  ultimately show ?thesis
    using p x demo_duplex_ok(3) by (simp add: sys_inv_def demo_system_def wire_def frames_sum_def)
qed

lemma demo_reach: "reach demo_env demo_system demo_next"
proof -
  have "out_completion (drv demo_system) demo_xfer demo_xfer"
    by (simp add: out_completion_def demo_xfer_def)
  then have "sys_step demo_env demo_system demo_next"
    using sys_step.out_done [of demo_system "[]" demo_xfer "[]"] by (simp add: demo_next_def demo_system_def)
  then show ?thesis by (rule reach.more [OF reach.start])
qed

lemma demo_next_running: "\<not> stopRequested (mode (drv demo_next))"
proof -
  have "stopRequested (mode (onIso demo_env demo_xfer (drv demo_system))) = stopRequested (mode (drv demo_system))"
    by (intro onIso_accepting [THEN conjunct1])
      (simp_all add: demo_env_def demo_system_def demo_duplex_def demo_stream_def demo_driver_def newDriver_def demo_xfer_def)
  then show ?thesis by (simp add: demo_next_def demo_system_def demo_duplex_def initModes_def)
qed

text \<open>The same driver with two playback transfers waiting for packet sizes and an IN transfer in flight.\<close>

definition demo_waiting :: system where
  "demo_waiting = \<lparr>drv = demo_duplex\<lparr>pendingImplicit := [(demo_xfer, 0), (demo_xfer\<lparr>xf_id := 2\<rparr>, 0)],
       led := (led demo_duplex)\<lparr>captureInflight := 1\<rparr>\<rparr>,
     outq = [], inq = [demo_in], fbq = [], accepted = [1, 2, 3, 4, 5, 6, 7, 8]\<rparr>"

lemma demo_waiting_ok:
  "sys_inv demo_waiting" "pending_ids (drv demo_waiting) = [1, 2]" "in_completion (drv demo_waiting) demo_in demo_in"
  "\<not> stopRequested (mode (onCapture demo_env demo_in (drv demo_waiting)))"
proof -
  let ?d = "drv demo_waiting"
  have d: "transport_ok ?d = transport_ok demo_duplex" "capture_ok ?d = capture_ok demo_duplex"
    "xfer_ok ?d y = xfer_ok demo_duplex y" "captureBytes ?d = captureBytes demo_duplex" "mode ?d = mode demo_duplex" for y
    by (intro transport_ok_cong capture_ok_cong | simp add: demo_waiting_def xfer_ok_def frameBytes_def captureBytes_def)+
  have m: "\<not> stopRequested (mode demo_duplex)" "implicit_mode ?d" "\<not> transportFailed (mode demo_duplex)"
    by (simp_all add: demo_waiting_def demo_duplex_def implicit_mode_def initModes_def demo_stream_def demo_driver_def
        defaultStreamFormat_def)
  have two: "xfer_ok demo_duplex (demo_xfer\<lparr>xf_id := 2\<rparr>)" using demo_duplex_ok(3) by (simp add: xfer_ok_def)
  have "pipeline_ok ?d" using demo_duplex_ok(1,3) two d m by (simp add: pipeline_ok_def) (simp add: demo_waiting_def)
  moreover have "capture_ok ?d" using d(2) demo_duplex_ok(2) by simp
  moreover have "bus demo_duplex = []" "queuedOutFrames (led demo_duplex) = 0" "inflight (led demo_duplex) = 0"
    by (simp_all add: demo_duplex_def demo_stream_def demo_driver_def newDriver_def initLedger_def)
  moreover have "ring_contents (ring demo_duplex) = [1, 2, 3, 4, 5, 6, 7, 8]"
    using demo_stream_ok(8) by (simp add: demo_duplex_def)
  ultimately show "sys_inv demo_waiting"
    by (simp add: sys_inv_def) (simp add: demo_waiting_def wire_def frames_sum_def demo_in_def)
  show "pending_ids ?d = [1, 2]" by (simp add: pending_ids_def demo_waiting_def demo_xfer_def)
  show c: "in_completion ?d demo_in demo_in" using demo_duplex_ok(4) d(4) by (simp add: in_completion_def demo_in_def)
  show "\<not> stopRequested (mode (onCapture demo_env demo_in ?d))"
    using onCapture_accepting [of demo_env ?d demo_in] \<open>capture_ok ?d\<close> c m(1) d(5)
    by (simp add: in_completion_def demo_env_def) (simp add: demo_in_def)
qed

section \<open>Properties\<close>

text \<open>C1. What is on the wire is what was accepted.  In every state the system reaches, however the
  render thread and the completions interleave, the payloads of the submitted OUT transfers form
  a prefix of the bytes the driver accepted, and as long as the transport has not failed they are
  followed exactly by the bytes still in the ring: no byte is lost, duplicated or reordered
  between \<open>writePcm\<close> and the host controller.\<close>

theorem wire_delivers_accepted:
  assumes "packet_law e" "sys_inv s0" "reach e s0 s"
  shows "prefix (wire (drv s)) (accepted s) \<and>
    (\<not> transportFailed (mode (drv s)) \<longrightarrow> wire (drv s) @ ring_contents (ring (drv s)) = accepted s)"
proof -
  obtain lost where "wire (drv s) @ lost @ ring_contents (ring (drv s)) = accepted s"
    "lost = [] \<or> transportFailed (mode (drv s))"
    using reach_inv [OF assms(3,1,2)] by (auto simp: sys_inv_def)
  then show ?thesis by (auto intro: prefixI [OF sym])
qed

theorem wire_delivers_accepted_witness:
  "wire (drv demo_next) @ ring_contents (ring (drv demo_next)) = [1, 2, 3, 4, 5, 6, 7, 8]"
proof -
  have "\<not> transportFailed (mode (drv demo_next))"
    using reach_inv [OF demo_reach demo_stream_ok(3) demo_system_inv] demo_next_running
    by (auto simp: sys_inv_def pipeline_ok_def)
  then show ?thesis
    using wire_delivers_accepted [OF demo_stream_ok(3) demo_system_inv demo_reach]
    by (simp add: demo_next_def demo_system_def)
qed

text \<open>C3. The ledgers are exact in every reachable state: \<open>inflight_\<close> counts the OUT and feedback
  transfers libusb holds, \<open>captureInflight_\<close> the IN transfers, and \<open>queuedOutFrames_\<close> is the number
  of frames in the OUT transfers in flight, without wrap-around and without the clamp of
  \<open>subtractQueued\<close> ever hiding a miscount.\<close>

theorem ledgers_exact:
  assumes "packet_law e" "sys_inv s0" "reach e s0 s"
  shows "inflight (led (drv s)) = int (length (outq s)) + int (length (fbq s)) \<and>
    captureInflight (led (drv s)) = int (length (inq s)) \<and>
    unat (queuedOutFrames (led (drv s))) = (\<Sum>x\<leftarrow>outq s. frames_of (drv s) x)"
proof -
  have i: "sys_inv s" using reach_inv [OF assms(3,1,2)] .
  then have "unat (frames_sum (drv s) (outq s)) = (\<Sum>x\<leftarrow>outq s. frames_of (drv s) x)"
    by (intro frames_sum_nat) (auto simp: sys_inv_def pipeline_ok_def transport_ok_def pb_inv_def playback_ok_def)
  then show ?thesis using i by (simp add: sys_inv_def)
qed

theorem ledgers_exact_witness:
  "inflight (led (drv demo_next)) = int (length (outq demo_next)) \<and>
   unat (queuedOutFrames (led (drv demo_next))) = (\<Sum>x\<leftarrow>outq demo_next. frames_of (drv demo_next) x)"
  using ledgers_exact [OF demo_stream_ok(3) demo_system_inv demo_reach]
  by (simp add: demo_next_def demo_system_def)

text \<open>C4. Transfers are conserved.  While the driver is not stopping, the playback transfers in
  flight together with those waiting in the pending queue are always the ones it started with:
  none is leaked, and none is submitted while libusb still holds it.\<close>

theorem transfers_conserved:
  assumes "packet_law e" "sys_inv s0" "reach e s0 s" "\<not> stopRequested (mode (drv s))"
  shows "mset (map xf_id (outq s) @ pending_ids (drv s)) = mset (map xf_id (outq s0) @ pending_ids (drv s0))"
  using reach_circulating [OF assms(3,1,2,4)] by (simp add: circulating_def)

theorem transfers_conserved_witness:
  "mset (map xf_id (outq demo_next) @ pending_ids (drv demo_next)) = {#1#}"
  using transfers_conserved [OF demo_stream_ok(3) demo_system_inv demo_reach demo_next_running]
  by (simp add: demo_system_def demo_xfer_def pending_ids_def demo_duplex_def demo_stream_def demo_driver_def newDriver_def)

text \<open>C10. Playback transfers go out in the order they completed.  Over any run of a driver that is not
  stopping - application calls, playback, capture and feedback completions in any order - the
  playback transfers submitted in the run, followed by those still waiting, are those that were waiting
  at its start followed by the ones that completed in it: the pending queue is first-in first-out, a
  capture completion submits its oldest transfers first, and nothing overtakes it.\<close>

theorem playback_order_kept:
  assumes "packet_law e" "sys_inv s0" "run e s0 ids s" "\<not> stopRequested (mode (drv s))"
  shows "map xf_id (new_submits OutEndpoint (drv s0) (drv s)) @ pending_ids (drv s) = pending_ids (drv s0) @ ids"
  using run_in_order [OF assms(3,1,2,4)] by (auto simp: in_order_def new_submits_def)

theorem playback_order_kept_witness:
  "let d' = onCapture demo_env demo_in (drv demo_waiting)
   in map xf_id (new_submits OutEndpoint (drv demo_waiting) d') @ pending_ids d' = [1, 2]"
proof -
  let ?d = "onCapture demo_env demo_in (drv demo_waiting)"
  have "run demo_env demo_waiting [] (demo_waiting\<lparr>drv := ?d, outq := outq demo_waiting @ new_submits OutEndpoint (drv demo_waiting) ?d,
      inq := [] @ [] @ new_submits InEndpoint (drv demo_waiting) ?d\<rparr>)"
    using demo_waiting_ok(3) by (intro run.captured [OF run.stay, where x = demo_in]) (simp_all add: demo_waiting_def)
  from playback_order_kept [OF demo_stream_ok(3) demo_waiting_ok(1) this] demo_waiting_ok(2,4)
  show ?thesis by (simp add: Let_def)
qed

text \<open>C2. The pipeline refines the abstract line.  Every step of the system, seen through the bytes
  sent, the bytes queued and the terminal flag, is a step of the abstract line: bytes are appended
  to the queue, or a prefix of the queue is sent, or the line breaks; a broken line sends nothing
  more.\<close>

theorem pipeline_refines_line:
  assumes "packet_law e" "sys_inv s" "sys_step e s s'"
  shows "line_step (line_of (drv s)) (line_of (drv s')) \<and> sys_inv s'"
  using sys_step_line [OF assms(3,1,2)] sys_step_inv [OF assms(3,1,2)] by simp

theorem pipeline_refines_line_witness:
  "line_step (line_of (drv demo_system)) (line_of (drv demo_next))"
proof -
  have "sys_step demo_env demo_system demo_next"
    using sys_step.out_done [of demo_system "[]" demo_xfer "[]" demo_xfer demo_env]
    by (simp add: demo_next_def demo_system_def out_completion_def)
      (simp add: demo_xfer_def)
  then show ?thesis using pipeline_refines_line [OF demo_stream_ok(3) demo_system_inv] by blast
qed

text \<open>C15. A playback completion fails the transport only when libusb does.  If the device is present
  and libusb accepts the submission, no completion of a transfer in flight sets the terminal
  state: the pending queue, sized for the maximum number of transfers, cannot overflow.\<close>

theorem onIso_no_spurious_failure:
  assumes "sys_inv s" "x \<in> set (outq s)" "xf_status x' \<noteq> NoDeviceStatus" "\<forall>h c. usb_rc e h c = 0"
  shows "transportFailed (mode (onIso e x' (drv s))) = transportFailed (mode (drv s)) \<and>
    stopRequested (mode (onIso e x' (drv s))) = stopRequested (mode (drv s))"
proof -
  have "0 < length (outq s)" using assms(2) by auto
  moreover have "length (outq s) + length (pendingImplicit (drv s)) \<le> 8" using assms(1) by (simp add: sys_inv_def)
  ultimately have "length (pendingImplicit (drv s)) < 8" by linarith
  then show ?thesis using onIso_accepting [OF assms(4) _ assms(3)] by simp
qed

theorem onIso_no_spurious_failure_witness:
  "\<not> transportFailed (mode (onIso demo_env demo_xfer (drv demo_system)))"
  using onIso_no_spurious_failure [OF demo_system_inv, of demo_xfer demo_xfer demo_env]
  by (simp add: demo_system_def demo_env_def demo_duplex_def initModes_def) (simp add: demo_xfer_def)

end
