(* ===== verification/Float_Model.thy ===== *)
theory Float_Model
  imports Complex_Main "HOL-Library.Log_Nat"
begin

text \<open>
  The floating-point arithmetic the code uses, on finite values: a \<open>float\<close> or \<open>double\<close> is a
  rational number, and every operation rounds its exact result to the nearest value of the
  format, ties to even (the default rounding mode).  Infinities and NaNs are outside the model;
  the operations of the code on bounded samples stay far from overflow.
\<close>

section \<open>Definitions\<close>

definition pow2 :: "int \<Rightarrow> rat" where
  "pow2 e = (if e \<ge> 0 then 2 ^ nat e else 1 / 2 ^ nat (- e))"

text \<open>Round to nearest integer, ties to even.\<close>

definition rne :: "rat \<Rightarrow> int" where
  "rne r = (let f = \<lfloor>r\<rfloor>; diff = r - of_int f in
     if diff < 1 / 2 then f else if diff > 1 / 2 then f + 1 else if even f then f else f + 1)"

text \<open>The exponent of the leading binary digit.\<close>

definition expo :: "rat \<Rightarrow> int" where
  "expo x = (case quotient_of x of (n, d) \<Rightarrow>
     let k = bitlen n - bitlen d in if x \<ge> pow2 k then k else k - 1)"

text \<open>Rounding to a binary format of \<open>p\<close> significant digits and least exponent \<open>emin\<close>.\<close>

definition fl :: "int \<Rightarrow> int \<Rightarrow> rat \<Rightarrow> rat" where
  "fl p emin x = (if x = 0 then 0 else
     let e = max (expo \<bar>x\<bar> - p + 1) emin in sgn x * of_int (rne (\<bar>x\<bar> / pow2 e)) * pow2 e)"

definition fl32 :: "rat \<Rightarrow> rat" where
  "fl32 = fl 24 (-149)"

definition fl64 :: "rat \<Rightarrow> rat" where
  "fl64 = fl 53 (-1074)"

text \<open>A value of the format.\<close>

definition is_f32 :: "rat \<Rightarrow> bool" where
  "is_f32 x \<longleftrightarrow> (\<exists>m k. \<bar>m\<bar> < 2 ^ 24 \<and> -149 \<le> k \<and> x = of_int m * pow2 k)"

text \<open>\<open>static_cast<int32_t>\<close> truncates towards zero.\<close>

definition trunc :: "rat \<Rightarrow> int" where
  "trunc x = (if x \<ge> 0 then \<lfloor>x\<rfloor> else \<lceil>x\<rceil>)"

text \<open>The correctly rounded square root: an integer square root with 60 digits and a sticky half.\<close>

fun isqrt :: "nat \<Rightarrow> nat" where
  "isqrt n = (if n = 0 then 0 else let r = 2 * isqrt (n div 4) in if (r + 1) * (r + 1) \<le> n then r + 1 else r)"

declare isqrt.simps [simp del]

definition sqrt64 :: "rat \<Rightarrow> rat" where
  "sqrt64 x = (if x \<le> 0 then 0 else
     let k = 60 - expo x div 2; y = x * pow2 (2 * k); s = isqrt (nat \<lfloor>y\<rfloor>)
     in fl64 ((of_nat s + (if of_nat (s * s) = y then 0 else 1 / 2)) / pow2 k))"

section \<open>Lemmas\<close>

lemma pow2_pos [simp]: "0 < pow2 e"
  by (simp add: pow2_def)

lemma pow2_nonzero [simp]: "pow2 e \<noteq> 0"
  by (simp add: pow2_def)

lemma pow2_0 [simp]: "pow2 0 = 1"
  by (simp add: pow2_def)

lemma pow2_add: "pow2 (a + b) = pow2 a * pow2 b"
proof -
  have 1: "pow2 (a + 1) = 2 * pow2 a" for a
  proof (cases "0 \<le> a")
    case True
    then have "nat (a + 1) = Suc (nat a)" by simp
    then show ?thesis using True by (simp add: pow2_def)
  next
    case False
    then have "nat (- a) = Suc (nat (- (a + 1)))" by simp
    then show ?thesis using False by (cases "a = - 1") (simp_all add: pow2_def)
  qed
  show ?thesis
  proof (induction b rule: int_induct [of _ 0])
    case (step1 i)
    then show ?case using 1 [of "a + i"] 1 [of i] by (simp add: algebra_simps)
  next
    case (step2 i)
    then show ?case using 1 [of "a + i - 1"] 1 [of "i - 1"] by (simp add: algebra_simps)
  qed simp
qed

lemma pow2_nat: "pow2 (int n) = 2 ^ n"
  by (simp add: pow2_def)

lemma pow2_mono: "a \<le> b \<Longrightarrow> pow2 a \<le> pow2 b"
proof -
  assume "a \<le> b"
  then obtain n where b: "b = a + int n" using zle_iff_zadd by blast
  have "1 \<le> (2::rat) ^ n" by simp
  then have "pow2 a * 1 \<le> pow2 a * 2 ^ n" by (intro mult_left_mono) (simp_all add: less_imp_le)
  then show ?thesis by (simp add: b pow2_add pow2_nat)
qed

lemma pow2_less: "pow2 a < pow2 b \<Longrightarrow> a < b"
  using pow2_mono [of b a] by linarith

lemma rne_int [simp]: "rne (of_int n) = n"
  by (simp add: rne_def)

lemma rne_bounds: "\<lfloor>r\<rfloor> \<le> rne r" "rne r \<le> \<lfloor>r\<rfloor> + 1" "0 \<le> r \<Longrightarrow> 0 \<le> rne r"
  by (auto simp: rne_def Let_def)

lemma rne_le: "r \<le> of_int n \<Longrightarrow> rne r \<le> n"
proof -
  assume r: "r \<le> of_int n"
  show ?thesis
  proof (cases "r = of_int n")
    case False
    then have "\<lfloor>r\<rfloor> < n" using r by linarith
    then show ?thesis using rne_bounds(2) [of r] by linarith
  qed simp
qed

lemma rne_error: "\<bar>of_int (rne r) - r\<bar> \<le> 1 / 2"
  using floor_correct [of r] by (auto simp: rne_def Let_def)

lemma expo_bounds:
  assumes "0 < x"
  shows "pow2 (expo x) \<le> x" "x < pow2 (expo x + 1)"
proof -
  obtain n d where q: "quotient_of x = (n, d)" by fastforce
  have d: "0 < d" using quotient_of_denom_pos [OF q] .
  have x: "x = of_int n / of_int d" using quotient_of_div [OF q] .
  then have n: "0 < n" using assms d by (simp add: zero_less_divide_iff)
  define a b where "a = bitlen n" and "b = bitlen d"
  have ab: "1 \<le> a" "1 \<le> b" using n d by (simp_all add: a_def b_def bitlen_ge_iff_power)
  have N: "(of_int n :: rat) < pow2 a" "pow2 (a - 1) \<le> (of_int n :: rat)"
  proof -
    have i: "2 ^ nat (a - 1) \<le> n" "n < 2 ^ nat a" using bitlen_bounds [OF n] by (simp_all add: a_def)
    have "(of_int (2 ^ nat (a - 1)) :: rat) \<le> of_int n" "(of_int n :: rat) < of_int (2 ^ nat a)"
      using i by (simp_all only: of_int_le_iff of_int_less_iff)
    then show "(of_int n :: rat) < pow2 a" "pow2 (a - 1) \<le> (of_int n :: rat)" using ab by (simp_all add: pow2_def)
  qed
  have D: "(of_int d :: rat) < pow2 b" "pow2 (b - 1) \<le> (of_int d :: rat)"
  proof -
    have i: "2 ^ nat (b - 1) \<le> d" "d < 2 ^ nat b" using bitlen_bounds [OF d] by (simp_all add: b_def)
    have "(of_int (2 ^ nat (b - 1)) :: rat) \<le> of_int d" "(of_int d :: rat) < of_int (2 ^ nat b)"
      using i by (simp_all only: of_int_le_iff of_int_less_iff)
    then show "(of_int d :: rat) < pow2 b" "pow2 (b - 1) \<le> (of_int d :: rat)" using ab by (simp_all add: pow2_def)
  qed
  have d0: "(0::rat) < of_int d" using d by simp
  have "pow2 (a - b - 1) * of_int d \<le> pow2 (a - b - 1) * pow2 b" using D(1) by (intro mult_left_mono) (simp_all add: less_imp_le)
  also have "\<dots> = pow2 (a - 1)" by (simp flip: pow2_add)
  finally have lo: "pow2 (a - b - 1) \<le> x" using N(2) d0 by (simp add: x le_divide_eq)
  have "pow2 a = pow2 (a - b + 1) * pow2 (b - 1)" by (simp flip: pow2_add)
  also have "\<dots> \<le> pow2 (a - b + 1) * of_int d" using D(2) by (intro mult_left_mono) (simp_all add: less_imp_le)
  finally have hi: "x < pow2 (a - b + 1)" using N(1) d0 by (simp add: x divide_less_eq)
  have e: "expo x = (if x \<ge> pow2 (a - b) then a - b else a - b - 1)"
    by (simp add: expo_def q Let_def a_def b_def)
  show "pow2 (expo x) \<le> x" "x < pow2 (expo x + 1)" using lo hi e by auto
qed

text \<open>Rounding never passes an integer the format represents.\<close>

lemma fl_le_int:
  assumes x: "\<bar>x\<bar> \<le> of_int N" and N: "N < 2 ^ nat p" and p: "0 < p" "emin \<le> 0"
  shows "\<bar>fl p emin x\<bar> \<le> of_int N"
proof (cases "x = 0")
  case True
  then show ?thesis using x by (simp add: fl_def)
next
  case False
  then have "0 < \<bar>x\<bar>" by simp
  note E = expo_bounds [OF this]
  have "(of_int N :: rat) < of_int (2 ^ nat p)" using N by (simp only: of_int_less_iff)
  then have "(of_int N :: rat) < pow2 p" using p by (simp add: pow2_def)
  then have "pow2 (expo \<bar>x\<bar>) < pow2 p" using E(1) x by linarith
  then have "expo \<bar>x\<bar> < p" by (rule pow2_less)
  then have e0: "max (expo \<bar>x\<bar> - p + 1) emin \<le> 0" using p by simp
  define e where "e = max (expo \<bar>x\<bar> - p + 1) emin"
  have pe: "(of_int N :: rat) = of_int (N * 2 ^ nat (- e)) * pow2 e"
  proof -
    have "pow2 e * 2 ^ nat (- e) = (1 :: rat)"
      using pow2_add [of e "- e"] e0 by (simp add: e_def [symmetric] pow2_def [of "- e"])
    then show ?thesis by (simp add: mult.commute mult.left_commute)
  qed
  have "\<bar>x\<bar> / pow2 e \<le> of_int (N * 2 ^ nat (- e))"
    using x by (simp only: pos_divide_le_eq [OF pow2_pos] pe [symmetric])
  then have "rne (\<bar>x\<bar> / pow2 e) \<le> N * 2 ^ nat (- e)" by (rule rne_le)
  then have "(of_int (rne (\<bar>x\<bar> / pow2 e)) :: rat) \<le> of_int (N * 2 ^ nat (- e))" by (simp only: of_int_le_iff)
  then have "of_int (rne (\<bar>x\<bar> / pow2 e)) * pow2 e \<le> of_int (N * 2 ^ nat (- e)) * pow2 e"
    by (intro mult_right_mono) (simp_all add: less_imp_le)
  also have "\<dots> = of_int N" by (simp only: pe [symmetric])
  finally have "of_int (rne (\<bar>x\<bar> / pow2 e)) * pow2 e \<le> of_int N" .
  moreover have "0 \<le> rne (\<bar>x\<bar> / pow2 e)" by (intro rne_bounds) (simp add: less_imp_le)
  ultimately show ?thesis
    using False by (simp add: fl_def Let_def e_def [symmetric] abs_mult abs_sgn_eq abs_of_pos)
qed

text \<open>Rounding leaves the format's own values alone.\<close>

lemma fl_exact:
  assumes "\<bar>m\<bar> < 2 ^ nat p" "0 < p" "emin \<le> k"
  shows "fl p emin (of_int m * pow2 k) = of_int m * pow2 k"
proof (cases "m = 0")
  case True
  then show ?thesis by (simp add: fl_def)
next
  case False
  define x :: rat where "x = of_int m * pow2 k"
  have x0: "x \<noteq> 0" "0 < \<bar>x\<bar>" and ax: "\<bar>x\<bar> = of_int \<bar>m\<bar> * pow2 k"
    using False pow2_pos [of k] by (auto simp: x_def abs_mult simp del: pow2_pos)
  have "(of_int \<bar>m\<bar> :: rat) < of_int (2 ^ nat p)" using assms(1) by (simp only: of_int_less_iff)
  then have "of_int \<bar>m\<bar> * pow2 k < pow2 p * pow2 k" using assms(2) by (intro mult_strict_right_mono) (simp_all add: pow2_def [of p])
  then have "\<bar>x\<bar> < pow2 (p + k)" by (simp add: pow2_add ax)
  then have "pow2 (expo \<bar>x\<bar>) < pow2 (p + k)" by (rule le_less_trans [OF expo_bounds(1) [OF x0(2)]])
  then have "expo \<bar>x\<bar> < p + k" by (rule pow2_less)
  then have le: "max (expo \<bar>x\<bar> - p + 1) emin \<le> k" using assms(3) by simp
  define e where "e = max (expo \<bar>x\<bar> - p + 1) emin"
  have ke: "pow2 k = 2 ^ nat (k - e) * pow2 e"
    using pow2_add [of "k - e" e] le by (simp add: e_def [symmetric] pow2_def [of "k - e"])
  have "\<bar>x\<bar> / pow2 e = of_int (\<bar>m\<bar> * 2 ^ nat (k - e))" by (simp add: ax ke)
  then have "rne (\<bar>x\<bar> / pow2 e) = \<bar>m\<bar> * 2 ^ nat (k - e)" by (simp only: rne_int)
  then have "of_int (rne (\<bar>x\<bar> / pow2 e)) * pow2 e = \<bar>x\<bar>" by (simp add: ax ke)
  then have "fl p emin x = sgn x * \<bar>x\<bar>"
    using x0 by (simp add: fl_def Let_def e_def [symmetric] mult.assoc)
  then show ?thesis by (simp add: x_def [symmetric] sgn_mult_abs)
qed

lemma fl_int: "\<bar>m\<bar> < 2 ^ nat p \<Longrightarrow> 0 < p \<Longrightarrow> emin \<le> 0 \<Longrightarrow> fl p emin (of_int m) = of_int m"
  using fl_exact [of m p emin 0] by simp

text \<open>Rounding errs by half a unit in the last place.\<close>

lemma fl_error:
  assumes x: "\<bar>x\<bar> < pow2 n" and e0: "emin \<le> n - p"
  shows "\<bar>fl p emin x - x\<bar> \<le> pow2 (n - p) / 2"
proof (cases "x = 0")
  case True
  then show ?thesis by (simp add: fl_def less_imp_le)
next
  case False
  then have a: "0 < \<bar>x\<bar>" by simp
  define e where "e = max (expo \<bar>x\<bar> - p + 1) emin"
  have "pow2 (expo \<bar>x\<bar>) < pow2 n" using expo_bounds(1) [OF a] x by (rule le_less_trans)
  then have "e \<le> n - p" using pow2_less e0 by (force simp: e_def)
  then have pe: "pow2 e \<le> pow2 (n - p)" by (rule pow2_mono)
  define q where "q = (of_int (rne (\<bar>x\<bar> / pow2 e)) :: rat)"
  have "fl p emin x = sgn x * (q * pow2 e)" using False by (simp add: fl_def Let_def e_def [symmetric] q_def)
  then have "fl p emin x - x = sgn x * (q * pow2 e - \<bar>x\<bar>)" by (simp add: right_diff_distrib sgn_mult_abs)
  then have "\<bar>fl p emin x - x\<bar> = \<bar>q * pow2 e - \<bar>x\<bar>\<bar>" using False by (simp add: abs_mult abs_sgn_eq)
  also have "q * pow2 e - \<bar>x\<bar> = (q - \<bar>x\<bar> / pow2 e) * pow2 e" by (simp add: left_diff_distrib)
  also have "\<bar>(q - \<bar>x\<bar> / pow2 e) * pow2 e\<bar> = \<bar>q - \<bar>x\<bar> / pow2 e\<bar> * pow2 e" by (simp add: abs_mult abs_of_pos)
  also have "\<dots> \<le> 1 / 2 * pow2 e"
    using rne_error [of "\<bar>x\<bar> / pow2 e"] by (intro mult_right_mono) (simp_all add: q_def less_imp_le)
  finally show ?thesis using pe by simp
qed

lemma trunc_error: "\<bar>of_int (trunc x) - x\<bar> < 1"
  using floor_correct [of x] ceiling_correct [of x] unfolding trunc_def by (auto simp: abs_less_iff) linarith+

lemma trunc_int [simp]: "trunc (of_int z) = z"
  by (simp add: trunc_def)

lemma trunc_bounds: "\<bar>x\<bar> \<le> of_int N \<Longrightarrow> \<bar>trunc x\<bar> \<le> N"
  by (auto simp: trunc_def abs_le_iff le_floor_iff floor_le_iff ceiling_le_iff le_ceiling_iff) linarith+

lemma isqrt_correct: "isqrt n * isqrt n \<le> n \<and> n < (isqrt n + 1) * (isqrt n + 1)"
proof (induction n rule: isqrt.induct)
  case (1 n)
  show ?case
  proof (cases "n = 0")
    case True
    then show ?thesis by (simp add: isqrt.simps [of 0])
  next
    case False
    define m where "m = isqrt (n div 4)"
    have ih: "m * m \<le> n div 4" "n div 4 < (m + 1) * (m + 1)" using 1 [OF False] by (simp_all add: m_def)
    have "(2 * m) * (2 * m) \<le> n" using ih(1) by (simp add: algebra_simps)
    moreover have "n < (2 * m + 1 + 1) * (2 * m + 1 + 1)"
    proof -
      have "n div 4 + 1 \<le> (m + 1) * (m + 1)" using ih(2) by simp
      then show ?thesis by (simp add: algebra_simps)
    qed
    moreover have "isqrt n = (if (2 * m + 1) * (2 * m + 1) \<le> n then 2 * m + 1 else 2 * m)"
      using False by (subst isqrt.simps) (simp add: Let_def m_def)
    ultimately show ?thesis by (auto simp: not_le)
  qed
qed

end
