(* ===== verification/Pcm.thy ===== *)
theory Pcm
  imports Float_Model Playback Capture
begin

text \<open>
  Sample conversion of \<^verbatim>\<open>include/liblowlatencyaudio/DirectUsbOutput.h\<close>: packing float samples into
  little-endian subslots and back, over regions that the ring splits into two spans.  The template
  parameters \<open>Bits\<close> and \<open>Bytes\<close> are ordinary arguments.  The scale of 32-bit samples is written
  \<open>2147483647.0f\<close>, which as a \<open>float\<close> is \<open>2147483648\<close>.
\<close>

section \<open>One sample\<close>

definition valid_bytes :: "int \<Rightarrow> nat" where
  "valid_bytes bits = nat ((bits + 7) div 8)"

definition pcm_sample :: "int \<Rightarrow> rat \<Rightarrow> int" where
  "pcm_sample bits value =
     (if bits = 16 then
        (if value \<ge> 1 then 32767 else if value \<le> -1 then -32768 else trunc (fl32 (value * 32767)))
      else if bits = 24 then
        (if value \<ge> 1 then 8388607 else if value \<le> -1 then -8388608 else trunc (fl32 (value * 8388607)))
      else
        (if value \<ge> 1 then 2147483647 else if value \<le> -1 then -2147483648
         else trunc (fl32 (value * 2147483648))))"

definition packPcm :: "int \<Rightarrow> nat \<Rightarrow> rat \<Rightarrow> bytes" where
  "packPcm bits nbytes value =
     (let shift = 8 * (nbytes - valid_bytes bits);
          subslot = push_bit shift (u32_of_int (pcm_sample bits value))
      in map (\<lambda>byte. ucast (drop_bit (8 * byte) subslot)) [0..<nbytes])"

definition unpack_int :: "int \<Rightarrow> bytes \<Rightarrow> int" where
  "unpack_int bits input =
     (if bits = 16 then
        let w = ucast (le16 (input ! 0) (input ! 1)) :: u32
        in sint (if w AND 0x8000 \<noteq> 0 then w OR 0xFFFF0000 else w)
      else if bits = 24 then
        let w = le24 (input ! 0) (input ! 1) (input ! 2)
        in sint (if w AND 0x00800000 \<noteq> 0 then w OR 0xFF000000 else w)
      else sint (le32 (input ! 0) (input ! 1) (input ! 2) (input ! 3)))"

definition unpackPcm :: "int \<Rightarrow> bytes \<Rightarrow> rat \<Rightarrow> rat" where
  "unpackPcm bits input scale = fl32 (fl32 (of_int (unpack_int bits input)) / scale)"

section \<open>Runs and regions\<close>

text \<open>The adapter's session-fixed format.\<close>

record pack_format =
  deviceChannels :: int
  outputPair :: int
  formatBits :: int
  formatBytes :: int

text \<open>One frame: silence on every channel but the selected pair.\<close>

definition pack_frame :: "pack_format \<Rightarrow> rat \<Rightarrow> rat \<Rightarrow> bytes" where
  "pack_frame f l r =
     (let nb = nat (formatBytes f); leftOffset = nat (outputPair f * 2) * nb;
          blank = replicate (nat (deviceChannels f) * nb) 0
      in memcpy_at (leftOffset + nb) (packPcm (formatBits f) nb r)
           (memcpy_at leftOffset (packPcm (formatBits f) nb l) blank))"

definition packStereoRun :: "pack_format \<Rightarrow> nat \<Rightarrow> rat list \<Rightarrow> rat list \<Rightarrow> bytes" where
  "packStereoRun f frames left right =
     concat (map (\<lambda>i. pack_frame f (left ! i) (right ! i)) [0..<frames])"

text \<open>Packing into a region: the bytes written to the two spans.  A frame that straddles the wrap is
  packed aside and copied in two pieces.\<close>

definition packPlaybackRegion ::
  "pack_format \<Rightarrow> nat \<Rightarrow> nat \<Rightarrow> nat \<Rightarrow> rat list \<Rightarrow> rat list \<Rightarrow> bytes \<times> bytes" where
  "packPlaybackRegion f stride firstBytes frames left right =
     (let firstFrames = firstBytes div stride;
          run1 = packStereoRun f firstFrames left right;
          splitBytes = firstBytes - firstFrames * stride;
          splitFrame = packStereoRun f 1 (drop firstFrames left) (drop firstFrames right);
          (tail1, head2, sourceFrame) =
            (if splitBytes > 0
             then (take splitBytes splitFrame, take (stride - splitBytes) (drop splitBytes splitFrame),
                   firstFrames + 1)
             else ([], [], firstFrames));
          run2 = packStereoRun f (frames - sourceFrame) (drop sourceFrame left) (drop sourceFrame right)
      in (run1 @ tail1, head2 @ run2))"

text \<open>The format dispatch: combinations the templates reject report failure.\<close>

definition packPlaybackRegionForBits :: "pack_format \<Rightarrow> bool" where
  "packPlaybackRegionForBits f =
     (if formatBytes f = 2 then valid_bytes (formatBits f) \<le> 2
      else if formatBytes f = 3 then valid_bytes (formatBits f) \<le> 3
      else formatBytes f = 4)"

definition packPlaybackRegionForFormat ::
  "pack_format \<Rightarrow> nat \<Rightarrow> nat \<Rightarrow> nat \<Rightarrow> rat list \<Rightarrow> rat list \<Rightarrow> (bytes \<times> bytes) option" where
  "packPlaybackRegionForFormat f stride firstBytes frames left right =
     (if (formatBits f = 16 \<or> formatBits f = 24 \<or> formatBits f = 32) \<and> packPlaybackRegionForBits f
      then Some (packPlaybackRegion f stride firstBytes frames left right) else None)"

definition capture_scale :: "int \<Rightarrow> rat" where
  "capture_scale bits = (if bits = 16 then 32768 else if bits = 24 then 8388608 else 2147483648)"

definition unpackCaptureRun :: "int \<Rightarrow> bytes \<Rightarrow> nat \<Rightarrow> nat \<Rightarrow> nat \<Rightarrow> rat list" where
  "unpackCaptureRun bits source frames stride sampleOffset =
     map (\<lambda>frame. unpackPcm bits (drop (frame * stride + sampleOffset) source) (capture_scale bits)) [0..<frames]"

text \<open>One channel of a capture region; \<open>first\<close> and \<open>second\<close> are its two spans.\<close>

definition unpackCaptureChannel :: "int \<Rightarrow> bytes \<Rightarrow> bytes \<Rightarrow> nat \<Rightarrow> nat \<Rightarrow> nat \<Rightarrow> rat list" where
  "unpackCaptureChannel bits first second stride sampleOffset frames =
     (if frames = 0 \<or> stride = 0 then []
      else
        let firstFrames = min frames (length first div stride);
            run1 = unpackCaptureRun bits first firstFrames stride sampleOffset;
            splitBytes = length first - firstFrames * stride;
            (run2, out, secondOffset) =
              (if splitBytes > 0 \<and> firstFrames < frames
               then (unpackCaptureRun bits
                       (drop (firstFrames * stride) first @ take (stride - splitBytes) second)
                       1 stride sampleOffset, firstFrames + 1, stride - splitBytes)
               else ([], firstFrames, 0));
            run3 = (if out < frames
                    then unpackCaptureRun bits (drop secondOffset second) (frames - out) stride sampleOffset
                    else [])
        in run1 @ run2 @ run3)"

section \<open>Lemmas: range and round trip\<close>

lemma trunc_less: "\<bar>x\<bar> < of_int N \<Longrightarrow> \<bar>trunc x\<bar> < N"
proof -
  assume x: "\<bar>x\<bar> < of_int N"
  show ?thesis
  proof (cases "0 \<le> x")
    case True
    then have "0 \<le> \<lfloor>x\<rfloor>" "\<lfloor>x\<rfloor> < N" using x by (simp_all add: floor_less_iff)
    then show ?thesis using True by (simp add: trunc_def)
  next
    case False
    have "of_int (- N) < x" using x False by simp
    then have "- N < \<lceil>x\<rceil>" by (simp only: less_ceiling_iff)
    moreover have "\<lceil>x\<rceil> \<le> 0" using False by simp
    ultimately show ?thesis using False by (simp add: trunc_def)
  qed
qed

lemma pcm_sample_range:
  assumes "is_f32 v" "bits = 16 \<or> bits = 24 \<or> bits = 32"
  shows "- (2 ^ nat (bits - 1)) \<le> pcm_sample bits v" "pcm_sample bits v < 2 ^ nat (bits - 1)"
proof -
  have small: "\<bar>trunc (fl32 (v * of_int N))\<bar> \<le> N" if "\<bar>v\<bar> < 1" "0 < N" "N < 2 ^ 24" for N
  proof -
    have "\<bar>v * of_int N\<bar> \<le> of_int N"
      using that mult_right_mono [of "\<bar>v\<bar>" 1 "of_int N"] by (simp add: abs_mult)
    then have "\<bar>fl32 (v * of_int N)\<bar> \<le> of_int N"
      unfolding fl32_def using that(3) by (intro fl_le_int) simp_all
    then show ?thesis by (rule trunc_bounds)
  qed
  have big: "\<bar>trunc (fl32 (v * 2147483648))\<bar> < 2147483648" if "\<bar>v\<bar> < 1"
  proof -
    obtain m k where mk: "\<bar>m\<bar> < 2 ^ 24" "-149 \<le> k" "v = of_int m * pow2 k" using assms(1) by (auto simp: is_f32_def)
    have eq: "v * 2147483648 = of_int m * pow2 (k + 31)" by (simp add: mk(3) pow2_add pow2_def [of 31])
    have "fl32 (v * 2147483648) = v * 2147483648"
      unfolding eq fl32_def using mk by (intro fl_exact) simp_all
    moreover have "\<bar>v * 2147483648\<bar> < of_int 2147483648" using that by (simp add: abs_mult)
    ultimately show ?thesis by (simp only: trunc_less)
  qed
  have v: "\<bar>v\<bar> < 1" if "\<not> v \<ge> 1" "\<not> v \<le> -1" using that by linarith
  show "- (2 ^ nat (bits - 1)) \<le> pcm_sample bits v" "pcm_sample bits v < 2 ^ nat (bits - 1)"
    using assms(2) small [of 32767] small [of 8388607] big v by (auto simp: pcm_sample_def)
qed

text \<open>Bytes of a word, and their reassembly.\<close>

lemma bytes_of_subslot:
  assumes "s + j \<le> 3"
  shows "(ucast (drop_bit (8 * (s + j)) (push_bit (8 * s) w)) :: u8) = ucast (drop_bit (8 * j) (w :: u32))"
proof (rule bit_word_eqI)
  fix n assume "n < LENGTH(8)"
  then have "8 * (s + j) + n < 32" using assms by simp
  then show "bit (ucast (drop_bit (8 * (s + j)) (push_bit (8 * s) w)) :: u8) n = bit (ucast (drop_bit (8 * j) w) :: u8) n"
    by (simp add: bit_simps algebra_simps)
qed

lemma signed_high_bits:
  assumes "- (2 ^ m) \<le> z" "z < 2 ^ m" "m \<le> n" "n < 32"
  shows "bit (word_of_int z :: u32) n = bit (word_of_int z :: u32) m"
proof -
  have "signed_take_bit m z = z" using assms by (intro signed_take_bit_int_eq_self)
  then have "bit z n = bit z m" using assms(3) bit_signed_take_bit_iff [of m z n] by simp
  then show ?thesis using assms by (simp add: bit_simps)
qed

lemma le32_bytes: "le32 (ucast w) (ucast (drop_bit 8 w)) (ucast (drop_bit 16 w)) (ucast (drop_bit 24 w)) = (w :: u32)"
proof (rule bit_word_eqI)
  fix n assume "n < LENGTH(32)"
  then have "n < 32" by simp
  then show "bit (le32 (ucast w) (ucast (drop_bit 8 w)) (ucast (drop_bit 16 w)) (ucast (drop_bit 24 w))) n = bit (w) n"
    by (cases "n < 8"; cases "n < 16"; cases "n < 24") (auto simp: le32_def bit_simps not_less)
qed

lemma le24_bytes: "le24 (ucast w) (ucast (drop_bit 8 w)) (ucast (drop_bit 16 w)) = take_bit 24 (w :: u32)"
proof (rule bit_word_eqI)
  fix n :: nat
  show "bit (le24 (ucast w) (ucast (drop_bit 8 w)) (ucast (drop_bit 16 w))) n = bit (take_bit 24 w) n"
    by (cases "n < 8"; cases "n < 16"; cases "n < 24") (auto simp: le24_def bit_simps not_less)
qed

lemma le16_bytes: "(ucast (le16 (ucast w) (ucast (drop_bit 8 w))) :: u32) = take_bit 16 (w :: u32)"
proof (rule bit_word_eqI)
  fix n :: nat
  show "bit (ucast (le16 (ucast w) (ucast (drop_bit 8 w))) :: u32) n = bit (take_bit 16 w) n"
    by (cases "n < 8"; cases "n < 16"; cases "n < 24") (auto simp: le16_def bit_simps not_less)
qed

text \<open>Setting the bits above the sign bit restores a number that fits.\<close>

lemma sign_extend:
  assumes "- (2 ^ m) \<le> z" "z < 2 ^ m" "m < 31" "k = Suc m" "w = word_of_int z"
  shows "(if take_bit k w AND push_bit m 1 \<noteq> 0 then take_bit k w OR push_bit k (mask (32 - k))
    else take_bit k w) = (w :: u32)"
proof -
  have "take_bit k w AND push_bit m 1 = (if bit w m then push_bit m 1 else 0)"
    by (rule bit_word_eqI) (use assms(4) in \<open>auto simp: bit_simps\<close>)
  moreover have "push_bit m (1::u32) \<noteq> 0"
  proof
    assume z: "push_bit m (1::u32) = 0"
    have "bit (push_bit m (1::u32)) m"
      using assms(3) by (simp only: bit_push_bit_iff) simp
    then show False unfolding z by simp
  qed
  ultimately have c: "take_bit k w AND push_bit m 1 \<noteq> 0 \<longleftrightarrow> bit w m" by simp
  show ?thesis
  proof (rule bit_word_eqI)
    fix n assume "n < LENGTH(32)"
    then have n: "n < 32" by simp
    have h: "bit w n = bit w m" if "m \<le> n" using signed_high_bits [OF assms(1,2) that n] by (simp add: assms(5))
    have k: "k \<le> 31" "n < k \<longleftrightarrow> n \<le> m" using assms(3,4) by auto
    have pm: "bit (push_bit k (mask (32 - k)) :: u32) n \<longleftrightarrow> k \<le> n"
      using n k(1) by (auto simp: bit_push_bit_iff bit_mask_iff)
    show "bit (if take_bit k w AND push_bit m 1 \<noteq> 0 then take_bit k w OR push_bit k (mask (32 - k))
        else take_bit k w) n = bit w n"
      unfolding c using h n k by (cases "n \<le> m") (auto simp: pm bit_or_iff bit_take_bit_iff)
  qed
qed

lemma sign_masks:
  "(0x8000 :: u32) = push_bit 15 1" "(0xFFFF0000 :: u32) = push_bit 16 (mask (32 - 16))"
  "(0x800000 :: u32) = push_bit 23 1" "(0xFF000000 :: u32) = push_bit 24 (mask (32 - 24))"
  by (simp_all add: mask_eq_exp_minus_1 push_bit_eq_mult)

text \<open>Reading the low bytes of a sample word back.\<close>

lemma unpack_int_word:
  assumes "bits = 16 \<or> bits = 24 \<or> bits = 32" "- (2 ^ nat (bits - 1)) \<le> z" "z < 2 ^ nat (bits - 1)"
    and "\<forall>j<valid_bytes bits. bs ! j = ucast (drop_bit (8 * j) (u32_of_int z))"
  shows "unpack_int bits bs = z"
proof -
  define w where "w = u32_of_int z"
  have s: "sint w = z" using assms(1-3) unfolding w_def u32_of_int_def by (intro sint_word32_id) auto
  from assms(1) consider "bits = 16" | "bits = 24" | "bits = 32" by blast
  then show ?thesis
  proof cases
    case 1
    have "bs ! 0 = ucast w" "bs ! 1 = ucast (drop_bit 8 w)" using assms(4) 1 by (simp_all add: valid_bytes_def w_def)
    moreover have "(if take_bit 16 w AND 0x8000 \<noteq> 0 then take_bit 16 w OR 0xFFFF0000 else take_bit 16 w) = w"
      using sign_extend [of 15 z 16 w, folded sign_masks] assms(2,3) 1
      by (simp add: w_def u32_of_int_def)
    ultimately show ?thesis using 1 s by (simp add: unpack_int_def Let_def le16_bytes split del: if_split)
  next
    case 2
    have "bs ! 0 = ucast w" "bs ! 1 = ucast (drop_bit 8 w)" "bs ! 2 = ucast (drop_bit 16 w)"
      using assms(4) 2 by (simp_all add: valid_bytes_def w_def)
    moreover have "(if take_bit 24 w AND 0x800000 \<noteq> 0 then take_bit 24 w OR 0xFF000000 else take_bit 24 w) = w"
      using sign_extend [of 23 z 24 w, folded sign_masks] assms(2,3) 2
      by (simp add: w_def u32_of_int_def)
    ultimately show ?thesis using 2 s by (simp add: unpack_int_def Let_def le24_bytes split del: if_split)
  next
    case 3
    have "bs ! 0 = ucast w" "bs ! 1 = ucast (drop_bit 8 w)" "bs ! 2 = ucast (drop_bit 16 w)" "bs ! 3 = ucast (drop_bit 24 w)"
      using assms(4) 3 by (simp_all add: valid_bytes_def w_def)
    then show ?thesis using 3 s by (simp add: unpack_int_def le32_bytes)
  qed
qed

section \<open>Lemmas: how close a sample comes back\<close>

text \<open>What the playback side scales by in 16- and 24-bit samples, and the exactness of the way back.\<close>

lemma unpack_exact:
  assumes "unpack_int bits bs = z" "\<bar>m\<bar> < 2 ^ 24" "of_int z = of_int m * pow2 k" "-118 \<le> k"
    and "bits = 16 \<or> bits = 24 \<or> bits = 32"
  shows "unpackPcm bits bs (capture_scale bits) = of_int z / capture_scale bits"
proof -
  obtain j where j: "capture_scale bits = pow2 j" "j \<le> 31"
    using assms(5) that [of 15] that [of 23] that [of 31] by (auto simp: capture_scale_def pow2_def)
  have "pow2 (k - j) * pow2 j = pow2 k" using pow2_add [of "k - j" j] by simp
  then have q: "of_int z / pow2 j = of_int m * pow2 (k - j)" using assms(3) by (simp add: divide_eq_eq)
  have "fl32 (of_int z) = of_int z" unfolding fl32_def assms(3) using assms(2,4) by (intro fl_exact) simp_all
  moreover have "fl32 (of_int z / pow2 j) = of_int z / pow2 j"
    unfolding fl32_def q using assms(2,4) j(2) by (intro fl_exact) simp_all
  ultimately show ?thesis by (simp add: unpackPcm_def assms(1) j(1))
qed

lemma scaled_sample:
  assumes v: "\<bar>v\<bar> < 1" and N: "0 < N" "N < 2 ^ 23"
  shows "\<bar>of_int (trunc (fl32 (v * of_int N))) - v * (of_int N + 1)\<bar> \<le> 9 / 4"
proof -
  have "\<bar>v\<bar> * of_int N \<le> 1 * of_int N" using v N(1) by (intro mult_right_mono) simp_all
  moreover have "(of_int N :: rat) < of_int (2 ^ 23)" using N(2) by (simp only: of_int_less_iff)
  ultimately have "\<bar>v\<bar> * of_int N < of_int (2 ^ 23)" by linarith
  then have "\<bar>v * of_int N\<bar> < pow2 23" using N(1) by (simp add: abs_mult pow2_def)
  from fl_error [OF this, of "-149" 24] have "\<bar>fl32 (v * of_int N) - v * of_int N\<bar> \<le> 1 / 4" by (simp add: fl32_def pow2_def)
  moreover have "\<bar>of_int (trunc (fl32 (v * of_int N))) - fl32 (v * of_int N)\<bar> < 1" by (rule trunc_error)
  ultimately show ?thesis using v unfolding distrib_left by linarith
qed

lemma wide_sample:
  assumes "is_f32 v" "\<bar>v\<bar> < 1"
  obtains m k where "\<bar>m\<bar> < 2 ^ 24" "-118 \<le> k" "of_int (trunc (fl32 (v * 2147483648))) = of_int m * pow2 k"
    "\<bar>of_int (trunc (fl32 (v * 2147483648))) - v * 2147483648\<bar> < 1"
proof -
  obtain m k where mk: "\<bar>m\<bar> < 2 ^ 24" "-149 \<le> k" "v = of_int m * pow2 k" using assms(1) by (auto simp: is_f32_def)
  have eq: "v * 2147483648 = of_int m * pow2 (k + 31)" by (simp add: mk(3) pow2_add pow2_def [of 31])
  have f: "fl32 (v * 2147483648) = v * 2147483648" unfolding eq fl32_def using mk by (intro fl_exact) simp_all
  define s where "s = trunc (v * 2147483648)"
  have err: "\<bar>of_int s - v * 2147483648\<bar> < 1" unfolding s_def by (rule trunc_error)
  show ?thesis
  proof (cases "0 \<le> k + 31")
    case True
    then have "v * 2147483648 = of_int (m * 2 ^ nat (k + 31))" unfolding eq by (simp add: pow2_def)
    then have "of_int s = of_int m * pow2 (k + 31)" unfolding s_def by (metis trunc_int eq)
    then show ?thesis using that [of m "k + 31"] mk err unfolding f s_def [symmetric] by simp
  next
    case False
    have "pow2 (k + 31) \<le> 1" using pow2_mono [of "k + 31" 0] False by simp
    then have "\<bar>of_int m\<bar> * pow2 (k + 31) \<le> \<bar>of_int m\<bar> * 1" by (intro mult_left_mono) simp_all
    moreover have "(of_int \<bar>m\<bar> :: rat) < of_int (2 ^ 24)" using mk(1) by (simp only: of_int_less_iff)
    ultimately have "\<bar>v * 2147483648\<bar> < of_int (2 ^ 24)" unfolding eq by (simp add: abs_mult abs_of_pos)
    then have "\<bar>s\<bar> < 2 ^ 24" unfolding s_def by (rule trunc_less)
    then show ?thesis using that [of s 0] err unfolding f s_def [symmetric] by simp
  qed
qed

lemma full_scale_float: "fl32 2147483647 = 2147483648"
proof -
  have "pow2 (expo 2147483647) \<le> 2147483647" "2147483647 < pow2 (expo 2147483647 + 1)" by (rule expo_bounds, simp)+
  moreover have "pow2 30 = 1073741824" "pow2 31 = 2147483648" by (simp_all add: pow2_def)
  ultimately have "pow2 30 < pow2 (expo 2147483647 + 1)" "pow2 (expo 2147483647) < pow2 31" by linarith+
  from pow2_less [OF this(1)] pow2_less [OF this(2)] have "expo 2147483647 = 30" by simp
  moreover have "\<lfloor>2147483647 / 128 :: rat\<rfloor> = 16777215" by (simp add: floor_eq_iff)
  ultimately show ?thesis by (simp add: fl32_def fl_def Let_def rne_def pow2_def)
qed

lemma sample_error:
  assumes f: "is_f32 v" and b: "bits = 16 \<or> bits = 24 \<or> bits = 32" and u: "unpack_int bits bs = pcm_sample bits v"
  shows "\<bar>unpackPcm bits bs (capture_scale bits) - max (-1) (min 1 v)\<bar> \<le> 9 / 4 / capture_scale bits"
proof -
  let ?s = "pcm_sample bits v" and ?u = "unpackPcm bits bs (capture_scale bits)"
  have S: "0 < capture_scale bits" by (simp add: capture_scale_def)
  have close: "?thesis" if "?u = of_int ?s / capture_scale bits" "\<bar>v\<bar> < 1" "\<bar>of_int ?s - v * capture_scale bits\<bar> \<le> 9 / 4"
  proof -
    have "?u - v = (of_int ?s - v * capture_scale bits) / capture_scale bits" using that(1) S by (simp add: diff_divide_distrib)
    then have "\<bar>?u - v\<bar> = \<bar>of_int ?s - v * capture_scale bits\<bar> / capture_scale bits" using S by simp
    also have "\<dots> \<le> 9 / 4 / capture_scale bits" using that(3) S by (intro divide_right_mono) simp_all
    finally have "\<bar>?u - v\<bar> \<le> 9 / 4 / capture_scale bits" .
    then show ?thesis using that(2) by (simp add: max_def min_def abs_less_iff)
  qed
  consider "v \<ge> 1" "bits = 32" | "v \<ge> 1" "bits \<noteq> 32" | "v \<le> -1" | "\<bar>v\<bar> < 1" "bits = 32" | "\<bar>v\<bar> < 1" "bits \<noteq> 32" by linarith
  then show ?thesis
  proof cases
    case 1
    then have "?u = 1" using u full_scale_float fl_int [of 1 24 "-149"] by (simp add: unpackPcm_def pcm_sample_def capture_scale_def fl32_def)
    then show ?thesis using 1 S by (simp add: max_def min_def)
  next
    case 2
    have "?u = of_int ?s / capture_scale bits"
      using 2 b by (intro unpack_exact [OF u, of ?s 0]) (auto simp: pcm_sample_def)
    then show ?thesis using 2 b by (auto simp: pcm_sample_def capture_scale_def max_def min_def)
  next
    case 3
    have "?u = of_int ?s / capture_scale bits"
      using 3 b by (intro unpack_exact [OF u, of "-1" "bits - 1"]) (auto simp: pcm_sample_def pow2_def)
    then show ?thesis using 3 b by (auto simp: pcm_sample_def capture_scale_def max_def min_def)
  next
    case 4
    then have s: "?s = trunc (fl32 (v * 2147483648))" by (auto simp: pcm_sample_def)
    obtain m k where "\<bar>m\<bar> < 2 ^ 24" "-118 \<le> k" "of_int ?s = of_int m * pow2 k" "\<bar>of_int ?s - v * 2147483648\<bar> < 1"
      using wide_sample [OF f 4(1)] unfolding s by metis
    then show ?thesis using close unpack_exact [OF u, of m k] 4 by (simp add: capture_scale_def)
  next
    case 5
    then have "\<not> 1 \<le> v" "\<not> v \<le> -1" by linarith+
    then obtain N where N: "0 < N" "N < 2 ^ 23" "of_int N + 1 = capture_scale bits" and s: "?s = trunc (fl32 (v * of_int N))"
      using 5 b that [of 32767] that [of 8388607] by (auto simp: pcm_sample_def capture_scale_def)
    have "\<bar>?s\<bar> \<le> 2 ^ 23" using pcm_sample_range [OF f b] b 5(2) by auto
    then have "?u = of_int ?s / capture_scale bits" using b by (intro unpack_exact [OF u, of ?s 0]) auto
    then show ?thesis using close 5(1) scaled_sample [OF 5(1) N(1,2)] unfolding s N(3) by simp
  qed
qed

section \<open>Lemmas: two spans\<close>

text \<open>Formats the adapter accepts (\<open>start\<close> checks them).\<close>

definition pack_ok :: "pack_format \<Rightarrow> bool" where
  "pack_ok f \<longleftrightarrow> (formatBits f = 16 \<or> formatBits f = 24 \<or> formatBits f = 32) \<and>
     int (valid_bytes (formatBits f)) \<le> formatBytes f \<and> formatBytes f \<le> 4 \<and>
     0 \<le> outputPair f \<and> outputPair f * 2 + 1 < deviceChannels f"

definition frame_size :: "pack_format \<Rightarrow> nat" where
  "frame_size f = nat (deviceChannels f) * nat (formatBytes f)"

lemma length_packPcm [simp]: "length (packPcm bits nb v) = nb"
  by (simp add: packPcm_def Let_def)

lemma pair_fits:
  assumes "pack_ok f"
  shows "nat (outputPair f * 2) * nat (formatBytes f) + nat (formatBytes f) + nat (formatBytes f) \<le> frame_size f"
proof -
  have "nat (outputPair f * 2) + 2 \<le> nat (deviceChannels f)" using assms unfolding pack_ok_def by linarith
  then have "(nat (outputPair f * 2) + 2) * nat (formatBytes f) \<le> frame_size f"
    unfolding frame_size_def by (rule mult_le_mono1)
  then show ?thesis by (simp add: add_mult_distrib)
qed

lemma length_pack_frame: "pack_ok f \<Longrightarrow> length (pack_frame f l r) = frame_size f"
  using pair_fits [of f] by (simp add: pack_frame_def Let_def frame_size_def)

lemma length_packStereoRun: "pack_ok f \<Longrightarrow> length (packStereoRun f n l r) = n * frame_size f"
  by (induction n) (simp_all add: packStereoRun_def length_pack_frame)

lemma packStereoRun_add:
  "n + m \<le> length l \<Longrightarrow> n + m \<le> length r \<Longrightarrow>
   packStereoRun f (n + m) l r = packStereoRun f n l r @ packStereoRun f m (drop n l) (drop n r)"
proof -
  assume le: "n + m \<le> length l" "n + m \<le> length r"
  have "[0..<n + m] = [0..<n] @ map (\<lambda>i. n + i) [0..<m]"
    using upt_add_eq_append [of 0 n m] map_add_upt [of n m] by (simp add: add.commute)
  then show ?thesis
    using le unfolding packStereoRun_def by (simp add: comp_def)
qed

lemma packPlaybackRegion_spans:
  assumes ok: "pack_ok f" and st: "stride = frame_size f" and fb: "firstBytes \<le> frames * stride"
    and len: "frames \<le> length left" "frames \<le> length right"
    and p: "packPlaybackRegion f stride firstBytes frames left right = (a, b)"
  shows "a @ b = packStereoRun f frames left right" "length a = firstBytes"
proof -
  define n where "n = firstBytes div stride"
  define s where "s = firstBytes - n * stride"
  have "0 < nat (deviceChannels f)" "0 < nat (formatBytes f)" using ok by (auto simp: pack_ok_def valid_bytes_def)
  then have s0: "0 < stride" by (simp add: st frame_size_def)
  have nf: "n \<le> frames" using fb s0 using div_le_mono [OF fb, of stride] by (simp add: n_def)
  have fbs: "firstBytes = n * stride + s" "s < stride" using s0 by (simp_all add: n_def s_def minus_div_mult_eq_mod)
  have G: "a @ b = packStereoRun f frames left right \<and> length a = firstBytes"
  proof (cases "s = 0")
    case True
    then have "a = packStereoRun f n left right" "b = packStereoRun f (frames - n) (drop n left) (drop n right)"
      using p unfolding packPlaybackRegion_def Let_def n_def [symmetric] s_def [symmetric] by (simp_all add: True)
    then show ?thesis
      using packStereoRun_add [of n "frames - n" left right f] nf len fbs True length_packStereoRun [OF ok] st by simp
  next
    case False
    have n1: "Suc n \<le> frames"
    proof (rule ccontr)
      assume "\<not> Suc n \<le> frames"
      then have "n = frames" using nf by simp
      then show False using fb fbs False by simp
    qed
    let ?x = "packStereoRun f 1 (drop n left) (drop n right)"
    have lx: "length ?x = stride" using length_packStereoRun [OF ok, of 1] st by simp
    have ab: "a = packStereoRun f n left right @ take s ?x"
      "b = take (stride - s) (drop s ?x) @ packStereoRun f (frames - Suc n) (drop (Suc n) left) (drop (Suc n) right)"
      using p unfolding packPlaybackRegion_def Let_def n_def [symmetric] s_def [symmetric]
      by (simp_all add: False [unfolded neq0_conv])
    have "take (stride - s) (drop s ?x) = drop s ?x" using lx by simp
    then have "a @ b = packStereoRun f n left right @ ?x @ packStereoRun f (frames - Suc n) (drop (Suc n) left) (drop (Suc n) right)"
      by (simp add: ab)
    also have "\<dots> = packStereoRun f (n + (1 + (frames - Suc n))) left right"
      using packStereoRun_add [of n "1 + (frames - Suc n)" left right f]
        packStereoRun_add [of 1 "frames - Suc n" "drop n left" "drop n right" f] n1 len by simp
    finally show ?thesis using n1 fbs length_packStereoRun [OF ok] st lx by (simp add: ab)
  qed
  then show "a @ b = packStereoRun f frames left right" "length a = firstBytes" by simp_all
qed

text \<open>Reading: only the sample's own bytes matter.\<close>

lemma unpackPcm_cong:
  assumes "bits = 16 \<or> bits = 24 \<or> bits = 32" "\<forall>j<valid_bytes bits. xs ! j = ys ! j"
  shows "unpackPcm bits xs scale = unpackPcm bits ys scale"
  using assms by (auto simp: unpackPcm_def unpack_int_def valid_bytes_def)

lemma unpackCaptureRun_cong:
  assumes b: "bits = 16 \<or> bits = 24 \<or> bits = 32"
    and e: "\<forall>i<n * stride. i < length xs \<and> i < length ys \<and> xs ! i = ys ! i" and o: "off + valid_bytes bits \<le> stride"
  shows "unpackCaptureRun bits xs n stride off = unpackCaptureRun bits ys n stride off"
proof -
  have "unpackPcm bits (drop (k * stride + off) xs) c = unpackPcm bits (drop (k * stride + off) ys) c" if "k < n" for k c
  proof (rule unpackPcm_cong [OF b], intro allI impI)
    fix j assume "j < valid_bytes bits"
    then have "k * stride + off + j < Suc k * stride" using o by simp
    also have "\<dots> \<le> n * stride" using that by (intro mult_le_mono1) simp
    finally have "k * stride + off + j < n * stride" .
    then show "drop (k * stride + off) xs ! j = drop (k * stride + off) ys ! j" using e by (simp add: less_imp_le)
  qed
  then show ?thesis by (simp add: unpackCaptureRun_def)
qed

lemma unpackCaptureRun_add:
  "unpackCaptureRun bits xs (n + m) stride off =
   unpackCaptureRun bits xs n stride off @ unpackCaptureRun bits (drop (n * stride) xs) m stride off"
proof -
  have "[0..<n + m] = [0..<n] @ map (\<lambda>i. n + i) [0..<m]"
    using upt_add_eq_append [of 0 n m] map_add_upt [of n m] by (simp add: add.commute)
  then show ?thesis by (simp add: unpackCaptureRun_def comp_def add_mult_distrib add.assoc) (simp add: ac_simps)
qed

lemma unpackCaptureChannel_spans:
  assumes b: "bits = 16 \<or> bits = 24 \<or> bits = 32" and o: "off + valid_bytes bits \<le> stride"
    and len: "frames * stride \<le> length (xs @ ys)"
  shows "unpackCaptureChannel bits xs ys stride off frames = unpackCaptureRun bits (xs @ ys) frames stride off"
proof (cases "frames = 0 \<or> stride = 0")
  case True
  then show ?thesis using b o by (auto simp: unpackCaptureChannel_def unpackCaptureRun_def valid_bytes_def)
next
  case False
  define n where "n = min frames (length xs div stride)"
  define s where "s = length xs - n * stride"
  have nx: "n * stride \<le> length xs"
  proof -
    have "n * stride \<le> length xs div stride * stride" by (intro mult_le_mono1) (simp add: n_def)
    then show ?thesis using div_times_less_eq_dividend [of "length xs" stride] by linarith
  qed
  have run1: "unpackCaptureRun bits xs n stride off = unpackCaptureRun bits (xs @ ys) n stride off"
    using nx by (intro unpackCaptureRun_cong [OF b _ o]) (auto simp: nth_append)
  have dr: "drop (n * stride) (xs @ ys) = drop (n * stride) xs @ ys" using nx by simp
  show ?thesis
  proof (cases "n < frames")
    case ge: False
    then have "n = frames" by (simp add: n_def)
    then show ?thesis
      using False run1 unfolding unpackCaptureChannel_def Let_def n_def [symmetric] s_def [symmetric] by simp
  next
    case lt: True
    then have nd: "n = length xs div stride" by (simp add: n_def min_def split: if_splits)
    then have ss: "s < stride" using False by (simp add: s_def minus_div_mult_eq_mod)
    show ?thesis
    proof (cases "s = 0")
      case True
      then have "drop (n * stride) xs = []" using nx by (simp add: s_def)
      then show ?thesis
        using False lt True run1 unpackCaptureRun_add [of bits "xs @ ys" n "frames - n" stride off] dr
        unfolding unpackCaptureChannel_def Let_def n_def [symmetric] s_def [symmetric] by simp
    next
      case sp: False
      let ?f = "drop (n * stride) xs @ take (stride - s) ys"
      have lf: "length (drop (n * stride) xs) = s" using nx by (simp add: s_def)
      have "Suc n * stride \<le> frames * stride" using lt by (intro mult_le_mono1) simp
      then have ly: "stride - s \<le> length ys" using len nx ss by (simp add: s_def)
      have run2: "unpackCaptureRun bits ?f 1 stride off = unpackCaptureRun bits (drop (n * stride) (xs @ ys)) 1 stride off"
        using lf ly ss unfolding dr by (intro unpackCaptureRun_cong [OF b _ o]) (auto simp: nth_append)
      have d2: "drop stride (drop (n * stride) (xs @ ys)) = drop (stride - s) ys" unfolding dr using lf ss by simp
      have "unpackCaptureChannel bits xs ys stride off frames =
          unpackCaptureRun bits xs n stride off @ unpackCaptureRun bits ?f 1 stride off @
            unpackCaptureRun bits (drop (stride - s) ys) (frames - Suc n) stride off"
        using False lt sp unfolding unpackCaptureChannel_def Let_def n_def [symmetric] s_def [symmetric]
        by (cases "Suc n < frames") (simp_all add: unpackCaptureRun_def)
      then show ?thesis
        using run1 run2 d2 lt unpackCaptureRun_add [of bits "xs @ ys" n "1 + (frames - Suc n)" stride off]
          unpackCaptureRun_add [of bits "drop (n * stride) (xs @ ys)" 1 "frames - Suc n" stride off] by simp
    qed
  qed
qed

section \<open>Properties\<close>

text \<open>C31. A sample survives the round trip.  For every finite float sample, every valid width of 16,
  24 or 32 bits and every subslot that holds it, the packed integer is within the width's
  two's-complement range (so the float-to-integer conversion is defined), reading the valid bytes of
  the subslot back yields that integer, and decoding them with the capture scale of the width returns
  the sample, clipped to full scale, within two and a quarter quantisation steps: one of truncation,
  one because playback scales by one less than capture does, and the rounding of a 24-bit product.\<close>

theorem pack_unpack_roundtrip:
  assumes "is_f32 v" "bits = 16 \<or> bits = 24 \<or> bits = 32" "valid_bytes bits \<le> nb" "nb \<le> 4"
  shows "length (packPcm bits nb v) = nb \<and>
    unpack_int bits (drop (nb - valid_bytes bits) (packPcm bits nb v)) = pcm_sample bits v \<and>
    - (2 ^ nat (bits - 1)) \<le> pcm_sample bits v \<and> pcm_sample bits v < 2 ^ nat (bits - 1) \<and>
    \<bar>unpackPcm bits (drop (nb - valid_bytes bits) (packPcm bits nb v)) (capture_scale bits) - max (-1) (min 1 v)\<bar>
      \<le> 9 / 4 / capture_scale bits"
proof -
  note r = pcm_sample_range [OF assms(1,2)]
  have "drop (nb - valid_bytes bits) (packPcm bits nb v) ! j = ucast (drop_bit (8 * j) (u32_of_int (pcm_sample bits v)))"
    if "j < valid_bytes bits" for j
  proof -
    have j: "nb - valid_bytes bits + j < nb" "nb - valid_bytes bits + j \<le> 3" using that assms(3,4) by arith+
    then show ?thesis using bytes_of_subslot [OF j(2)] by (simp add: packPcm_def Let_def)
  qed
  then have u: "unpack_int bits (drop (nb - valid_bytes bits) (packPcm bits nb v)) = pcm_sample bits v"
    using unpack_int_word [OF assms(2) r] by simp
  from sample_error [OF assms(1,2) u] u r show ?thesis by simp
qed

theorem pack_unpack_roundtrip_witness:
  "unpack_int 24 (drop 1 (packPcm 24 4 (1 / 2))) = pcm_sample 24 (1 / 2) \<and>
   \<bar>unpackPcm 24 (drop 1 (packPcm 24 4 (1 / 2))) 8388608 - 1 / 2\<bar> \<le> 9 / 4 / 8388608"
proof -
  have "is_f32 (1 / 2)" unfolding is_f32_def by (intro exI [of _ 1] exI [of _ "-1"]) (simp add: pow2_def)
  then show ?thesis using pack_unpack_roundtrip [of "1 / 2" 24 4] by (simp add: valid_bytes_def capture_scale_def max_def min_def)
qed

text \<open>C32. Packing into a region that the ring splits in two writes the same bytes as packing into one
  contiguous buffer: the two spans concatenated are the plain interleaved frames, the first span is
  filled exactly, and a frame that straddles the wrap is cut at the right byte.\<close>

theorem packPlaybackRegion_contiguous:
  assumes "pack_ok f" "stride = frame_size f" "firstBytes \<le> frames * stride"
    and "frames \<le> length left" "frames \<le> length right"
  shows "case packPlaybackRegion f stride firstBytes frames left right of
    (a, b) \<Rightarrow> a @ b = packStereoRun f frames left right \<and> length a = firstBytes"
proof -
  obtain a b where p: "packPlaybackRegion f stride firstBytes frames left right = (a, b)" by fastforce
  show ?thesis using packPlaybackRegion_spans [OF assms p] p by simp
qed

theorem packPlaybackRegion_contiguous_witness:
  "case packPlaybackRegion \<lparr>deviceChannels = 4, outputPair = 1, formatBits = 16, formatBytes = 2\<rparr> 8 11 2 [1, -1] [0, 1] of
    (a, b) \<Rightarrow> a @ b = packStereoRun \<lparr>deviceChannels = 4, outputPair = 1, formatBits = 16, formatBytes = 2\<rparr> 2 [1, -1] [0, 1] \<and>
      length a = 11"
  using packPlaybackRegion_contiguous
    [of "\<lparr>deviceChannels = 4, outputPair = 1, formatBits = 16, formatBytes = 2\<rparr>" 8 11 2 "[1, -1]" "[0, 1]"]
  by (simp add: pack_ok_def frame_size_def valid_bytes_def)

text \<open>Decoding a channel of a split capture region gives the same samples as decoding the
  contiguous bytes, including the frame that straddles the wrap.\<close>

theorem unpackCaptureChannel_contiguous:
  assumes "bits = 16 \<or> bits = 24 \<or> bits = 32" "off + valid_bytes bits \<le> stride"
    and "frames * stride \<le> length (xs @ ys)"
  shows "unpackCaptureChannel bits xs ys stride off frames = unpackCaptureRun bits (xs @ ys) frames stride off"
  using unpackCaptureChannel_spans [OF assms] .

theorem unpackCaptureChannel_contiguous_witness:
  "unpackCaptureChannel 16 [1, 2, 3] [4, 5, 6, 7, 8] 4 2 2 = unpackCaptureRun 16 ([1, 2, 3] @ [4, 5, 6, 7, 8]) 2 4 2"
  using unpackCaptureChannel_contiguous [of 16 2 4 2 "[1, 2, 3]" "[4, 5, 6, 7, 8]"] by (simp add: valid_bytes_def)

end
