(* ===== verification/Accounting.thy ===== *)
theory Accounting
  imports Float_Model Playback Capture
begin

text \<open>
  The inline operations of \<^verbatim>\<open>include/liblowlatencyaudio/libusb_uac_driver.h\<close>: the playback credit
  ledger, the occupancy histogram, the measurement epochs and the statistics a control thread reads.
\<close>

section \<open>Playback credit\<close>

text \<open>The lowest credit a producer may go down to: the intended depth, the frames already handed to
  USB, and the reserve.\<close>

definition credit_floor :: "driver \<Rightarrow> int" where
  "credit_floor d = - playbackTargetFrames (buf d) - sint (queuedOutFrames (led d)) - playbackCreditReserve (led d)"

definition setPlaybackCreditReserve :: "int \<Rightarrow> driver \<Rightarrow> driver" where
  "setPlaybackCreditReserve frames d =
     led_update (playbackCreditReserve_update (\<lambda>_. if frames < 0 then 0 else frames)) d"

definition chargePlaybackCredit :: "int \<Rightarrow> driver \<Rightarrow> driver" where
  "chargePlaybackCredit frames d =
     (if frames \<le> 0 \<or> \<not> playbackStarted (mode d) then d
      else led_update (playbackCredit_update (\<lambda>c. c - frames)) d)"

definition takePlaybackCredit :: "int \<Rightarrow> driver \<Rightarrow> bool \<times> driver" where
  "takePlaybackCredit frames d =
     (if frames \<le> 0 \<or> \<not> playbackStarted (mode d) then (True, d)
      else if playbackCredit (led d) - frames \<ge> credit_floor d
      then (True, led_update (playbackCredit_update (\<lambda>c. c - frames)) d)
      else (False, d))"

definition injectServiceStallUs :: "int \<Rightarrow> driver \<Rightarrow> driver" where
  "injectServiceStallUs microseconds d = service_update (serviceStallUs_update (\<lambda>_. microseconds)) d"

section \<open>Counters and the histogram\<close>

definition noteQuantumWritten :: "driver \<Rightarrow> driver" where
  "noteQuantumWritten d =
     (let writes = writesSinceDrain (fill d) + 1
      in fill_update (maxWritesBetweenDrains_update (keep_max writes) \<circ> writesSinceDrain_update (\<lambda>_. writes)) d)"

definition drainChunkFrames :: "driver \<Rightarrow> int" where
  "drainChunkFrames d =
     (if transferCount (buf d) > 0 then cdiv (exactInitialPacketFrames (buf d)) (transferCount (buf d)) else 0)"

text \<open>A minimum that was never recorded reads as zero.\<close>

definition observed_min :: "u64 \<Rightarrow> u64" where
  "observed_min v = (if v = UINT64_MAX then 0 else v)"

definition drainFramesMinValue :: "driver \<Rightarrow> u64" where
  "drainFramesMinValue d = observed_min (drainFramesMin (fill d))"

definition ringLowWaterFrames :: "driver \<Rightarrow> u64" where
  "ringLowWaterFrames d = observed_min (ringLowWater (fill d))"

definition queuedOutLowWaterFrames :: "driver \<Rightarrow> u64" where
  "queuedOutLowWaterFrames d = observed_min (queuedOutLowWater (fill d))"

text \<open>The loop over the buckets.\<close>

fun occupancy_scan :: "u64 \<Rightarrow> u64 \<Rightarrow> nat \<Rightarrow> u32 list \<Rightarrow> int" where
  "occupancy_scan target seen bucket [] = (512 - 1) * 8"
| "occupancy_scan target seen bucket (c # cs) =
     (let seen' = seen + ucast c
      in if seen' \<ge> target then int bucket * 8 + 4 else occupancy_scan target seen' (Suc bucket) cs)"

definition ringOccupancyPercentile :: "rat \<Rightarrow> driver \<Rightarrow> int" where
  "ringOccupancyPercentile share d =
     (let total = ringOccupancySamples (fill d) in
      if total = 0 then 0
      else occupancy_scan (word_of_int (trunc (fl64 (fl64 (of_nat (unat total)) * share)))) 0 0
             (ringOccupancy (fill d)))"

section \<open>Epochs and statistics\<close>

definition resetRealtimeCounters :: "driver \<Rightarrow> driver" where
  "resetRealtimeCounters d =
     pcnt_update (playbackUnderruns_update (\<lambda>_. 0))
       (ccnt_update (captureOverruns_update (\<lambda>_. 0) \<circ> captureUnderruns_update (\<lambda>_. 0) \<circ>
          capturePacketDrops_update (\<lambda>_. 0)) d)"

definition resetEnvelopeMetrics :: "driver \<Rightarrow> driver" where
  "resetEnvelopeMetrics d =
     d\<lparr>gaps := initGaps\<lparr>nominalTransferNs := nominalTransferNs (gaps d)\<rparr>,
       fill := initFill,
       service := (service d)\<lparr>worstServiceOffCpuNs := 0, maxCallbacksPerPoll := 0,
         worstMultiCollectSpanNs := 0, worstMultiCollectRunqueueNs := 0\<rparr>\<rparr>"

definition captureStats :: "driver \<Rightarrow> CaptureStats" where
  "captureStats d = \<lparr>cs_overruns = captureOverruns (ccnt d), cs_underruns = captureUnderruns (ccnt d),
     cs_sequence = captureSequence (ccnt d)\<rparr>"

definition implicitFeedbackStats :: "driver \<Rightarrow> ImplicitFeedbackStats" where
  "implicitFeedbackStats d =
     (let r = implicitRead (fifo d); w = implicitWrite (fifo d);
          playbackStride = max 1 (playbackFrameStride (buf d));
          captureStride = max 1 (captureFrameStride (buf d));
          dist = (\<lambda>h t. if h \<ge> t then h - t else (0::u64))
      in \<lparr>if_fifoDepth = dist w r, if_deferredTransfers = deferredTransfers (pcnt d),
          if_metadataFifoOverruns = metadataFifoOverruns (ccnt d),
          if_captureTransferErrors = captureTransferErrors (ccnt d),
          if_playbackTransferErrors = playbackTransferErrors (pcnt d),
          if_ringFrames = dist (rhead (ring d)) (rtail (ring d)) div size_of_int playbackStride,
          if_captureRingFrames = dist (rhead (captureRing d)) (rtail (captureRing d)) div size_of_int captureStride,
          if_lifecycleFailures = lifecycleFailures (pcnt d), if_transportFailed = transportFailed (mode d),
          if_eventThreadUrgentAudio = eventThreadUrgentAudio (mode d), if_pendingDepth = pendingDepth (pcnt d),
          if_pendingHighWater = pendingHighWater (pcnt d), if_zeroRunwayEvents = zeroRunwayEvents (pcnt d),
          if_maxPendingAgeNs = maxPendingAgeNs (pcnt d)\<rparr>)"

text \<open>Negative thresholds disable the check.\<close>

definition setTransferDiscontinuityThreshold :: "rat \<Rightarrow> driver \<Rightarrow> driver" where
  "setTransferDiscontinuityThreshold threshold d =
     pace_update (transferDiscontinuityThreshold_update (\<lambda>_. if threshold > 0 then threshold else 0)) d"

definition isStreamingFormat :: "int \<Rightarrow> int \<Rightarrow> int \<Rightarrow> driver \<Rightarrow> bool" where
  "isStreamingFormat sampleRate bits chans d \<longleftrightarrow> streaming (mode d) \<and>
     sampleRateHz (fmt d) = sampleRate \<and> bitsPerSample (fmt d) = bits \<and> channels (fmt d) = chans"

section \<open>Lemmas\<close>

text \<open>The scan stops at the first bucket where the cumulative count reaches the target.\<close>

lemma occupancy_scan_first:
  assumes "\<forall>i<length cs. \<not> target \<le> seen + (\<Sum>c\<leftarrow>take (Suc i) cs. ucast c) \<or> k \<le> i"
    and "k < length cs" "target \<le> seen + (\<Sum>c\<leftarrow>take (Suc k) cs. ucast c)"
  shows "occupancy_scan target seen b cs = int (b + k) * 8 + 4"
  using assms
proof (induction cs arbitrary: seen b k)
  case (Cons c cs)
  show ?case
  proof (cases k)
    case 0
    then show ?thesis using Cons.prems(3) by simp
  next
    case (Suc j)
    have "\<not> target \<le> seen + ucast c" using Cons.prems(1) Suc by (auto dest: spec [of _ 0])
    moreover have "\<forall>i<length cs. \<not> target \<le> (seen + ucast c) + (\<Sum>c\<leftarrow>take (Suc i) cs. ucast c) \<or> j \<le> i"
    proof (intro allI impI)
      fix i assume "i < length cs"
      then show "\<not> target \<le> (seen + ucast c) + (\<Sum>c\<leftarrow>take (Suc i) cs. ucast c) \<or> j \<le> i"
        using Cons.prems(1) [rule_format, of "Suc i"] Suc by (simp add: add.assoc)
    qed
    ultimately show ?thesis using Cons.IH [of "seen + ucast c" j "Suc b"] Cons.prems(2,3) Suc by (simp add: Let_def add.assoc)
  qed
qed simp

section \<open>Properties\<close>

text \<open>The credit gate is exact.  While playing, taking \<open>n > 0\<close> frames of credit succeeds exactly
  when it leaves the ledger at or above the floor (intended depth, frames at USB and reserve), and
  then debits exactly \<open>n\<close>; a refusal changes nothing; before playback starts nothing is charged.
  An unconditional charge debits the same amount whatever the floor.\<close>

theorem takePlaybackCredit_exact:
  assumes "0 < n" "takePlaybackCredit n d = (granted, d')"
  shows "granted = (\<not> playbackStarted (mode d) \<or> playbackCredit (led d) - n \<ge> credit_floor d) \<and>
    playbackCredit (led d') = playbackCredit (led d) - (if granted \<and> playbackStarted (mode d) then n else 0) \<and>
    credit_floor d' = credit_floor d \<and>
    (playbackStarted (mode d) \<longrightarrow> granted \<longrightarrow> d' = chargePlaybackCredit n d)"
  using assms by (auto simp: takePlaybackCredit_def chargePlaybackCredit_def credit_floor_def split: if_splits)

theorem takePlaybackCredit_exact_witness:
  "fst (takePlaybackCredit 2 demo_driver) \<and> \<not> fst (takePlaybackCredit 3 demo_driver) \<and>
   playbackCredit (led (snd (takePlaybackCredit 2 demo_driver))) = -2"
proof -
  have "playbackStarted (mode demo_driver)" "playbackCredit (led demo_driver) = 0" "credit_floor demo_driver = -2"
    by (simp_all add: demo_driver_def newDriver_def initLedger_def credit_floor_def)
  then show ?thesis
    using takePlaybackCredit_exact [of 2 demo_driver, OF _ prod.collapse [symmetric]]
      takePlaybackCredit_exact [of 3 demo_driver, OF _ prod.collapse [symmetric]] by auto
qed

text \<open>The occupancy percentile is read off the histogram: the result is the midpoint of the first
  eight-frame bucket at which the cumulative sample count reaches the requested share.\<close>

theorem ringOccupancyPercentile_bucket:
  assumes "ringOccupancySamples (fill d) \<noteq> 0" "k < length (ringOccupancy (fill d))"
    and "(target :: u64) = word_of_int (trunc (fl64 (fl64 (of_nat (unat (ringOccupancySamples (fill d)))) * share)))"
    and "\<forall>i<length (ringOccupancy (fill d)). target \<le> (\<Sum>c\<leftarrow>take (Suc i) (ringOccupancy (fill d)). ucast c) \<longrightarrow> k \<le> i"
    and "target \<le> (\<Sum>c\<leftarrow>take (Suc k) (ringOccupancy (fill d)). ucast c)"
  shows "ringOccupancyPercentile share d = int k * 8 + 4"
  using occupancy_scan_first [of "ringOccupancy (fill d)" target 0 k 0] assms
  by (auto simp: ringOccupancyPercentile_def Let_def)

theorem ringOccupancyPercentile_bucket_witness:
  "ringOccupancyPercentile 0 (fill_update (ringOccupancy_update (\<lambda>_. [0, 4]) \<circ> ringOccupancySamples_update (\<lambda>_. 4)) demo_driver) = 4"
  using ringOccupancyPercentile_bucket
    [of "fill_update (ringOccupancy_update (\<lambda>_. [0, 4]) \<circ> ringOccupancySamples_update (\<lambda>_. 4)) demo_driver" 0 0 0]
  by (simp add: fl64_def fl_def trunc_def)

end
