(* ===== verification/Configuration.thy ===== *)
theory Configuration
  imports Playback Capture
begin

text \<open>
  Buffering policy (\<^verbatim>\<open>src/libusb_uac_driver.cpp\<close>): \<open>configureUserspaceBuffers\<close> sizes the rings
  before a stream starts, \<open>setUserspaceBufferConfig\<close> derives the latency budget once the endpoint
  geometry is known, and \<open>setGraphQuantum\<close> is its compatibility wrapper.
\<close>

section \<open>Ring capacities and transfer geometry\<close>

definition config_valid :: "u64 \<Rightarrow> UserspaceBufferConfig \<Rightarrow> bool" where
  "config_valid requestedCapacity c \<longleftrightarrow>
     \<not> (requestedCapacity < 4096 \<or> requestedCapacity > 1048576 \<or>
        requestedCapacity AND (requestedCapacity - 1) \<noteq> 0 \<or>
        (ucTransferCount c \<noteq> 0 \<and> (ucTransferCount c < 1 \<or> ucTransferCount c > int kMaxTransferCount)) \<or>
        (ucPacketsPerTransfer c \<noteq> 0 \<and>
          (ucPacketsPerTransfer c < kMinPacketsPerTransfer \<or> ucPacketsPerTransfer c > kMaxPacketsPerTransfer)) \<or>
        ucPlaybackTargetFrames c < 0 \<or> ucStartupPrimeFrames c < 0 \<or>
        ucWriteHeadroomFrames c < 0 \<or> ucCaptureLimitFrames c < 0 \<or>
        ucCaptureTargetFrames c < kExplicitZeroFrames \<or>
        ucCaptureHeadroomFrames c < kExplicitZeroFrames \<or>
        ucCaptureDeadlineSlackFrames c < kExplicitZeroFrames)"

definition configureUserspaceBuffers :: "UserspaceBufferConfig \<Rightarrow> driver \<Rightarrow> bool \<times> driver" where
  "configureUserspaceBuffers c d =
     (if streaming (mode d) \<or> playbackStarted (mode d) then (False, d)
      else
        let requestedCapacity = (if ucRingCapacityBytes c = 0 then of_nat kPlaybackRingBytes
                                 else ucRingCapacityBytes c)
        in if \<not> config_valid requestedCapacity c then (False, d)
           else (True,
             d\<lparr>ring := \<lparr>store = replicate (unat requestedCapacity) 0, rmask = requestedCapacity - 1,
                 rhead = 0, rtail = 0\<rparr>,
               captureRing := \<lparr>store = replicate (unat requestedCapacity) 0, rmask = requestedCapacity - 1,
                 rhead = 0, rtail = 0\<rparr>,
               mode := (mode d)\<lparr>captureLive := False\<rparr>,
               ccnt := (ccnt d)\<lparr>startupCaptureDiscardFrames := 0\<rparr>,
               buf := (buf d)\<lparr>userspaceBufferConfig := c,
                 transferCount := (if ucTransferCount c \<noteq> 0 then ucTransferCount c else 4)\<rparr>\<rparr>))"

section \<open>The latency budget\<close>

text \<open>The terms the policy resolves before it validates them.\<close>

record resolved_budget =
  rb_quantum :: int
  rb_target :: int
  rb_prime :: int
  rb_headroom :: int
  rb_wave :: int
  rb_captureTarget :: int
  rb_captureHeadroom :: int
  rb_captureSlack :: int
  rb_physical :: int

definition resolve_budget :: "int \<Rightarrow> UserspaceBufferConfig \<Rightarrow> int \<Rightarrow> driver \<Rightarrow> resolved_budget" where
  "resolve_budget frames c periodMultiplier d =
     (let auto = playbackWatermarkConfig frames periodMultiplier;
          stride = strideOf (fmt d);
          physicalFrames = (if stride > 0
            then int_of_size (of_nat (length (store (ring d))) div size_of_int stride) else 0);
          chunk = (if transferCount (buf d) > 0
            then cdiv (exactInitialPacketFrames (buf d)) (transferCount (buf d)) else 0);
          headroom = (if ucWriteHeadroomFrames c = 0
            then automaticWriteHeadroomFrames (wmGraphQuantum auto) chunk else ucWriteHeadroomFrames c);
          nominal = nominalTransferFrames (sampleRateHz (fmt d)) (playbackPacketsPerTransfer (buf d))
            (microframesPerSec (pace d));
          target = (if ucPlaybackTargetFrames c = 0
            then automaticPlaybackTargetFrames (wmGraphQuantum auto) nominal (wmTargetFrames auto)
            else ucPlaybackTargetFrames c);
          automaticPrime = startupPlaybackPrimeFrames physicalFrames (exactInitialPacketFrames (buf d)) target;
          prime = (if ucStartupPrimeFrames c = 0 then automaticPrime else ucStartupPrimeFrames c);
          wave = max 1 (captureTransferFrames (buf d))
      in \<lparr>rb_quantum = wmGraphQuantum auto, rb_target = target, rb_prime = prime, rb_headroom = headroom,
          rb_wave = wave,
          rb_captureTarget = resolveOptionalFrames (ucCaptureTargetFrames c) wave,
          rb_captureHeadroom = resolveOptionalFrames (ucCaptureHeadroomFrames c) wave,
          rb_captureSlack = resolveOptionalFrames (ucCaptureDeadlineSlackFrames c) wave,
          rb_physical = physicalFrames\<rparr>)"

definition budget_valid :: "resolved_budget \<Rightarrow> driver \<Rightarrow> bool" where
  "budget_valid b d \<longleftrightarrow>
     checkedFrameBudgetFits (rb_target b) (rb_headroom b) 0 (rb_physical b) \<and>
     rb_prime b \<ge> exactInitialPacketFrames (buf d) \<and> rb_prime b \<le> rb_physical b \<and>
     checkedFrameBudgetFits (rb_wave b) (rb_captureTarget b) (rb_captureHeadroom b) (rb_physical b)"

definition setUserspaceBufferConfig :: "int \<Rightarrow> UserspaceBufferConfig \<Rightarrow> int \<Rightarrow> driver \<Rightarrow> driver" where
  "setUserspaceBufferConfig frames c periodMultiplier d =
     (let b = resolve_budget frames c periodMultiplier d in
      if \<not> budget_valid b d
      then d\<lparr>buf := (buf d)\<lparr>playbackTargetFrames := 0, startupPrimeFrames := 0, writeHeadroomFrames := 0,
             captureLimitFrames := 0, captureTargetFrames := 0, captureHeadroomFrames := 0,
             captureDeadlineSlackFrames := 0\<rparr>\<rparr>
      else d\<lparr>buf := (buf d)\<lparr>graphQuantum := rb_quantum b, playbackTargetFrames := rb_target b,
             startupPrimeFrames := rb_prime b, writeHeadroomFrames := rb_headroom b,
             captureLimitFrames := ucCaptureLimitFrames c, captureTargetFrames := rb_captureTarget b,
             captureHeadroomFrames := rb_captureHeadroom b,
             captureDeadlineSlackFrames := rb_captureSlack b\<rparr>\<rparr>)"

definition setGraphQuantum :: "int \<Rightarrow> int \<Rightarrow> int \<Rightarrow> driver \<Rightarrow> driver" where
  "setGraphQuantum frames periodMultiplier watermarkFrames d =
     setUserspaceBufferConfig frames
       ((userspaceBufferConfig (buf d))\<lparr>ucPlaybackTargetFrames := watermarkFrames\<rparr>) periodMultiplier d"

section \<open>Lemmas\<close>

text \<open>The bit test of the code recognises powers of two.\<close>

lemma pow2_test:
  assumes "(w::u64) AND (w - 1) = 0" "w \<noteq> 0"
  shows "\<exists>k<64. w = push_bit k 1"
proof -
  obtain n where n: "bit w n" "n < 64" "\<forall>m<n. \<not> bit w m"
  proof -
    have ex: "\<exists>n. bit w n" using assms(2) bit_eqI [of w 0] by auto
    define n where "n = (LEAST n. bit w n)"
    have "bit w n" using ex unfolding n_def by (rule LeastI_ex)
    moreover have "\<forall>m<n. \<not> bit w m" using not_less_Least unfolding n_def by blast
    moreover have "n < 64" using bit_imp_le_length [OF \<open>bit w n\<close>] by simp
    ultimately show thesis using that by blast
  qed
  have tz: "take_bit n w = 0" by (rule bit_eqI) (use n in \<open>auto simp: bit_simps\<close>)
  obtain k where k: "\<And>m. n < m \<longleftrightarrow> k \<le> m" by (meson Suc_le_eq)
  have nk: "n < k" using k [of k] by simp
  define h where "h = drop_bit k w"
  have wh: "w = push_bit k h + push_bit n 1"
  proof -
    have "w = push_bit k h OR push_bit n 1"
      by (rule bit_eqI) (use n k in \<open>auto simp: h_def bit_simps not_less linorder_neq_iff\<close>)
    also have "\<dots> = push_bit k h + push_bit n 1"
      by (rule disjunctive_add_eq_or [symmetric], rule bit_eqI) (use nk in \<open>auto simp: bit_simps\<close>)
    finally show ?thesis .
  qed
  have "w - 1 = push_bit k h + mask n"
    by (subst wh) (simp add: mask_eq_exp_minus_1 push_bit_eq_mult)
  also have "\<dots> = push_bit k h OR mask n"
    by (rule disjunctive_add_eq_or, rule bit_eqI) (use nk in \<open>auto simp: bit_simps\<close>)
  finally have w1: "w - 1 = push_bit k h OR mask n" .
  have "push_bit k h = 0"
  proof (rule bit_eqI)
    fix m
    have "\<not> bit (w AND (w - 1)) m" using assms(1) by simp
    then show "bit (push_bit k h) m = bit (0::u64) m"
      unfolding w1 by (auto simp: bit_simps h_def)
  qed
  then have "w = push_bit n 1" using wh by simp
  then show ?thesis using n(2) by blast
qed

lemma pow2_passes: "k < 64 \<Longrightarrow> (push_bit k 1 :: u64) AND (push_bit k 1 - 1) = 0"
proof -
  assume "k < 64"
  have "(push_bit k 1 - 1 :: u64) = mask k" by (simp add: mask_eq_exp_minus_1 push_bit_eq_mult)
  then show ?thesis by (simp only:) (rule bit_eqI, auto simp: bit_simps)
qed

text \<open>What the repository asks of a request: a ring of 4 KiB to 1 MiB whose size is a power of two, one to eight
  transfers of one to eight packets (or zero for the default), frame terms that are not negative, and
  capture terms that are frames, automatic (0) or an explicit zero (-1).\<close>

definition requested_bytes :: "UserspaceBufferConfig \<Rightarrow> nat" where
  "requested_bytes c = (if ucRingCapacityBytes c = 0 then 65536 else unat (ucRingCapacityBytes c))"

definition acceptable_request :: "UserspaceBufferConfig \<Rightarrow> bool" where
  "acceptable_request c \<longleftrightarrow>
     (\<exists>k\<in>{12..20}. requested_bytes c = 2 ^ k) \<and>
     ucTransferCount c \<in> {0..8} \<and> ucPacketsPerTransfer c \<in> {0..8} \<and>
     0 \<le> ucPlaybackTargetFrames c \<and> 0 \<le> ucStartupPrimeFrames c \<and> 0 \<le> ucWriteHeadroomFrames c \<and>
     0 \<le> ucCaptureLimitFrames c \<and> -1 \<le> ucCaptureTargetFrames c \<and> -1 \<le> ucCaptureHeadroomFrames c \<and>
     -1 \<le> ucCaptureDeadlineSlackFrames c"

lemma capacity_test:
  fixes w :: u64
  shows "\<not> (w < 4096 \<or> w > 1048576 \<or> w AND (w - 1) \<noteq> 0) \<longleftrightarrow> (\<exists>k\<in>{12..20}. unat w = 2 ^ k)" (is "?l = ?r")
proof
  assume ?l
  then have b: "2 ^ 12 \<le> unat w" "unat w \<le> 2 ^ 20" "w AND (w - 1) = 0" by (simp_all add: word_less_nat_alt not_less)
  then have "w \<noteq> 0" by auto
  then obtain k where k: "k < 64" "w = push_bit k 1" using pow2_test [OF b(3)] by blast
  have "w = of_nat (2 ^ k)" by (simp add: k(2) push_bit_eq_mult)
  moreover have "(2::nat) ^ k < 2 ^ 64" using k(1) by (intro power_strict_increasing) simp_all
  ultimately have u: "unat w = 2 ^ k" by (simp only: unat_of_nat64)
  have "12 \<le> k" "k \<le> 20" using b(1,2) unfolding u by (simp_all only: power_increasing_iff)
  then show ?r using u by auto
next
  assume ?r
  then obtain k where k: "12 \<le> k" "k \<le> 20" "unat w = 2 ^ k" by auto
  have "(2::nat) ^ 12 \<le> unat w" "unat w \<le> 2 ^ 20" unfolding k(3) using k(1,2) by (intro power_increasing; simp)+
  moreover have "w = push_bit k 1" using word_of_unat [OF k(3)] by (simp add: push_bit_eq_mult)
  then have "w AND (w - 1) = 0" using pow2_passes [of k] k(2) by simp
  ultimately show ?l by (simp add: word_less_nat_alt not_less)
qed

lemma config_valid_iff:
  "config_valid (if ucRingCapacityBytes c = 0 then of_nat kPlaybackRingBytes else ucRingCapacityBytes c) c
     \<longleftrightarrow> acceptable_request c"
proof -
  define w where "w = (if ucRingCapacityBytes c = 0 then of_nat kPlaybackRingBytes else ucRingCapacityBytes c)"
  have "unat w = requested_bytes c" by (simp add: w_def requested_bytes_def)
  then have w: "\<not> (w < 4096 \<or> w > 1048576 \<or> w AND (w - 1) \<noteq> 0) \<longleftrightarrow> (\<exists>k\<in>{12..20}. requested_bytes c = 2 ^ k)"
    using capacity_test [of w] by simp
  show ?thesis unfolding w_def [symmetric] config_valid_def acceptable_request_def w [symmetric] by auto
qed

lemma fresh_ring:
  assumes "config_valid w c"
  shows "ring_inv \<lparr>store = replicate (unat w) 0, rmask = w - 1, rhead = 0, rtail = 0\<rparr>"
    "ring_contents \<lparr>store = replicate (unat w) 0, rmask = w - 1, rhead = 0, rtail = 0\<rparr> = []"
proof -
  obtain k where k: "k \<le> 20" "unat w = 2 ^ k" using assms capacity_test [of w] by (auto simp: config_valid_def)
  have "w = of_nat (2 ^ k)" using word_of_unat [OF k(2)] .
  then have "w - 1 = mask k" by (simp add: mask_eq_exp_minus_1)
  then show "ring_inv \<lparr>store = replicate (unat w) 0, rmask = w - 1, rhead = 0, rtail = 0\<rparr>"
    using k by (auto simp: ring_inv_def ring_shape_def ring_len_def ringSize_def)
  show "ring_contents \<lparr>store = replicate (unat w) 0, rmask = w - 1, rhead = 0, rtail = 0\<rparr> = []"
    by (simp add: ring_contents_def ring_len_def ringSize_def)
qed

lemma physical_frames:
  assumes "ring_inv (ring d)" "stride_ok d"
  shows "rb_physical (resolve_budget frames c m d) = int (length (store (ring d)) div frameBytes d)"
proof -
  have "unat (of_nat (length (store (ring d))) div size_of_int (strideOf (fmt d)) :: u64) =
      length (store (ring d)) div frameBytes d"
    using capacity_word [OF assms(1)] assms(2) by (simp add: unat_div stride_word)
  moreover have "length (store (ring d)) div frameBytes d \<le> 1048576"
    using ring_inv_len(3) [OF assms(1)] div_le_dividend [of "length (store (ring d))" "frameBytes d"] by linarith
  ultimately show ?thesis
    using assms(2) by (simp add: resolve_budget_def Let_def int_of_size_small stride_ok_def)
qed

text \<open>Explicit terms are kept, capture terms fall back on the wave.\<close>

lemma resolved_terms:
  "ucPlaybackTargetFrames c = 0 \<or> rb_target (resolve_budget frames c m d) = ucPlaybackTargetFrames c"
  "ucStartupPrimeFrames c = 0 \<or> rb_prime (resolve_budget frames c m d) = ucStartupPrimeFrames c"
  "ucWriteHeadroomFrames c = 0 \<or> rb_headroom (resolve_budget frames c m d) = ucWriteHeadroomFrames c"
  "rb_wave (resolve_budget frames c m d) = max 1 (captureTransferFrames (buf d))"
  "rb_captureTarget (resolve_budget frames c m d) = resolveOptionalFrames (ucCaptureTargetFrames c) (rb_wave (resolve_budget frames c m d))"
  "rb_captureHeadroom (resolve_budget frames c m d) = resolveOptionalFrames (ucCaptureHeadroomFrames c) (rb_wave (resolve_budget frames c m d))"
  "rb_captureSlack (resolve_budget frames c m d) =
     resolveOptionalFrames (ucCaptureDeadlineSlackFrames c) (rb_wave (resolve_budget frames c m d))"
  "4 \<le> rb_quantum (resolve_budget frames c m d)" "rb_quantum (resolve_budget frames c m d) \<le> 1024"
  using clamp_bounds [of 4 1024 frames] by (simp_all add: resolve_budget_def Let_def playbackWatermarkConfig_def)

text \<open>An explicit request that fits a ring of four frames.\<close>

definition demo_request :: UserspaceBufferConfig where
  "demo_request = defaultUserspaceBufferConfig\<lparr>ucPlaybackTargetFrames := 2, ucWriteHeadroomFrames := 1, ucStartupPrimeFrames := 3\<rparr>"

section \<open>Properties\<close>

text \<open>C33. Sizing the rings is all or nothing, and accepts exactly the valid requests.  A request is
  accepted if and only if no stream is running and it is well formed: the ring size is a power of two
  from 4 KiB to 1 MiB, the transfer count and the packets per transfer are 0 (default) or within 1
  to 8, no playback term or capture limit is negative, and the capture terms are at least -1.  It
  then leaves two empty rings of the requested size with the matching mask, and the requested (or
  default) transfer count; a rejected request changes nothing.\<close>

theorem configureUserspaceBuffers_establishes_rings:
  shows "case configureUserspaceBuffers c d of (ok, d') \<Rightarrow>
    (ok \<longleftrightarrow> \<not> streaming (mode d) \<and> \<not> playbackStarted (mode d) \<and> acceptable_request c) \<and>
    (if ok
     then ring_inv (ring d') \<and> ring_inv (captureRing d') \<and> ring_contents (ring d') = [] \<and>
       ring_contents (captureRing d') = [] \<and> length (store (ring d')) = requested_bytes c \<and>
       length (store (captureRing d')) = requested_bytes c \<and> userspaceBufferConfig (buf d') = c \<and>
       transferCount (buf d') = (if ucTransferCount c = 0 then 4 else ucTransferCount c) \<and>
       1 \<le> transferCount (buf d') \<and> transferCount (buf d') \<le> 8 \<and> \<not> captureLive (mode d')
     else d' = d)"
proof -
  define w where "w = (if ucRingCapacityBytes c = 0 then of_nat kPlaybackRingBytes else ucRingCapacityBytes c)"
  have v: "config_valid w c \<longleftrightarrow> acceptable_request c" using config_valid_iff by (simp add: w_def)
  have u: "unat w = requested_bytes c" by (simp add: w_def requested_bytes_def)
  show ?thesis
  proof (cases "streaming (mode d) \<or> playbackStarted (mode d) \<or> \<not> config_valid w c")
    case True
    then show ?thesis using v by (auto simp: configureUserspaceBuffers_def Let_def w_def [symmetric])
  next
    case False
    have "1 \<le> (if ucTransferCount c = 0 then 4 else ucTransferCount c)"
      "(if ucTransferCount c = 0 then 4 else ucTransferCount c) \<le> 8"
      using False v by (auto simp: acceptable_request_def)
    then show ?thesis
      using False v fresh_ring [of w c] u by (auto simp: configureUserspaceBuffers_def Let_def w_def [symmetric])
  qed
qed

theorem configureUserspaceBuffers_establishes_rings_witness:
  "fst (configureUserspaceBuffers (defaultUserspaceBufferConfig\<lparr>ucRingCapacityBytes := 8192\<rparr>) (newDriver 3 4)) \<and>
   \<not> fst (configureUserspaceBuffers (defaultUserspaceBufferConfig\<lparr>ucCaptureTargetFrames := -2\<rparr>) (newDriver 3 4))"
proof -
  have m: "\<not> streaming (mode (newDriver 3 4))" "\<not> playbackStarted (mode (newDriver 3 4))"
    by (simp_all add: newDriver_def initModes_def)
  have "\<exists>k\<in>{12..20}. (8192::nat) = 2 ^ k" by (rule bexI [of _ 13]) simp_all
  then have "acceptable_request (defaultUserspaceBufferConfig\<lparr>ucRingCapacityBytes := 8192\<rparr>)"
    "\<not> acceptable_request (defaultUserspaceBufferConfig\<lparr>ucCaptureTargetFrames := -2\<rparr>)"
    by (simp_all add: acceptable_request_def requested_bytes_def defaultUserspaceBufferConfig_def)
  then show ?thesis
    using configureUserspaceBuffers_establishes_rings [of "newDriver 3 4" "defaultUserspaceBufferConfig\<lparr>ucRingCapacityBytes := 8192\<rparr>"]
      configureUserspaceBuffers_establishes_rings [of "newDriver 3 4" "defaultUserspaceBufferConfig\<lparr>ucCaptureTargetFrames := -2\<rparr>"] m
    by (auto split: prod.splits)
qed

text \<open>C34. The latency budget is stored whole exactly when it fits.  Explicit requests are honoured as
  given and only zero terms are derived (capture terms default to one transfer wave, -1 means none).
  If target plus headroom, the prime, and a capture wave with its target and headroom each fit
  into the playback ring's frames, and the prime covers the initial packets, all resolved terms and a
  quantum of 4 to 1024 frames are stored; otherwise every term is zeroed and the quantum kept.  Either way
  the stored budget is well formed.  (The driver notes ask for the graph quantum plus the capture
  terms to fit the capture ring; the code takes the capture wave and the playback ring.)\<close>

theorem setUserspaceBufferConfig_fits_ring:
  assumes "ring_inv (ring d)" "stride_ok d" "0 \<le> exactInitialPacketFrames (buf d)"
    and "b = buf (setUserspaceBufferConfig frames c m d)" "capacity = int (length (store (ring d)) div frameBytes d)"
    and "r = resolve_budget frames c m d"
  shows "budget_ok b \<and>
    (ucPlaybackTargetFrames c = 0 \<or> rb_target r = ucPlaybackTargetFrames c) \<and>
    (ucStartupPrimeFrames c = 0 \<or> rb_prime r = ucStartupPrimeFrames c) \<and>
    (ucWriteHeadroomFrames c = 0 \<or> rb_headroom r = ucWriteHeadroomFrames c) \<and>
    rb_wave r = max 1 (captureTransferFrames (buf d)) \<and>
    rb_captureTarget r = resolveOptionalFrames (ucCaptureTargetFrames c) (rb_wave r) \<and>
    rb_captureHeadroom r = resolveOptionalFrames (ucCaptureHeadroomFrames c) (rb_wave r) \<and>
    rb_captureSlack r = resolveOptionalFrames (ucCaptureDeadlineSlackFrames c) (rb_wave r) \<and>
    4 \<le> rb_quantum r \<and> rb_quantum r \<le> 1024 \<and>
    b = (if 0 \<le> rb_target r \<and> 0 \<le> rb_headroom r \<and> rb_target r + rb_headroom r \<le> capacity \<and>
            exactInitialPacketFrames (buf d) \<le> rb_prime r \<and> rb_prime r \<le> capacity \<and>
            0 \<le> rb_captureTarget r \<and> 0 \<le> rb_captureHeadroom r \<and>
            rb_wave r + rb_captureTarget r + rb_captureHeadroom r \<le> capacity
         then (buf d)\<lparr>graphQuantum := rb_quantum r, playbackTargetFrames := rb_target r,
                startupPrimeFrames := rb_prime r, writeHeadroomFrames := rb_headroom r,
                captureLimitFrames := ucCaptureLimitFrames c, captureTargetFrames := rb_captureTarget r,
                captureHeadroomFrames := rb_captureHeadroom r, captureDeadlineSlackFrames := rb_captureSlack r\<rparr>
         else (buf d)\<lparr>playbackTargetFrames := 0, startupPrimeFrames := 0, writeHeadroomFrames := 0,
                captureLimitFrames := 0, captureTargetFrames := 0, captureHeadroomFrames := 0,
                captureDeadlineSlackFrames := 0\<rparr>)"
proof -
  have p: "rb_physical r = capacity" using physical_frames [OF assms(1,2)] by (simp add: assms(5,6))
  have "length (store (ring d)) div frameBytes d \<le> 1048576"
    using ring_inv_len(3) [OF assms(1)] div_le_dividend [of "length (store (ring d))" "frameBytes d"] by linarith
  then have c: "0 \<le> capacity" "capacity \<le> 1048576" by (simp_all add: assms(5))
  note res = resolved_terms [where frames = frames and c = c and m = m and d = d, folded assms(6)]
  have v: "budget_valid r d \<longleftrightarrow> 0 \<le> rb_target r \<and> 0 \<le> rb_headroom r \<and> rb_target r + rb_headroom r \<le> capacity \<and>
      exactInitialPacketFrames (buf d) \<le> rb_prime r \<and> rb_prime r \<le> capacity \<and>
      0 \<le> rb_captureTarget r \<and> 0 \<le> rb_captureHeadroom r \<and> rb_wave r + rb_captureTarget r + rb_captureHeadroom r \<le> capacity"
    using p c(1) res by (auto simp: budget_valid_def checkedFrameBudgetFits_def)
  have b: "b = (if budget_valid r d then (buf d)\<lparr>graphQuantum := rb_quantum r, playbackTargetFrames := rb_target r,
        startupPrimeFrames := rb_prime r, writeHeadroomFrames := rb_headroom r,
        captureLimitFrames := ucCaptureLimitFrames c, captureTargetFrames := rb_captureTarget r,
        captureHeadroomFrames := rb_captureHeadroom r, captureDeadlineSlackFrames := rb_captureSlack r\<rparr>
      else (buf d)\<lparr>playbackTargetFrames := 0, startupPrimeFrames := 0, writeHeadroomFrames := 0,
        captureLimitFrames := 0, captureTargetFrames := 0, captureHeadroomFrames := 0, captureDeadlineSlackFrames := 0\<rparr>)"
    by (simp add: assms(4) setUserspaceBufferConfig_def Let_def assms(6) [symmetric])
  have "budget_ok b" using c assms(3) v by (auto simp: b budget_ok_def)
  then show ?thesis using res b unfolding v by blast
qed

theorem setUserspaceBufferConfig_fits_ring_witness:
  "playbackTargetFrames (buf (setUserspaceBufferConfig 64 demo_request 3 demo_driver)) = 2 \<and>
   startupPrimeFrames (buf (setUserspaceBufferConfig 64 demo_request 3 demo_driver)) = 3"
proof -
  let ?r = "resolve_budget 64 demo_request 3 demo_driver"
  have ok: "ring_inv (ring demo_driver)" "stride_ok demo_driver" "0 \<le> exactInitialPacketFrames (buf demo_driver)"
    using demo_driver_ok(1) by (simp_all add: pb_inv_def playback_ok_def) (simp add: demo_driver_def initBuffering_def)
  have cap: "int (length (store (ring demo_driver)) div frameBytes demo_driver) = 4"
    using demo_driver_ok(2) by (simp add: demo_driver_def emptyRing_def)
  have d: "exactInitialPacketFrames (buf demo_driver) = 0" "captureTransferFrames (buf demo_driver) = 0"
    by (simp_all add: demo_driver_def initBuffering_def)
  show ?thesis
    using setUserspaceBufferConfig_fits_ring [OF ok refl cap [symmetric] refl, of 64 demo_request 3]
    by (simp add: d) (simp add: demo_request_def resolveOptionalFrames_def defaultUserspaceBufferConfig_def)
qed

end
