(* ===== verification/Direct_Output.thy ===== *)
theory Direct_Output
  imports Pcm Accounting
begin

text \<open>
  The full-duplex bridge of \<^verbatim>\<open>include/liblowlatencyaudio/DirectUsbOutput.h\<close>: whole-quantum
  admission, decoding of capture blocks, and the signal detectors.  The adapter owns a driver
  (\<open>ad_driver\<close>).  Pointers to sample blocks are lists, a null pointer is \<open>None\<close>.  One call is one
  step; \<open>activeWriters_\<close>, which only counts calls in progress, is zero between calls.
\<close>

section \<open>The adapter\<close>

record adapter =
  ad_driver :: driver
  packing :: pack_format
  accepting :: bool
  adapterStreaming :: bool
  admissionPolicy :: int
  minAdmissionMargin :: int
  playbackQuantumDrops :: u64
  discontinuityThreshold :: rat
  captureDiscontinuities :: u64
  captureModulations :: u64
  signalDiscontinuities :: u64
  captureDetectorArmed :: bool
  captureRampWindows :: int
  captureInspectChannel :: int
  captureInspectSkips :: u64
  capturePartialReads :: u64
  captureDiscontinuityThreshold :: rat
  captureModulationThreshold :: rat
  levelSum :: rat
  levelCount :: int
  levelWindows :: int
  levelReference :: rat
  capturePrevious :: rat
  capturePeak :: rat
  captureSeeded :: bool
  lastLeft :: rat
  lastRight :: rat
  continuitySeeded :: bool

abbreviation (input) kCaptureRampWindows :: int where "kCaptureRampWindows \<equiv> 4800"
abbreviation (input) kLevelWindowFrames :: int where "kLevelWindowFrames \<equiv> 4096"
abbreviation (input) kLevelWarmupWindows :: int where "kLevelWarmupWindows \<equiv> 20"
abbreviation (input) kMaxFramesPerWrite :: int where "kMaxFramesPerWrite \<equiv> 1024"

definition newAdapter :: "int \<Rightarrow> int \<Rightarrow> adapter" where
  "newAdapter cfd pfd =
     \<lparr>ad_driver = newDriver cfd pfd,
      packing = \<lparr>deviceChannels = 2, outputPair = 0, formatBits = 32, formatBytes = 4\<rparr>,
      accepting = False, adapterStreaming = False, admissionPolicy = 0, minAdmissionMargin = INT_MAX,
      playbackQuantumDrops = 0, discontinuityThreshold = 0, captureDiscontinuities = 0,
      captureModulations = 0, signalDiscontinuities = 0, captureDetectorArmed = False,
      captureRampWindows = 0, captureInspectChannel = 0, captureInspectSkips = 0,
      capturePartialReads = 0, captureDiscontinuityThreshold = 0, captureModulationThreshold = 0,
      levelSum = 0, levelCount = 0, levelWindows = 0, levelReference = 0, capturePrevious = 0,
      capturePeak = 0, captureSeeded = False, lastLeft = 0, lastRight = 0, continuitySeeded = False\<rparr>"

text \<open>A \<open>float\<close> scaled by ten thousand, as the event arguments carry it.\<close>

definition permyriad :: "rat \<Rightarrow> u32" where
  "permyriad x = word_of_int (trunc (fl32 (x * 10000)))"

text \<open>Recording is guarded by \<open>enabled()\<close>, so a disabled recorder does not even read the clock.\<close>

definition record_if_enabled :: "env \<Rightarrow> Event \<Rightarrow> u32 \<Rightarrow> u32 \<Rightarrow> u32 \<Rightarrow> u32 \<Rightarrow> adapter \<Rightarrow> adapter" where
  "record_if_enabled e ev x y z w a =
     (if fr_enabled (flightRecorder (ad_driver a))
      then ad_driver_update (record_event e ev x y z w) a else a)"

section \<open>Detectors\<close>

text \<open>The output continuity check of one channel; returns the last sample.\<close>

fun inspect_channel :: "env \<Rightarrow> u32 \<Rightarrow> nat \<Rightarrow> rat list \<Rightarrow> rat \<Rightarrow> adapter \<Rightarrow> rat \<times> adapter" where
  "inspect_channel e ch frame [] previous a = (previous, a)"
| "inspect_channel e ch frame (value # rest) previous a =
     (let step = fl32 (if value > previous then value - previous else previous - value);
          a1 = (if step > discontinuityThreshold a \<and> continuitySeeded a
                then record_if_enabled e SignalDiscontinuity (permyriad step) (of_nat frame) ch
                       (u32_of_size (size_of_int (writtenFrames (led (ad_driver a))) + of_nat frame))
                       (signalDiscontinuities_update (\<lambda>n. n + 1) a)
                else a)
      in inspect_channel e ch (Suc frame) rest value a1)"

definition inspectContinuity :: "env \<Rightarrow> rat list \<Rightarrow> rat list \<Rightarrow> nat \<Rightarrow> adapter \<Rightarrow> adapter" where
  "inspectContinuity e left right frames a =
     (if discontinuityThreshold a \<le> 0 then a
      else (case inspect_channel e 0 0 (take frames left) (lastLeft a) a of (l, a1) \<Rightarrow>
            case inspect_channel e 1 0 (take frames right) (lastRight a1) (a1\<lparr>lastLeft := l\<rparr>) of (r, a2) \<Rightarrow>
              a2\<lparr>lastRight := r, continuitySeeded := True\<rparr>))"

text \<open>The capture step detector: relative to a decaying peak, after a settling period.\<close>

definition inspect_capture_sample :: "env \<Rightarrow> nat \<Rightarrow> rat \<Rightarrow> adapter \<Rightarrow> adapter" where
  "inspect_capture_sample e frame value a =
     (let magnitude = (if value < 0 then - value else value);
          peak = fl32 ((if magnitude > capturePeak a then magnitude else capturePeak a) * fl32 (99998 / 100000));
          step = fl32 (if value > capturePrevious a then value - capturePrevious a else capturePrevious a - value);
          levelUsable = (captureSeeded a \<and> peak > fl32 (2 / 100));
          ramp = (if levelUsable \<and> captureRampWindows a \<le> kCaptureRampWindows
                  then captureRampWindows a + 1 else captureRampWindows a);
          settled = (levelUsable \<and> ramp > kCaptureRampWindows);
          a1 = a\<lparr>capturePeak := peak, captureRampWindows := ramp,
                captureDetectorArmed := (captureDetectorArmed a \<or> settled)\<rparr>;
          a2 = (if settled \<and> step > fl32 (captureDiscontinuityThreshold a * peak)
                then record_if_enabled e CaptureDiscontinuity (permyriad (fl32 (step / peak))) (of_nat frame)
                       (permyriad peak) (u32_of_int (writtenFrames (led (ad_driver a))))
                       (captureDiscontinuities_update (\<lambda>n. n + 1) a1)
                else a1)
      in a2\<lparr>capturePrevious := value, captureSeeded := True\<rparr>)"

fun inspect_capture_block :: "env \<Rightarrow> nat \<Rightarrow> rat list \<Rightarrow> adapter \<Rightarrow> adapter" where
  "inspect_capture_block e frame [] a = a"
| "inspect_capture_block e frame (v # vs) a =
     inspect_capture_block e (Suc frame) vs (inspect_capture_sample e frame v a)"

definition inspectCapture :: "env \<Rightarrow> rat list \<Rightarrow> adapter \<Rightarrow> adapter" where
  "inspectCapture e samples a =
     (if captureDiscontinuityThreshold a \<le> 0 \<or> samples = [] then a
      else inspect_capture_block e 0 samples a)"

text \<open>The capture level detector: RMS over a window against a slow reference.\<close>

definition level_window :: "env \<Rightarrow> rat \<Rightarrow> adapter \<Rightarrow> adapter" where
  "level_window e level a =
     (if level < fl32 (1 / 100) then a\<lparr>levelReference := level, levelWindows := 0\<rparr>
      else if levelReference a \<le> 0 then a\<lparr>levelReference := level\<rparr>
      else
        let ref = levelReference a; a1 = a\<lparr>levelWindows := levelWindows a + 1\<rparr>
        in if levelWindows a1 \<le> kLevelWarmupWindows
           then a1\<lparr>levelReference := fl32 (ref + fl32 (fl32 (level - ref) * (1 / 2)))\<rparr>
           else
             let deviation = fl32 (\<bar>fl32 (level - ref)\<bar> / ref);
                 a2 = (if deviation > captureModulationThreshold a
                       then record_if_enabled e CaptureModulation (permyriad deviation) (permyriad level)
                              (permyriad ref) (u32_of_int (writtenFrames (led (ad_driver a1))))
                              (captureModulations_update (\<lambda>n. n + 1) a1)
                       else a1)
             in a2\<lparr>levelReference := fl32 (ref + fl32 (fl32 (level - ref) * fl32 (5 / 100)))\<rparr>)"

definition level_sample :: "env \<Rightarrow> rat \<Rightarrow> adapter \<Rightarrow> adapter" where
  "level_sample e sample a =
     (let sum = fl64 (levelSum a + fl64 (sample * sample)); count = levelCount a + 1
      in if count < kLevelWindowFrames then a\<lparr>levelSum := sum, levelCount := count\<rparr>
         else level_window e (fl32 (sqrt64 (fl64 (sum / of_int count)))) (a\<lparr>levelSum := 0, levelCount := 0\<rparr>))"

definition inspectCaptureLevel :: "env \<Rightarrow> rat list \<Rightarrow> adapter \<Rightarrow> adapter" where
  "inspectCaptureLevel e samples a =
     (if captureModulationThreshold a \<le> 0 then a else fold (level_sample e) samples a)"

definition setCaptureInspectChannel :: "int \<Rightarrow> adapter \<Rightarrow> adapter" where
  "setCaptureInspectChannel channel a =
     a\<lparr>captureInspectChannel := (if channel < 0 then 0 else channel), capturePrevious := 0, capturePeak := 0,
       captureSeeded := False, captureRampWindows := 0, levelSum := 0, levelCount := 0,
       levelWindows := 0, levelReference := 0\<rparr>"

section \<open>Playback: whole quanta\<close>

text \<open>Reserving, charging, packing and committing one quantum.\<close>

definition publish_quantum :: "rat list \<Rightarrow> rat list \<Rightarrow> int \<Rightarrow> bool \<Rightarrow> adapter \<Rightarrow> bool \<times> adapter" where
  "publish_quantum left right frames chargeCredit a =
     (case preparePlaybackWrite frames (ad_driver a) of (reg, d1) \<Rightarrow>
        if wr_frames reg \<noteq> frames then (False, a\<lparr>ad_driver := d1\<rparr>)
        else
          let (paid, d2) = (if \<not> chargeCredit \<or> admissionPolicy a \<noteq> 1 then (True, d1)
                            else takePlaybackCredit frames d1)
          in if \<not> paid then (False, a\<lparr>ad_driver := d2\<rparr>)
             else (case packPlaybackRegionForFormat (packing a) (nat (wr_frameStride reg))
                          (unat (wr_firstBytes reg)) (nat (wr_frames reg)) left right of
                     None \<Rightarrow> (False, a\<lparr>ad_driver := d2\<rparr>)
                   | Some (b1, b2) \<Rightarrow>
                       (True, a\<lparr>ad_driver := noteQuantumWritten (commitPlaybackWrite reg
                                  (fill_region reg (b1 @ b2) d2))\<rparr>)))"

definition submitQuantum ::
  "env \<Rightarrow> rat list option \<Rightarrow> rat list option \<Rightarrow> int \<Rightarrow> bool \<Rightarrow> adapter \<Rightarrow> bool \<times> adapter" where
  "submitQuantum e left right frames chargeCredit a =
     (case (left, right) of
        (Some l, Some r) \<Rightarrow>
          if frames \<le> 0 \<or> frames > kMaxFramesPerWrite \<or> \<not> accepting a then (False, a)
          else
            let writable = writableFrames (ad_driver a);
                margin = writable - frames;
                a1 = a\<lparr>minAdmissionMargin := min margin (minAdmissionMargin a)\<rparr>;
                (submitted, a2) = (if accepting a1 \<and> writable \<ge> frames
                                   then publish_quantum l r frames chargeCredit a1 else (False, a1));
                a3 = (if submitted then inspectContinuity e l r (nat frames) a2
                      else playbackQuantumDrops_update (\<lambda>n. n + 1) a2);
                d = ad_driver a3
            in (submitted, a3\<lparr>ad_driver :=
                  record_event e (if submitted then QuantumOffered else QuantumRefused)
                    (u32_of_int (if writable < 0 then 0 else writable)) (u32_of_int frames)
                    (u32_of_int (max 0 (bufferedFrames d))) (u32_of_size (queuedOutFrames (led d))) d\<rparr>)
      | _ \<Rightarrow> (False, a))"

definition submitWholeQuantum ::
  "env \<Rightarrow> rat list option \<Rightarrow> rat list option \<Rightarrow> int \<Rightarrow> adapter \<Rightarrow> bool \<times> adapter" where
  "submitWholeQuantum e left right frames a = submitQuantum e left right frames True a"

definition submitHeldQuantum ::
  "env \<Rightarrow> rat list option \<Rightarrow> rat list option \<Rightarrow> int \<Rightarrow> adapter \<Rightarrow> bool \<times> adapter" where
  "submitHeldQuantum e left right frames a = submitQuantum e left right frames False a"

section \<open>Capture: whole quanta\<close>

text \<open>\<open>dst\<close> are the destination planes, \<open>None\<close> for a null pointer.\<close>

definition decode_plane :: "bytes \<Rightarrow> bytes \<Rightarrow> CaptureReadRegion \<Rightarrow> StreamFormat \<Rightarrow> nat \<Rightarrow> nat \<Rightarrow> rat list \<Rightarrow> rat list" where
  "decode_plane first second reg f frames channel plane =
     (let bits = bitsPerSample f;
          sampleOffset = nat (int channel * bytesPerSample f + (bytesPerSample f - (bits + 7) div 8))
      in if bits = 16 \<or> bits = 24 \<or> bits = 32
         then unpackCaptureChannel bits first second (nat (rr_frameStride reg)) sampleOffset frames @ drop frames plane
         else plane)"

definition read_planes :: "bytes \<Rightarrow> bytes \<Rightarrow> CaptureReadRegion \<Rightarrow> StreamFormat \<Rightarrow> int \<Rightarrow> nat \<Rightarrow> rat list list \<Rightarrow> rat list list" where
  "read_planes first second reg f decodeChannels frames planes =
     map (\<lambda>(c, plane). if int c < decodeChannels
       then decode_plane first second reg f frames c plane
       else replicate frames 0 @ drop frames plane) (enumerate 0 planes)"

text \<open>The loopback detectors watch the selected channel, when it was decoded.\<close>

definition inspect_read :: "env \<Rightarrow> int \<Rightarrow> nat \<Rightarrow> rat list list \<Rightarrow> adapter \<Rightarrow> adapter" where
  "inspect_read e decodeChannels decodedFrames out a =
     (let inspect = captureInspectChannel a; block = take decodedFrames (out ! nat inspect)
      in if inspect < decodeChannels then inspectCaptureLevel e block (inspectCapture e block a)
         else if decodeChannels > 0 then captureInspectSkips_update (\<lambda>n. n + 1) a else a)"

definition readInputChannels :: "env \<Rightarrow> rat list option list \<Rightarrow> int \<Rightarrow> adapter \<Rightarrow> (int \<times> rat list list) \<times> adapter" where
  "readInputChannels e dst frames0 a =
     (if dst = [] \<or> frames0 \<le> 0 \<or> None \<in> set dst then ((0, map (case_option [] id) dst), a)
      else
        let planes = map the dst; frames = min frames0 kMaxFramesPerWrite in
        case prepareCaptureRead frames (ad_driver a) of (reg, d1) \<Rightarrow>
          let f = captureFormat d1;
              available = max 0 (channels f);
              decodedFrames = max 0 (min (rr_frames reg) frames);
              decodeChannels = min (int (length dst)) available
          in if decodedFrames < frames \<or> decodeChannels \<le> 0
             then ((0, planes), a\<lparr>ad_driver := commitCaptureRead reg d1,
                     capturePartialReads := capturePartialReads a + 1\<rparr>)
             else
               let first = take (unat (rr_firstBytes reg)) (drop (rr_first reg) (store (captureRing d1)));
                   second = take (unat (rr_secondBytes reg)) (store (captureRing d1));
                   out = read_planes first second reg f decodeChannels (nat frames) planes
               in ((decodedFrames, out),
                   inspect_read e decodeChannels (nat decodedFrames) out
                     (a\<lparr>ad_driver := commitCaptureRead reg d1\<rparr>)))"

section \<open>Session control\<close>

definition adapter_requestStop_flags :: "adapter \<Rightarrow> adapter" where
  "adapter_requestStop_flags a = a\<lparr>accepting := False, adapterStreaming := False\<rparr>"

definition adapter_resetEnvelopeMetrics :: "adapter \<Rightarrow> adapter" where
  "adapter_resetEnvelopeMetrics a =
     a\<lparr>minAdmissionMargin := INT_MAX, ad_driver := resetEnvelopeMetrics (ad_driver a)\<rparr>"

definition minAdmissionMarginFrames :: "adapter \<Rightarrow> int" where
  "minAdmissionMarginFrames a = (if minAdmissionMargin a = INT_MAX then 0 else minAdmissionMargin a)"

definition captureXRunCount :: "adapter \<Rightarrow> u64" where
  "captureXRunCount a =
     (let stats = captureStats (ad_driver a) in cs_overruns stats + cs_underruns stats)"

definition setAdmissionPolicy :: "int \<Rightarrow> adapter \<Rightarrow> adapter" where
  "setAdmissionPolicy policy a = a\<lparr>admissionPolicy := policy\<rparr>"

text \<open>The three thresholds share one rule: anything not positive switches the detector off.\<close>

definition setDiscontinuityThreshold :: "rat \<Rightarrow> adapter \<Rightarrow> adapter" where
  "setDiscontinuityThreshold threshold a = a\<lparr>discontinuityThreshold := (if threshold > 0 then threshold else 0)\<rparr>"

definition setCaptureModulationThreshold :: "rat \<Rightarrow> adapter \<Rightarrow> adapter" where
  "setCaptureModulationThreshold threshold a =
     a\<lparr>captureModulationThreshold := (if threshold > 0 then threshold else 0)\<rparr>"

definition setCaptureDiscontinuityThreshold :: "rat \<Rightarrow> adapter \<Rightarrow> adapter" where
  "setCaptureDiscontinuityThreshold threshold a =
     a\<lparr>captureDiscontinuityThreshold := (if threshold > 0 then threshold else 0)\<rparr>"

section \<open>Lemmas: detectors only observe\<close>

text \<open>What the detectors and the flight recorder leave alone.\<close>

definition same_audio :: "adapter \<Rightarrow> adapter \<Rightarrow> bool" where
  "same_audio a' a \<longleftrightarrow> ring (ad_driver a') = ring (ad_driver a) \<and> led (ad_driver a') = led (ad_driver a) \<and>
     captureRing (ad_driver a') = captureRing (ad_driver a) \<and> fmt (ad_driver a') = fmt (ad_driver a) \<and>
     captureFormat (ad_driver a') = captureFormat (ad_driver a) \<and> buf (ad_driver a') = buf (ad_driver a) \<and>
     packing a' = packing a \<and> accepting a' = accepting a \<and> playbackQuantumDrops a' = playbackQuantumDrops a"

lemma same_audio_refl [simp]: "same_audio a a"
  by (simp add: same_audio_def)

lemma same_audio_trans: "same_audio c b \<Longrightarrow> same_audio b a \<Longrightarrow> same_audio c a"
  by (simp add: same_audio_def)

lemma record_if_enabled_same: "same_audio (record_if_enabled e ev x y z w a) a"
  by (simp add: same_audio_def record_if_enabled_def)

lemma inspect_channel_same: "inspect_channel e ch n vs p a = (q, a') \<Longrightarrow> same_audio a' a"
proof (induction vs arbitrary: n p a)
  case (Cons v vs)
  define b where "b = record_if_enabled e SignalDiscontinuity
    (permyriad (fl32 (if v > p then v - p else p - v))) (of_nat n) ch
    (u32_of_size (size_of_int (writtenFrames (led (ad_driver a))) + of_nat n))
    (signalDiscontinuities_update (\<lambda>n. n + 1) a)"
  have b: "same_audio b a"
    using record_if_enabled_same [of e SignalDiscontinuity _ _ _ _ "signalDiscontinuities_update (\<lambda>n. n + 1) a"]
    unfolding b_def same_audio_def by simp
  from Cons.prems have "\<exists>c. (c = a \<or> c = b) \<and> inspect_channel e ch (Suc n) vs v c = (q, a')"
    unfolding b_def by (auto simp: Let_def split: if_splits)
  then show ?case using Cons.IH b same_audio_trans same_audio_refl by metis
qed simp

lemma inspectContinuity_same: "same_audio (inspectContinuity e l r n a) a"
proof (cases "discontinuityThreshold a \<le> 0")
  case False
  obtain x b where b: "inspect_channel e 0 0 (take n l) (lastLeft a) a = (x, b)" by fastforce
  obtain y c where c: "inspect_channel e 1 0 (take n r) (lastRight b) (b\<lparr>lastLeft := x\<rparr>) = (y, c)" by fastforce
  show ?thesis
    using inspect_channel_same [OF b] inspect_channel_same [OF c] False
    by (simp add: inspectContinuity_def b c same_audio_def)
qed (simp add: inspectContinuity_def)

section \<open>Lemmas: publishing a quantum\<close>

text \<open>A running session: the ring is sound, the packer matches the negotiated frame size.\<close>

definition adapter_ok :: "adapter \<Rightarrow> bool" where
  "adapter_ok a \<longleftrightarrow> playback_ok (ad_driver a) \<and> budget_ok (buf (ad_driver a)) \<and> pack_ok (packing a) \<and>
     frame_size (packing a) = frameBytes (ad_driver a)"

text \<open>Whether the credit policy lets the quantum through.\<close>

definition credit_admits :: "bool \<Rightarrow> int \<Rightarrow> adapter \<Rightarrow> bool" where
  "credit_admits chargeCredit frames a \<longleftrightarrow>
     \<not> chargeCredit \<or> admissionPolicy a \<noteq> 1 \<or> fst (takePlaybackCredit frames (ad_driver a))"

lemma takePlaybackCredit_frame:
  "ring (snd (takePlaybackCredit n d)) = ring d" "fmt (snd (takePlaybackCredit n d)) = fmt d"
  "buf (snd (takePlaybackCredit n d)) = buf d" "writtenFrames (led (snd (takePlaybackCredit n d))) = writtenFrames (led d)"
  by (simp_all add: takePlaybackCredit_def)

lemma takePlaybackCredit_note_overrun:
  "fst (takePlaybackCredit n (note_overrun b d)) = fst (takePlaybackCredit n d)"
  by (simp add: takePlaybackCredit_def credit_floor_def note_overrun_def)

lemma noteQuantumWritten_frame [simp]:
  "ring (noteQuantumWritten d) = ring d" "fmt (noteQuantumWritten d) = fmt d"
  "led (noteQuantumWritten d) = led d" "buf (noteQuantumWritten d) = buf d"
  by (simp_all add: noteQuantumWritten_def Let_def)

lemma pack_region:
  assumes "pack_ok f" "frame_size f = s" "region_at reg r n s" "n \<le> length left" "n \<le> length right"
  obtains b1 b2 where
    "packPlaybackRegionForFormat f (nat (wr_frameStride reg)) (unat (wr_firstBytes reg)) (nat (wr_frames reg)) left right
       = Some (b1, b2)" "b1 @ b2 = packStereoRun f n left right"
proof -
  obtain b1 b2 where p: "packPlaybackRegion f s (unat (wr_firstBytes reg)) n left right = (b1, b2)" by fastforce
  have "unat (wr_firstBytes reg) \<le> n * s" using assms(3) by (simp add: region_at_def)
  from packPlaybackRegion_spans(1) [OF assms(1) assms(2) [symmetric] this assms(4,5) p]
  have "b1 @ b2 = packStereoRun f n left right" .
  moreover have "packPlaybackRegionForBits f"
    using assms(1) by (auto simp: pack_ok_def packPlaybackRegionForBits_def valid_bytes_def)
  ultimately show ?thesis
    using that [of b1 b2] assms(1,3) p by (auto simp: packPlaybackRegionForFormat_def region_at_def pack_ok_def)
qed

text \<open>What a submission of \<open>n\<close> frames spends of the credit.\<close>

definition credit_spent :: "bool \<Rightarrow> int \<Rightarrow> adapter \<Rightarrow> int" where
  "credit_spent chargeCredit frames a =
     (if chargeCredit \<and> admissionPolicy a = 1 \<and> playbackStarted (mode (ad_driver a)) then frames else 0)"

text \<open>Nothing but the overrun latch, the flight recorder and the number of clock readings differs.\<close>

definition only_observed :: "driver \<Rightarrow> driver \<Rightarrow> bool" where
  "only_observed d d' \<longleftrightarrow>
     d' = d\<lparr>mode := (mode d)\<lparr>playbackOverrunActive := playbackOverrunActive (mode d')\<rparr>,
            flightRecorder := flightRecorder d', clock_reads := clock_reads d'\<rparr>"

lemma only_observed_refl: "only_observed d d"
  by (simp add: only_observed_def)

lemma only_observed_overrun: "only_observed d (note_overrun False d)"
  by (simp add: only_observed_def note_overrun_def)

lemma only_observed_record: "only_observed d d1 \<Longrightarrow> only_observed d (record_event e ev x y z w d1)"
proof -
  assume o: "only_observed d d1"
  show ?thesis by (subst o [unfolded only_observed_def]) (simp add: only_observed_def record_event_def monotonicNowNs_def)
qed

lemma publish_quantum_step:
  assumes ok: "adapter_ok a" and n: "0 < n" "int n \<le> writableFrames (ad_driver a)" "int n \<le> INT_MAX"
    and len: "n \<le> length l" "n \<le> length r"
    and p: "publish_quantum l r (int n) chg a = (sent, a')"
  shows "sent \<longleftrightarrow> credit_admits chg (int n) a"
    and "sent \<Longrightarrow> ring_contents (ring (ad_driver a')) =
      ring_contents (ring (ad_driver a)) @ packStereoRun (packing a) n l r"
    and "sent \<Longrightarrow> writtenFrames (led (ad_driver a')) = writtenFrames (led (ad_driver a)) + int n"
    and "\<not> sent \<Longrightarrow> ring (ad_driver a') = ring (ad_driver a)"
    and "\<not> sent \<Longrightarrow> writtenFrames (led (ad_driver a')) = writtenFrames (led (ad_driver a))"
    and "playback_ok (ad_driver a')" and "buf (ad_driver a') = buf (ad_driver a)"
    and "fmt (ad_driver a') = fmt (ad_driver a)" and "packing a' = packing a" and "accepting a' = accepting a"
    and "playbackQuantumDrops a' = playbackQuantumDrops a"
    and "\<not> sent \<Longrightarrow> a' = a\<lparr>ad_driver := note_overrun False (ad_driver a)\<rparr>"
    and "sent \<Longrightarrow> playbackCredit (led (ad_driver a')) = playbackCredit (led (ad_driver a)) - credit_spent chg (int n) a"
proof -
  define d s where "d = ad_driver a" and "s = frameBytes d"
  have pok: "playback_ok d" and bok: "budget_ok (buf d)" and fok: "pack_ok (packing a)" and fs: "frame_size (packing a) = s"
    using ok by (simp_all add: adapter_ok_def d_def s_def)
  have inv: "ring_inv (ring d)" "stride_ok d" using pok by (simp_all add: playback_ok_def)
  have s0: "0 < s" using inv(2) by (simp add: s_def frameBytes_def stride_ok_def)
  have adm: "admitted_frames d (int n) = n"
    using n(2) unfolding d_def [symmetric] writableFrames_eq [OF inv bok] by (simp add: admitted_frames_def)
  obtain reg d1 where pr: "preparePlaybackWrite (int n) d = (reg, d1)" by fastforce
  note prep = preparePlaybackWrite_region [OF pok bok _ n(3) pr, unfolded adm]
  have d1: "d1 = note_overrun False d" using prep(1) n(1) by simp
  have reg: "region_at reg (ring d) n s" using prep(3) n(1) by (simp add: s_def)
  have frames: "wr_frames reg = int n" using reg by (simp add: region_at_def)
  obtain b1 b2 where pk: "packPlaybackRegionForFormat (packing a) (nat (wr_frameStride reg)) (unat (wr_firstBytes reg))
      (nat (wr_frames reg)) l r = Some (b1, b2)" and bb: "b1 @ b2 = packStereoRun (packing a) n l r"
    by (rule pack_region [OF fok fs reg len])
  define d2 where "d2 = (if \<not> chg \<or> admissionPolicy a \<noteq> 1 then d1 else snd (takePlaybackCredit (int n) d1))"
  define q where "q = credit_admits chg (int n) a"
  have d2: "ring d2 = ring d" "fmt d2 = fmt d" "buf d2 = buf d" "writtenFrames (led d2) = writtenFrames (led d)"
    unfolding d2_def d1 by (simp_all add: takePlaybackCredit_frame note_overrun_def)
  have q: "q \<longleftrightarrow> \<not> chg \<or> admissionPolicy a \<noteq> 1 \<or> fst (takePlaybackCredit (int n) d1)"
    unfolding q_def credit_admits_def d_def [symmetric] d1 takePlaybackCredit_note_overrun ..
  define d3 where "d3 = noteQuantumWritten (commitPlaybackWrite reg (fill_region reg (b1 @ b2) d2))"
  have res: "(sent, a') = (q, a\<lparr>ad_driver := if q then d3 else d2\<rparr>)"
    unfolding p [symmetric] publish_quantum_def d_def [symmetric] pr q d2_def d3_def
    by (auto simp: frames pk [unfolded frames nat_int] split: prod.splits)
  have len: "length (b1 @ b2) = n * s" using bb length_packStereoRun [OF fok, of n l r] fs by simp
  have room: "length (b1 @ b2) \<le> ring_room (ring d)"
    using admitted_bytes_fit [of d "int n"] adm len by (simp add: s_def)
  have reg2: "region_at reg (ring d2) n s" using reg d2(1) by simp
  note cf = commit_fill [OF reg2 n(1) s0, of "b1 @ b2"]
  have r3: "ring d3 = ring_put (b1 @ b2) (ring d)" using cf(1) len d2(1) by (simp add: d3_def)
  have l3: "writtenFrames (led d3) = writtenFrames (led d) + int n" using cf(2) len d2(4) by (simp add: d3_def)
  have f3: "fmt d3 = fmt d" "buf d3 = buf d"
    using d2 by (simp_all add: d3_def commitPlaybackWrite_def fill_region_def Let_def)
  note put = ring_put_playback_ok [OF pok len [unfolded s_def] room f3(1) r3]
  have pok2: "playback_ok d2"
    using pok d2 by (simp add: playback_ok_def frameBytes_def stride_ok_def)
  show "sent \<longleftrightarrow> credit_admits chg (int n) a"
    "sent \<Longrightarrow> ring_contents (ring (ad_driver a')) = ring_contents (ring (ad_driver a)) @ packStereoRun (packing a) n l r"
    "sent \<Longrightarrow> writtenFrames (led (ad_driver a')) = writtenFrames (led (ad_driver a)) + int n"
    "\<not> sent \<Longrightarrow> ring (ad_driver a') = ring (ad_driver a)"
    "\<not> sent \<Longrightarrow> writtenFrames (led (ad_driver a')) = writtenFrames (led (ad_driver a))"
    "playback_ok (ad_driver a')" "buf (ad_driver a') = buf (ad_driver a)"
    "fmt (ad_driver a') = fmt (ad_driver a)" "packing a' = packing a" "accepting a' = accepting a"
    "playbackQuantumDrops a' = playbackQuantumDrops a"
    using res put(1,2) l3 f3 d2 pok2 bb unfolding d_def [symmetric] q_def [symmetric] by auto
  have "d2 = note_overrun False d" if "\<not> q" using that d1 unfolding q by (auto simp: d2_def takePlaybackCredit_def split: if_splits)
  then show "\<not> sent \<Longrightarrow> a' = a\<lparr>ad_driver := note_overrun False (ad_driver a)\<rparr>" using res by (simp add: d_def)
  have "playbackCredit (led d2) = playbackCredit (led d) - credit_spent chg (int n) a" if q
    using that n(1) unfolding q by (auto simp: d2_def d1 credit_spent_def d_def takePlaybackCredit_def note_overrun_def split: if_splits)
  moreover have "playbackCredit (led d3) = playbackCredit (led d2)"
    by (simp add: d3_def commitPlaybackWrite_def fill_region_def Let_def)
  ultimately show "sent \<Longrightarrow> playbackCredit (led (ad_driver a')) = playbackCredit (led (ad_driver a)) - credit_spent chg (int n) a"
    using res by (simp add: d_def)
qed

definition published :: "rat list \<Rightarrow> rat list \<Rightarrow> int \<Rightarrow> bool \<Rightarrow> adapter \<Rightarrow> adapter \<Rightarrow> bool" where
  "published l r frames chg a a' \<longleftrightarrow>
     ring_contents (ring (ad_driver a')) = ring_contents (ring (ad_driver a)) @ packStereoRun (packing a) (nat frames) l r \<and>
     writtenFrames (led (ad_driver a')) = writtenFrames (led (ad_driver a)) + frames \<and>
     playbackCredit (led (ad_driver a')) = playbackCredit (led (ad_driver a)) - credit_spent chg frames a \<and>
     playbackQuantumDrops a' = playbackQuantumDrops a"

lemma offer_quantum:
  assumes ok: "adapter_ok a" and n: "0 < frames" "frames \<le> INT_MAX" and len: "nat frames \<le> length l" "nat frames \<le> length r"
    and a1: "a1 = a\<lparr>minAdmissionMargin := m\<rparr>"
    and p: "(if frames \<le> writableFrames (ad_driver a) then publish_quantum l r frames chg a1 else (False, a1)) = (sent, a2)"
  shows "(sent \<longleftrightarrow> frames \<le> writableFrames (ad_driver a) \<and> credit_admits chg frames a) \<and> adapter_ok a2 \<and>
    (if sent then published l r frames chg a a2
     else only_observed (ad_driver a) (ad_driver a2) \<and> a2 = a1\<lparr>ad_driver := ad_driver a2\<rparr>)"
proof -
  have a1': "ad_driver a1 = ad_driver a" "packing a1 = packing a" "playbackQuantumDrops a1 = playbackQuantumDrops a" "adapter_ok a1"
    "credit_admits chg frames a1 = credit_admits chg frames a" "credit_spent chg frames a1 = credit_spent chg frames a"
    using ok by (simp_all add: a1 adapter_ok_def credit_admits_def credit_spent_def)
  show ?thesis
  proof (cases "frames \<le> writableFrames (ad_driver a)")
    case True
    then have p': "publish_quantum l r (int (nat frames)) chg a1 = (sent, a2)" using p n(1) by simp
    have w: "int (nat frames) \<le> writableFrames (ad_driver a1)" "int (nat frames) \<le> INT_MAX" using True n by (simp_all add: a1'(1))
    note P = publish_quantum_step [OF a1'(4) _ w len p']
    show ?thesis using P True n(1) a1' only_observed_overrun by (auto simp: published_def adapter_ok_def frameBytes_def)
  qed (use p a1' only_observed_refl in auto)
qed

section \<open>Lemmas: reading a quantum\<close>

definition capture_format_ok :: "StreamFormat \<Rightarrow> bool" where
  "capture_format_ok f \<longleftrightarrow> (bitsPerSample f = 16 \<or> bitsPerSample f = 24 \<or> bitsPerSample f = 32) \<and>
     int (valid_bytes (bitsPerSample f)) \<le> bytesPerSample f \<and> 0 < channels f"

text \<open>Channel \<open>c\<close> of a block of interleaved frames, as one contiguous run.\<close>

definition decoded_channel :: "StreamFormat \<Rightarrow> nat \<Rightarrow> bytes \<Rightarrow> nat \<Rightarrow> rat list" where
  "decoded_channel f frames bs c =
     unpackCaptureRun (bitsPerSample f) bs frames (nat (strideOf f))
       (nat (int c * bytesPerSample f + (bytesPerSample f - (bitsPerSample f + 7) div 8)))"

lemma decode_plane_run:
  assumes f: "capture_format_ok f" and c: "int c < channels f" and st: "rr_frameStride reg = strideOf f"
    and len: "length (first @ second) = frames * nat (strideOf f)"
  shows "decode_plane first second reg f frames c plane = decoded_channel f frames (first @ second) c @ drop frames plane"
proof -
  have b: "bitsPerSample f = 16 \<or> bitsPerSample f = 24 \<or> bitsPerSample f = 32"
    using f by (simp add: capture_format_ok_def)
  have v: "int (valid_bytes (bitsPerSample f)) = (bitsPerSample f + 7) div 8" using b by (auto simp: valid_bytes_def)
  have bp: "(bitsPerSample f + 7) div 8 \<le> bytesPerSample f" "0 < bytesPerSample f"
    using f v by (auto simp: capture_format_ok_def)
  have "(int c + 1) * bytesPerSample f \<le> channels f * bytesPerSample f"
    using c bp by (intro mult_right_mono) auto
  then have "nat (int c * bytesPerSample f + (bytesPerSample f - (bitsPerSample f + 7) div 8)) +
      valid_bytes (bitsPerSample f) \<le> nat (strideOf f)"
    using bp v mult_nonneg_nonneg [of "int c" "bytesPerSample f"] unfolding strideOf_def distrib_right by linarith
  from unpackCaptureChannel_spans [OF b this, of frames first second]
  show ?thesis using b st len by (auto simp: decode_plane_def decoded_channel_def Let_def)
qed

lemma level_window_same: "same_audio (level_window e v a) a"
  using record_if_enabled_same by (fastforce simp: level_window_def Let_def same_audio_def)

lemma level_sample_same: "same_audio (level_sample e v a) a"
  using level_window_same [of e _ "a\<lparr>levelSum := 0, levelCount := 0\<rparr>"]
  by (auto simp: level_sample_def Let_def same_audio_def)

lemma inspectCaptureLevel_same: "same_audio (inspectCaptureLevel e vs a) a"
proof -
  have "same_audio (fold (level_sample e) vs a) a" for a
    by (induction vs arbitrary: a) (auto intro: same_audio_trans level_sample_same)
  then show ?thesis by (simp add: inspectCaptureLevel_def)
qed

lemma inspect_capture_sample_same: "same_audio (inspect_capture_sample e n v a) a"
  using record_if_enabled_same by (fastforce simp: inspect_capture_sample_def Let_def same_audio_def)

lemma inspectCapture_same: "same_audio (inspectCapture e vs a) a"
proof -
  have "same_audio (inspect_capture_block e n vs a) a" for n a
  proof (induction vs arbitrary: n a)
    case (Cons v vs)
    show ?case using same_audio_trans [OF Cons.IH inspect_capture_sample_same] by simp
  qed simp
  then show ?thesis by (simp add: inspectCapture_def)
qed

section \<open>Properties\<close>

text \<open>C29. A quantum is published whole or not at all.  \<open>submitQuantum\<close> succeeds exactly when the
  driver announces room for the whole block and, under the credit policy, the ledger admits it; then
  the queue grows by the packed block, bit for bit, and by nothing else, and the credit falls by the
  frames where the policy charges them.  A refusal spends nothing: one drop is counted, the admission margin
  is updated, and of the driver at most the overrun latch, the flight recorder and the clock readings
  change - its queue, its whole ledger with the credit, and every other field are as they were.\<close>

theorem submitQuantum_all_or_nothing:
  assumes ok: "adapter_ok a" "accepting a" and n: "0 < frames" "frames \<le> 1024"
    and len: "nat frames \<le> length l" "nat frames \<le> length r"
  shows "case submitQuantum e (Some l) (Some r) frames chg a of (submitted, a') \<Rightarrow>
    (submitted \<longleftrightarrow> frames \<le> writableFrames (ad_driver a) \<and> credit_admits chg frames a) \<and> adapter_ok a' \<and>
    (if submitted
     then ring_contents (ring (ad_driver a')) =
            ring_contents (ring (ad_driver a)) @ packStereoRun (packing a) (nat frames) l r \<and>
          writtenFrames (led (ad_driver a')) = writtenFrames (led (ad_driver a)) + frames \<and>
          playbackCredit (led (ad_driver a')) = playbackCredit (led (ad_driver a)) - credit_spent chg frames a \<and>
          playbackQuantumDrops a' = playbackQuantumDrops a
     else only_observed (ad_driver a) (ad_driver a') \<and>
          a' = a\<lparr>ad_driver := ad_driver a', playbackQuantumDrops := playbackQuantumDrops a + 1,
                 minAdmissionMargin := min (writableFrames (ad_driver a) - frames) (minAdmissionMargin a)\<rparr>)"
proof -
  define a1 where "a1 = a\<lparr>minAdmissionMargin := min (writableFrames (ad_driver a) - frames) (minAdmissionMargin a)\<rparr>"
  define go where "go = (frames \<le> writableFrames (ad_driver a))"
  obtain sent a2 where p: "(if go then publish_quantum l r frames chg a1 else (False, a1)) = (sent, a2)" by fastforce
  define a3 where "a3 = (if sent then inspectContinuity e l r (nat frames) a2 else playbackQuantumDrops_update (\<lambda>n. n + 1) a2)"
  define d' where "d' = record_event e (if sent then QuantumOffered else QuantumRefused)
        (u32_of_int (if writableFrames (ad_driver a) < 0 then 0 else writableFrames (ad_driver a))) (u32_of_int frames)
        (u32_of_int (max 0 (bufferedFrames (ad_driver a3)))) (u32_of_size (queuedOutFrames (led (ad_driver a3)))) (ad_driver a3)"
  have step: "(sent \<longleftrightarrow> go \<and> credit_admits chg frames a) \<and> adapter_ok a2 \<and>
    (if sent then published l r frames chg a a2
     else only_observed (ad_driver a) (ad_driver a2) \<and> a2 = a1\<lparr>ad_driver := ad_driver a2\<rparr>)"
    using offer_quantum [OF ok(1) n(1) _ len a1_def p [unfolded go_def]] n(2) by (simp add: go_def)
  have sub: "submitQuantum e (Some l) (Some r) frames chg a = (sent, a3\<lparr>ad_driver := d'\<rparr>)"
    using p ok(2) n unfolding submitQuantum_def Let_def a1_def [symmetric] go_def
    by (simp add: a1_def a3_def d'_def split: prod.splits)
  have keep: "ring d' = ring (ad_driver a3)" "led d' = led (ad_driver a3)" "fmt d' = fmt (ad_driver a3)" "buf d' = buf (ad_driver a3)"
    by (simp_all add: d'_def)
  then have "adapter_ok (a3\<lparr>ad_driver := d'\<rparr>) = adapter_ok a3"
    by (simp add: adapter_ok_def playback_ok_def stride_ok_def frameBytes_def)
  moreover have "adapter_ok a3 = adapter_ok a2"
    using inspectContinuity_same [of e l r "nat frames" a2] 
    by (simp add: a3_def same_audio_def adapter_ok_def playback_ok_def stride_ok_def frameBytes_def)
  moreover have "only_observed (ad_driver a) d'" if "\<not> sent"
    using that step by (auto simp: d'_def a3_def intro: only_observed_record)
  moreover have "a3\<lparr>ad_driver := d'\<rparr> = a\<lparr>ad_driver := d', playbackQuantumDrops := playbackQuantumDrops a + 1,
      minAdmissionMargin := min (writableFrames (ad_driver a) - frames) (minAdmissionMargin a)\<rparr>" if "\<not> sent"
  proof -
    have "a2 = a1\<lparr>ad_driver := ad_driver a2\<rparr>" using step that by simp
    then obtain d where "a2 = a1\<lparr>ad_driver := d\<rparr>" by blast
    then show ?thesis using that by (simp add: a3_def a1_def)
  qed
  ultimately show ?thesis
    unfolding sub using step keep inspectContinuity_same [of e l r "nat frames" a2]
    by (auto simp: go_def [symmetric] a3_def same_audio_def published_def)
qed

definition demo_adapter :: adapter where
  "demo_adapter = (newAdapter 3 4)\<lparr>ad_driver := demo_driver, accepting := True,
     packing := \<lparr>deviceChannels = 2, outputPair = 0, formatBits = 16, formatBytes = 2\<rparr>\<rparr>"

lemma demo_adapter_ok: "adapter_ok demo_adapter" "accepting demo_adapter"
  using demo_driver_ok
  by (simp_all add: demo_adapter_def adapter_ok_def pb_inv_def pack_ok_def frame_size_def valid_bytes_def)

theorem submitQuantum_all_or_nothing_witness:
  "fst (submitQuantum demo_env (Some [1, -1]) (Some [-1, 1]) 2 True demo_adapter) \<and>
   ring_contents (ring (ad_driver (snd (submitQuantum demo_env (Some [1, -1]) (Some [-1, 1]) 2 True demo_adapter)))) =
     [255, 127, 0, 128, 0, 128, 255, 127]"
proof -
  have w: "writableFrames (ad_driver demo_adapter) = 3"
    using demo_driver_ok by (simp add: writableFrames_eq pb_inv_def playback_ok_def demo_adapter_def)
  have c: "ring_contents (ring (ad_driver demo_adapter)) = []"
    using emptyRing_inv [of 4] by (simp add: ring_contents_def demo_driver_def demo_adapter_def)
  have q: "credit_admits True 2 demo_adapter" by (simp add: credit_admits_def demo_adapter_def newAdapter_def)
  have pcm: "packPcm 16 2 1 = [255, 127]" "packPcm 16 2 (-1) = [0, 128]"
    by (simp_all add: packPcm_def pcm_sample_def Let_def valid_bytes_def upt_rec u32_of_int_def)
  have b: "packStereoRun (packing demo_adapter) 2 [1, -1] [-1, 1] = [255, 127, 0, 128, 0, 128, 255, 127]"
    by (simp add: demo_adapter_def packStereoRun_def pack_frame_def memcpy_at_def Let_def pcm upt_rec)
  show ?thesis
    using submitQuantum_all_or_nothing [OF demo_adapter_ok, where frames = 2 and l = "[1, -1]" and r = "[-1, 1]" and e = demo_env and chg = True]
    by (simp add: w c q b split: prod.splits)
qed

lemma readInputChannels_short:
  assumes "planes \<noteq> []" "0 < frames" "frames \<le> 1024"
    and p: "prepareCaptureRead frames (ad_driver a) = (reg, d1)" and s: "rr_frames reg < frames"
  shows "readInputChannels e (map Some planes) frames a = ((0, planes),
    a\<lparr>ad_driver := commitCaptureRead reg d1, capturePartialReads := capturePartialReads a + 1\<rparr>)"
proof -
  have "None \<notin> set (map Some planes)" "min frames 1024 = frames" "max 0 (min (rr_frames reg) frames) < frames"
    using assms by auto
  then show ?thesis
    using assms(1,2) s unfolding readInputChannels_def by (simp add: p Let_def comp_def)
qed

lemma inspect_read_same: "same_audio (inspect_read e c n out a) a"
  using same_audio_trans [OF inspectCaptureLevel_same inspectCapture_same]
  by (simp add: inspect_read_def Let_def) (simp add: same_audio_def)

lemma readInputChannels_full:
  assumes "planes \<noteq> []" "0 < frames" "frames \<le> 1024" "0 < channels (captureFormat d1)"
    and p: "prepareCaptureRead frames (ad_driver a) = (reg, d1)" and s: "rr_frames reg = frames"
  obtains a2 where "readInputChannels e (map Some planes) frames a = ((frames,
      read_planes (take (unat (rr_firstBytes reg)) (drop (rr_first reg) (store (captureRing d1))))
        (take (unat (rr_secondBytes reg)) (store (captureRing d1))) reg (captureFormat d1)
        (min (int (length planes)) (channels (captureFormat d1))) (nat frames) planes), a2)"
    "same_audio a2 (a\<lparr>ad_driver := commitCaptureRead reg d1\<rparr>)"
proof -
  have c: "None \<notin> set (map Some planes)" "min frames 1024 = frames"
    "\<not> min (int (length planes)) (channels (captureFormat d1)) \<le> 0" "max 0 (channels (captureFormat d1)) = channels (captureFormat d1)"
    using assms by (auto simp: min_def)
  show ?thesis
    by (rule that [OF _ inspect_read_same])
      (use c assms(1,2) s in \<open>simp add: readInputChannels_def p Let_def comp_def\<close>)
qed

text \<open>What a region of \<open>frames\<close> whole frames holds.\<close>

lemma full_region:
  assumes ok: "capture_ok d" "capturing d" and n: "0 < frames" "frames \<le> INT_MAX"
    and av: "frames \<le> captureAvailableFrames d" and p: "prepareCaptureRead frames d = (reg, d1)"
  defines "first \<equiv> take (unat (rr_firstBytes reg)) (drop (rr_first reg) (store (captureRing d1)))"
    and "second \<equiv> take (unat (rr_secondBytes reg)) (store (captureRing d1))"
  shows "rr_frames reg = frames" "first @ second = take (nat frames * captureBytes d) (capture_window d)"
    and "length (first @ second) = nat frames * nat (strideOf (captureFormat d))"
    and "rr_frameStride reg = strideOf (captureFormat d)" "captureFormat d1 = captureFormat d"
    and "capture_ok (commitCaptureRead reg d1)"
    and "ring_contents (captureRing (commitCaptureRead reg d1)) = drop (nat frames * captureBytes d) (capture_window d)"
proof -
  have rd: "readCapturePcm False frames d = ((rr_frames reg, region_bytes reg d1), commitCaptureRead reg d1)"
    using n by (simp add: readCapturePcm_def p)
  note s = readCapturePcm_step [OF ok n rd]
  note P = prepareCaptureRead_region [OF ok n p]
  have gn: "granted_frames d frames = nat frames"
    using av n(1) unfolding captureAvailableFrames_eq [OF ok] granted_frames_def by linarith
  show "rr_frames reg = frames" using s(1) gn n(1) by simp
  show bytes: "first @ second = take (nat frames * captureBytes d) (capture_window d)"
    using s(2) unfolding gn by (simp add: region_bytes_def span_read_def first_def second_def)
  show "length (first @ second) = nat frames * nat (strideOf (captureFormat d))"
    using granted_fits [OF ok(1), of frames] ring_get_len [OF skipped_le [OF ok(1)]] unfolding bytes gn
    by (simp add: capture_window_def captureBytes_def ring_contents_def min_absorb2)
  show "rr_frameStride reg = strideOf (captureFormat d)" by (simp add: P(1))
  show "captureFormat d1 = captureFormat d" by (simp add: P(2))
  show "capture_ok (commitCaptureRead reg d1)" by (rule s(3))
  show "ring_contents (captureRing (commitCaptureRead reg d1)) = drop (nat frames * captureBytes d) (capture_window d)"
    using s(4) n(1) unfolding gn by simp
qed

text \<open>C30. Capture is handed to the graph in whole quanta: a read either fills every destination plane
  with the oldest frames of the newest window (decoded channels from the interleaved bytes, channels
  the format does not carry with silence), or reports 0, leaves the planes alone and counts one
  partial read (two places of the documentation speak of zero-filling the missing frames; the code does not).  A frame is never padded and never mixed with a neighbour's.\<close>
theorem readInputChannels_whole_or_nothing:
  assumes ok: "capture_ok (ad_driver a)" "capturing (ad_driver a)" and f: "capture_format_ok (captureFormat (ad_driver a))"
    and ps: "planes \<noteq> []" and n: "0 < frames" "frames \<le> 1024"
    and r: "readInputChannels e (map Some planes) frames a = ((got, out), a')"
  shows "if frames \<le> captureAvailableFrames (ad_driver a)
    then got = frames \<and> length out = length planes \<and> capture_ok (ad_driver a') \<and>
      (\<forall>c<length planes. out ! c =
        (if int c < channels (captureFormat (ad_driver a))
         then decoded_channel (captureFormat (ad_driver a)) (nat frames)
                (take (nat frames * captureBytes (ad_driver a)) (capture_window (ad_driver a))) c
         else replicate (nat frames) 0) @ drop (nat frames) (planes ! c)) \<and>
      ring_contents (captureRing (ad_driver a')) =
        drop (nat frames * captureBytes (ad_driver a)) (capture_window (ad_driver a))
    else got = 0 \<and> out = planes \<and> capturePartialReads a' = capturePartialReads a + 1 \<and> capture_ok (ad_driver a')"
proof -
  define d where "d = ad_driver a"
  have okd: "capture_ok d" "capturing d" and fm: "frames \<le> INT_MAX" using ok n by (simp_all add: d_def)
  obtain reg d1 where p: "prepareCaptureRead frames d = (reg, d1)" by fastforce
  show ?thesis
  proof (cases "frames \<le> captureAvailableFrames d")
    case False
    have rd: "readCapturePcm False frames d = ((rr_frames reg, region_bytes reg d1), commitCaptureRead reg d1)"
      using n by (simp add: readCapturePcm_def p)
    note s = readCapturePcm_step [OF okd n(1) fm rd]
    have "rr_frames reg < frames"
      using False s(1) n(1) by (simp add: captureAvailableFrames_eq [OF okd] granted_frames_def min_def split: if_splits)
    then have "((got, out), a') = ((0, planes), a\<lparr>ad_driver := commitCaptureRead reg d1,
        capturePartialReads := capturePartialReads a + 1\<rparr>)"
      using readInputChannels_short [OF ps n p [unfolded d_def]] r by metis
    then show ?thesis using False s(3) by (simp add: d_def)
  next
    case True
    note s = full_region [OF okd n(1) fm True p]
    have ch: "0 < channels (captureFormat d1)" using f s(5) by (simp add: capture_format_ok_def d_def)
    obtain a2 where a2: "((got, out), a') = ((frames,
        read_planes (take (unat (rr_firstBytes reg)) (drop (rr_first reg) (store (captureRing d1))))
          (take (unat (rr_secondBytes reg)) (store (captureRing d1))) reg (captureFormat d1)
          (min (int (length planes)) (channels (captureFormat d1))) (nat frames) planes), a2)"
      "same_audio a2 (a\<lparr>ad_driver := commitCaptureRead reg d1\<rparr>)"
      using readInputChannels_full [OF ps n ch p [unfolded d_def] s(1)] r by metis
    have plane: "out ! c = (if int c < channels (captureFormat d)
         then decoded_channel (captureFormat d) (nat frames) (take (nat frames * captureBytes d) (capture_window d)) c
         else replicate (nat frames) 0) @ drop (nat frames) (planes ! c)" if "c < length planes" for c
      using that a2(1) decode_plane_run [OF f [folded d_def] _ s(4,3), of c "planes ! c"] s(2,5)
      by (auto simp: read_planes_def nth_enumerate_eq)
    show ?thesis
      using True a2 plane s(6,7)
      by (auto simp: read_planes_def d_def [symmetric] same_audio_def capture_ok_def captureBytes_def)
  qed
qed

theorem readInputChannels_whole_or_nothing_witness:
  "\<exists>out. fst (readInputChannels demo_env [Some [7, 7, 7], Some [9, 9, 9, 9]] 3 (demo_adapter\<lparr>ad_driver := demo_capture\<rparr>)) = (3, out) \<and>
     out ! 0 = decoded_channel (captureFormat demo_capture) 3 [5, 6, 7, 8, 9, 10] 0 \<and> out ! 1 = [0, 0, 0, 9]"
proof -
  let ?a = "demo_adapter\<lparr>ad_driver := demo_capture\<rparr>"
  obtain got out a' where r: "readInputChannels demo_env (map Some [[7, 7, 7], [9, 9, 9, 9]]) 3 ?a = ((got, out), a')"
    by (metis prod.collapse)
  have av: "captureAvailableFrames demo_capture = 4"
    using demo_capture_ok by (simp add: captureAvailableFrames_eq skipped_frames_def)
  have w: "capture_window demo_capture = [5,6,7,8,9,10,11,12]"
    by (simp add: capture_window_def skipped_frames_def demo_capture_ok)
  have f: "capture_format_ok (captureFormat demo_capture)" "channels (captureFormat demo_capture) = 1"
    by (simp_all add: capture_format_ok_def demo_capture_def valid_bytes_def defaultStreamFormat_def)
  have three: "replicate 3 (0::rat) = [0, 0, 0]" by (simp add: numeral_3_eq_3)
  show ?thesis
    using readInputChannels_whole_or_nothing [OF _ _ _ _ _ _ r] r demo_capture_ok(1,2) f
    by (auto simp: av w demo_capture_ok three)
qed

end
