(* ===== verification/Descriptors.thy ===== *)
theory Descriptors
  imports Driver_State
begin

text \<open>
  Descriptor parsing of \<^verbatim>\<open>src/libusb_uac_driver.cpp\<close>: the walk over class-specific descriptors,
  the format enumeration, the capture channel count and the fixed format of the Line 6 profile.

  What a device reports is a parameter, \<open>usb_device\<close>: the configuration descriptors libusb
  returns (\<open>None\<close> when the call fails), the speed, the identity, the isochronous packet size libusb
  computes for an endpoint, and the texts of \<open>libusb_strerror\<close> and \<open>strerror(errno)\<close>.  A pointer into an \<open>extra\<close>
  blob is the suffix of the blob that starts there, so an index reads exactly the byte the code reads.
\<close>

section \<open>What libusb reports of a device\<close>

record endpoint_desc =
  bEndpointAddress :: u8
  bmAttributes :: u8
  wMaxPacketSize :: u16
  ep_bInterval :: u8
  bSynchAddress :: u8

record alt_desc =
  bInterfaceNumber :: u8
  bAlternateSetting :: u8
  bInterfaceClass :: u8
  bInterfaceSubClass :: u8
  endpoints :: "endpoint_desc list"
  extra :: bytes

type_synonym config = "alt_desc list list"

record usb_device =
  activeConfig :: "config option"
  config0 :: "config option"
  speedHigh :: bool
  deviceIds :: "(u16 \<times> u16) option"
  maxIsoPacketSize :: "u8 \<Rightarrow> int"
  libusb_strerror :: "int \<Rightarrow> string"
  errnoText :: string

text \<open>The active configuration, or else the first one.\<close>

definition getConfig :: "usb_device \<Rightarrow> config option" where
  "getConfig u = (case activeConfig u of Some c \<Rightarrow> Some c | None \<Rightarrow> config0 u)"

abbreviation (input) USB_CLASS_AUDIO :: u8 where "USB_CLASS_AUDIO \<equiv> 0x01"
abbreviation (input) SUBCLASS_AUDIOCONTROL :: u8 where "SUBCLASS_AUDIOCONTROL \<equiv> 0x01"
abbreviation (input) SUBCLASS_AUDIOSTREAM :: u8 where "SUBCLASS_AUDIOSTREAM \<equiv> 0x02"
abbreviation (input) CS_INTERFACE :: u8 where "CS_INTERFACE \<equiv> 0x24"
abbreviation (input) AC_HEADER :: u8 where "AC_HEADER \<equiv> 0x01"
abbreviation (input) AC_INPUT_TERMINAL :: u8 where "AC_INPUT_TERMINAL \<equiv> 0x02"
abbreviation (input) AC_OUTPUT_TERMINAL :: u8 where "AC_OUTPUT_TERMINAL \<equiv> 0x03"
abbreviation (input) AC_CLOCK_SOURCE :: u8 where "AC_CLOCK_SOURCE \<equiv> 0x0A"
abbreviation (input) AC_CLOCK_SELECTOR :: u8 where "AC_CLOCK_SELECTOR \<equiv> 0x0B"
abbreviation (input) AC_CLOCK_MULTIPLIER :: u8 where "AC_CLOCK_MULTIPLIER \<equiv> 0x0C"
abbreviation (input) AS_GENERAL :: u8 where "AS_GENERAL \<equiv> 0x01"
abbreviation (input) AS_FORMAT_TYPE :: u8 where "AS_FORMAT_TYPE \<equiv> 0x02"
abbreviation (input) FORMAT_TYPE_I :: u8 where "FORMAT_TYPE_I \<equiv> 0x01"

text \<open>An isochronous endpoint, its direction and its usage bits.\<close>

definition is_iso :: "endpoint_desc \<Rightarrow> bool" where
  "is_iso ep \<longleftrightarrow> bmAttributes ep AND 3 = 1"

definition is_in :: "endpoint_desc \<Rightarrow> bool" where
  "is_in ep \<longleftrightarrow> bEndpointAddress ep AND 0x80 \<noteq> 0"

definition ep_usage :: "endpoint_desc \<Rightarrow> u8" where
  "ep_usage ep = drop_bit 4 (bmAttributes ep) AND 3"

section \<open>Walking class-specific descriptors\<close>

definition isClassDescriptor :: "bytes \<Rightarrow> nat \<Rightarrow> u8 \<Rightarrow> u8 \<Rightarrow> bool" where
  "isClassDescriptor p remaining descType subtype =
     (if remaining < 3 then False else p ! 1 = descType \<and> p ! 2 = subtype)"

function walkExtra :: "(bytes \<Rightarrow> nat \<Rightarrow> 's \<Rightarrow> bool \<times> 's) \<Rightarrow> bytes \<Rightarrow> 's \<Rightarrow> 's" where
  "walkExtra cb ext s =
     (if length ext < 2 then s
      else let len = unat (ext ! 0) in
        if len < 2 \<or> len > length ext then s
        else (case cb ext len s of (stop, s1) \<Rightarrow>
                if stop then s1 else walkExtra cb (drop len ext) s1))"
  by pat_completeness auto
termination
  by (relation "measure (\<lambda>(cb, ext, s). length ext)") auto

declare walkExtra.simps [simp del]

section \<open>Format enumeration\<close>

text \<open>First pass: the control interface, the class version and the clock sources.\<close>

record enum_control =
  ec_uacVersion :: u16
  ec_controlIface :: u8
  ec_clocks :: "u8 list"

definition enum_control_visit :: "bytes \<Rightarrow> nat \<Rightarrow> enum_control \<Rightarrow> bool \<times> enum_control" where
  "enum_control_visit p len s =
     (False,
      if isClassDescriptor p len CS_INTERFACE AC_HEADER \<and> len \<ge> 5
      then s\<lparr>ec_uacVersion := le16 (p ! 3) (p ! 4)\<rparr>
      else if isClassDescriptor p len CS_INTERFACE AC_CLOCK_SOURCE \<and> len \<ge> 4
      then s\<lparr>ec_clocks := ec_clocks s @ [p ! 3]\<rparr>
      else s)"

definition enum_control_alt :: "alt_desc \<Rightarrow> enum_control \<Rightarrow> enum_control" where
  "enum_control_alt alt s =
     (if bInterfaceClass alt = USB_CLASS_AUDIO \<and> bInterfaceSubClass alt = SUBCLASS_AUDIOCONTROL
      then walkExtra enum_control_visit (extra alt) (s\<lparr>ec_controlIface := bInterfaceNumber alt\<rparr>)
      else s)"

definition enum_control_scan :: "config \<Rightarrow> enum_control" where
  "enum_control_scan c =
     fold (fold enum_control_alt) c \<lparr>ec_uacVersion = 0x0200, ec_controlIface = 0xFF, ec_clocks = []\<rparr>"

text \<open>The \<open>add\<close> lambda: implausible and duplicate candidates are dropped.\<close>

definition addFormat :: "int \<Rightarrow> int \<Rightarrow> int \<Rightarrow> int \<Rightarrow> UsbFormatCandidate list \<Rightarrow> UsbFormatCandidate list" where
  "addFormat rate bits bytes chans result =
     (let f = \<lparr>fc_sampleRateHz = rate, fc_bitsPerSample = bits, fc_bytesPerSample = bytes, fc_channels = chans\<rparr>
      in if rate \<le> 0 \<or> (bits \<noteq> 16 \<and> bits \<noteq> 24 \<and> bits \<noteq> 32) \<or> (bytes \<noteq> 2 \<and> bytes \<noteq> 3 \<and> bytes \<noteq> 4) \<or> chans < 2
         then result
         else if f \<in> set result then result else result @ [f])"

text \<open>Second pass: what one alternate setting declares.  \<open>ea_fmt\<close> is the last type I format
  descriptor, as the code's pointer and length.\<close>

record enum_alt =
  ea_channels :: int
  ea_bits :: int
  ea_bytes :: int
  ea_fmt :: "(bytes \<times> nat) option"

definition enum_alt_visit :: "u16 \<Rightarrow> bytes \<Rightarrow> nat \<Rightarrow> enum_alt \<Rightarrow> bool \<times> enum_alt" where
  "enum_alt_visit version p len s =
     (let s1 = (if isClassDescriptor p len CS_INTERFACE AS_GENERAL \<and> version \<ge> 0x0200 \<and> len \<ge> 16
                then s\<lparr>ea_channels := uint (p ! 10)\<rparr> else s);
          s2 = (if isClassDescriptor p len CS_INTERFACE AS_FORMAT_TYPE \<and> len \<ge> 6 \<and> p ! 3 = FORMAT_TYPE_I
                then let t = s1\<lparr>ea_fmt := Some (p, len)\<rparr> in
                  if version \<ge> 0x0200 then t\<lparr>ea_bytes := uint (p ! 4), ea_bits := uint (p ! 5)\<rparr>
                  else if len \<ge> 8
                  then t\<lparr>ea_channels := uint (p ! 4), ea_bytes := uint (p ! 5), ea_bits := uint (p ! 6)\<rparr>
                  else t
                else s1)
      in (False, s2))"

definition enum_alt_parse :: "u16 \<Rightarrow> alt_desc \<Rightarrow> enum_alt" where
  "enum_alt_parse version alt =
     walkExtra (enum_alt_visit version) (extra alt) \<lparr>ea_channels = 0, ea_bits = 0, ea_bytes = 0, ea_fmt = None\<rparr>"

definition alt_usable :: "enum_alt \<Rightarrow> bool" where
  "alt_usable s \<longleftrightarrow> ea_fmt s \<noteq> None \<and> ea_channels s \<ge> 2 \<and> (ea_bits s = 16 \<or> ea_bits s = 24 \<or> ea_bits s = 32) \<and>
     ea_bytes s \<ge> (ea_bits s + 7) div 8 \<and> ea_bytes s \<le> 4"

definition has_out_data :: "alt_desc \<Rightarrow> bool" where
  "has_out_data alt \<longleftrightarrow> (\<exists>ep\<in>set (endpoints alt). is_iso ep \<and> \<not> is_in ep \<and> ep_usage ep = 0)"

definition rd24 :: "bytes \<Rightarrow> nat \<Rightarrow> int" where
  "rd24 p off = uint (le24 (p ! off) (p ! (off + 1)) (p ! (off + 2)))"

text \<open>The sample-frequency table of a UAC1 format descriptor.\<close>

definition uac1_rates :: "bytes \<Rightarrow> nat \<Rightarrow> int list" where
  "uac1_rates p fmtLen =
     (let kind = unat (p ! 7) in
      if kind = 0 \<and> fmtLen \<ge> 14
      then let lo = rd24 p 8; hi = rd24 p 11 in if hi \<noteq> lo then [lo, hi] else [lo]
      else map (\<lambda>k. rd24 p (8 + 3 * k)) (takeWhile (\<lambda>k. 8 + 3 * k + 3 \<le> fmtLen) [0..<kind]))"

type_synonym depth = "int \<times> int \<times> int"

definition is_streaming_alt :: "alt_desc \<Rightarrow> bool" where
  "is_streaming_alt alt \<longleftrightarrow> bInterfaceClass alt = USB_CLASS_AUDIO \<and>
     bInterfaceSubClass alt = SUBCLASS_AUDIOSTREAM \<and> bAlternateSetting alt \<noteq> 0"

definition enum_stream_alt ::
  "u16 \<Rightarrow> alt_desc \<Rightarrow> depth list \<times> UsbFormatCandidate list \<Rightarrow> depth list \<times> UsbFormatCandidate list" where
  "enum_stream_alt version alt acc =
     (case acc of (depths, result) \<Rightarrow>
        if \<not> is_streaming_alt alt then (depths, result)
        else
          let s = enum_alt_parse version alt in
          if \<not> alt_usable s \<or> \<not> has_out_data alt then (depths, result)
          else if version \<ge> 0x0200
          then (depths @ [(ea_bits s, ea_bytes s, ea_channels s)], result)
          else (depths, (case ea_fmt s of None \<Rightarrow> result | Some (p, len) \<Rightarrow>
                  fold (\<lambda>rate. addFormat rate (ea_bits s) (ea_bytes s) (ea_channels s)) (uac1_rates p len) result)))"

text \<open>A GET\_RANGE reply: \<open>wNumSubRanges\<close> triples of 32-bit values, as many as were received.\<close>

definition le32_at :: "bytes \<Rightarrow> nat \<Rightarrow> u32" where
  "le32_at p off = le32 (p ! off) (p ! (off + 1)) (p ! (off + 2)) (p ! (off + 3))"

definition range_triples :: "bytes \<Rightarrow> int \<Rightarrow> (u32 \<times> u32 \<times> u32) list" where
  "range_triples rng nbytes =
     (let n = unat (le16 (rng ! 0) (rng ! 1))
      in map (\<lambda>k. (le32_at rng (2 + 12 * k), le32_at rng (2 + 12 * k + 4), le32_at rng (2 + 12 * k + 8)))
           (takeWhile (\<lambda>k. int (2 + 12 * (k + 1)) \<le> nbytes) [0..<n]))"

text \<open>A control transfer: the return code, the bytes received, and the call on the bus.\<close>

definition control :: "env \<Rightarrow> u8 \<Rightarrow> u8 \<Rightarrow> u16 \<Rightarrow> u16 \<Rightarrow> bytes \<Rightarrow> u16 \<Rightarrow> driver \<Rightarrow> (int \<times> bytes) \<times> driver" where
  "control e reqType request val index out len d =
     (let call = Control reqType request val index out len
      in case usb e call d of (rc, d1) \<Rightarrow> ((rc, usb_data e (bus d) call), d1))"

definition entity_index :: "u8 \<Rightarrow> u8 \<Rightarrow> u16" where
  "entity_index eid iface = push_bit 8 (ucast eid) OR ucast iface"

definition get_range :: "env \<Rightarrow> u8 \<Rightarrow> u8 \<Rightarrow> driver \<Rightarrow> (int \<times> bytes) \<times> driver" where
  "get_range e eid iface d = control e 0xA1 0x02 0x0100 (entity_index eid iface) [] 256 d"

section \<open>The rates of one clock range\<close>

text \<open>Why the loop over \<open>lo, lo + step, \<dots>\<close> ends: with 32-bit wrap-around the offsets from \<open>lo\<close>
  run through a coset of the multiples of \<open>step\<close>, and one of them exceeds \<open>256 * step\<close>.\<close>

lemma unat_neg32:
  fixes x :: u32
  assumes "x \<noteq> 0"
  shows "unat (- x) + unat x = 2 ^ 32"
proof -
  have "unat x < 2 ^ 32" "0 < unat x"
    using assms unsigned_less [of x, where ?'a = nat] by (simp_all add: unat_gt_0)
  then show ?thesis using unat_sub_if_size [of 0 x] by (simp add: word_size)
qed

lemma multiples_exceed:
  fixes step :: u32
  assumes "step \<noteq> 0"
  shows "\<exists>w. \<not> w * step \<le> 256 * step"
proof (rule ccontr)
  assume "\<not> ?thesis"
  then have le: "w * step \<le> 256 * step" for w by blast
  define g where "g = - (256 * step)"
  have g0: "256 * step \<noteq> 0"
  proof
    assume "256 * step = 0"
    then show False using le [of 1] assms by simp
  qed
  then have gpos: "0 < unat g" by (simp add: g_def unat_gt_0)
  have min: "unat g \<le> unat (w * step)" if "w * step \<noteq> 0" for w
  proof -
    have "unat (- (w * step)) \<le> unat (- g)" using le [of "- w"] by (simp add: g_def word_le_nat_alt)
    then show ?thesis
      using unat_neg32 [of "w * step"] unat_neg32 [of g] that g0 by (simp add: g_def)
  qed
  define q where "q = unat step div unat g"
  have mg: "of_nat (unat step mod unat g) = step - of_nat q * g"
  proof -
    have "step = of_nat (q * unat g + unat step mod unat g)"
      by (simp only: q_def div_mult_mod_eq) simp
    then show ?thesis by (simp add: algebra_simps)
  qed
  also have "\<dots> = (1 + 256 * of_nat q) * step" by (simp add: g_def algebra_simps)
  finally have eq: "of_nat (unat step mod unat g) = (1 + 256 * of_nat q) * step" .
  have small: "unat step mod unat g < unat g" using gpos by simp
  then have u: "unat (of_nat (unat step mod unat g) :: u32) = unat step mod unat g"
    using unsigned_less [of g, where ?'a = nat] by (simp add: unat_of_nat take_bit_nat_eq_self)
  have "(1 + 256 * of_nat q) * step = 0" using min [of "1 + 256 * of_nat q"] u small eq by fastforce
  then have "of_nat ((1 + 256 * q) * unat step) = (0 :: u32)" by (simp add: algebra_simps)
  then have "2 ^ 32 dvd (1 + 256 * q) * unat step" by (simp only: word_of_nat_eq_0_iff len_num1 len_bit0 mult_1_right) simp
  moreover have "coprime (2 ^ 32) (1 + 256 * q)"
    unfolding coprime_power_left_iff by simp
  ultimately have "2 ^ 32 dvd unat step" by (simp only: coprime_dvd_mult_right_iff)
  then have "unat step = 0" using unsigned_less [of step, where ?'a = nat] by (auto dest: dvd_imp_le)
  then show False using assms by (simp add: unat_eq_zero)
qed

lemma coset_exceeds:
  fixes step :: u32
  assumes "step \<noteq> 0"
  shows "\<exists>k. \<not> x + of_nat k * step \<le> 256 * step"
proof (rule ccontr)
  assume "\<not> ?thesis"
  then have le: "x + of_nat k * step \<le> 256 * step" for k by blast
  define S where "S = range (\<lambda>w :: u32. x + w * step)"
  have S: "v \<le> 256 * step" if v: "v \<in> S" for v
  proof -
    obtain w where "v = x + w * step" using v unfolding S_def by blast
    then show ?thesis using le [of "unat w"] by simp
  qed
  define y where "y = Max S"
  have y: "y \<in> S" "\<And>v. v \<in> S \<Longrightarrow> v \<le> y"
    unfolding y_def by (rule Max_in, simp_all add: S_def)
  obtain k where k: "y = x + k * step" using y(1) unfolding S_def by blast
  have z: "y - 256 * step \<in> S"
    unfolding S_def k by (rule range_eqI [of _ _ "k - 256"]) (simp add: algebra_simps)
  have "y = 256 * step"
  proof (rule ccontr)
    assume "y \<noteq> 256 * step"
    then have lt: "unat y < unat (256 * step)" using S [OF y(1)] unfolding word_less_nat_alt [symmetric] by simp
    have "unat (y - 256 * step) = unat y + 2 ^ 32 - unat (256 * step)"
      using unat_sub_if_size [of y "256 * step"] lt by (simp add: word_size)
    moreover have "unat (y - 256 * step) \<le> unat y" using y(2) [OF z] by (simp add: word_le_nat_alt)
    ultimately show False using unsigned_less [of "256 * step", where ?'a = nat] by simp
  qed
  then have "x = (256 - k) * step" using k by (simp add: algebra_simps)
  then have "w * step \<in> S" for w
    unfolding S_def by (intro range_eqI [of _ _ "w + k - 256"]) (simp add: algebra_simps)
  then show False using multiples_exceed [OF assms] S by blast
qed

text \<open>The \<open>for\<close> loop over one range, from \<open>r\<close> on; a range without a step yields its lower end only.\<close>

function rate_values :: "u32 \<Rightarrow> u32 \<Rightarrow> u32 \<Rightarrow> u32 \<Rightarrow> u32 list" where
  "rate_values lo hi step r =
     (if r \<le> hi \<and> r - lo \<le> 256 * (if step \<noteq> 0 then step else 1)
      then r # (if step = 0 \<or> r = hi then [] else rate_values lo hi step (r + step))
      else [])"
  by pat_completeness auto
termination
proof (relation "measure (\<lambda>(lo, hi, step, r). LEAST k. \<not> (r - lo) + of_nat k * step \<le> 256 * step)", goal_cases)
  case (2 lo hi step r)
  let ?P = "\<lambda>r k. \<not> (r - lo) + of_nat k * step \<le> 256 * step"
  have s0: "step \<noteq> 0" and 0: "\<not> ?P r 0" using 2 by auto
  have "?P r (LEAST k. ?P r k)" using coset_exceeds [OF s0] by (rule LeastI_ex)
  then obtain j where j: "(LEAST k. ?P r k) = Suc j" using 0 by (metis old.nat.exhaust)
  have "?P (r + step) j" using \<open>?P r (LEAST k. ?P r k)\<close> unfolding j by (simp add: algebra_simps)
  then have "(LEAST k. ?P (r + step) k) \<le> j" by (rule Least_le)
  then show ?case using j by simp
qed simp

declare rate_values.simps [simp del]

section \<open>The candidate list\<close>

definition add_depths :: "depth list \<Rightarrow> u32 \<Rightarrow> UsbFormatCandidate list \<Rightarrow> UsbFormatCandidate list" where
  "add_depths depths r = fold (\<lambda>(bits, bytes, chans). addFormat (sint r) bits bytes chans) depths"

fun enum_clocks ::
  "env \<Rightarrow> u8 \<Rightarrow> depth list \<Rightarrow> u8 list \<Rightarrow> UsbFormatCandidate list \<Rightarrow> driver \<Rightarrow> UsbFormatCandidate list \<times> driver" where
  "enum_clocks e iface depths [] result d = (result, d)"
| "enum_clocks e iface depths (eid # ids) result d =
     (case get_range e eid iface d of ((nbytes, rng), d1) \<Rightarrow>
        enum_clocks e iface depths ids
          (if nbytes < 2 then result
           else fold (\<lambda>(lo, hi, step). fold (add_depths depths) (rate_values lo hi step lo))
                  (range_triples rng nbytes) result) d1)"

definition kCommonRates :: "u32 list" where
  "kCommonRates = [44100, 48000, 88200, 96000, 176400, 192000]"

definition enumerateFormats :: "env \<Rightarrow> usb_device \<Rightarrow> driver \<Rightarrow> UsbFormatCandidate list \<times> driver" where
  "enumerateFormats e u d =
     (if device (ses d) = None then ([], d)
      else if line6Profile (ses d)
      then ([\<lparr>fc_sampleRateHz = 44100, fc_bitsPerSample = 16, fc_bytesPerSample = 2, fc_channels = 2\<rparr>], d)
      else (case getConfig u of None \<Rightarrow> ([], d)
        | Some c \<Rightarrow>
            let ctl = enum_control_scan c;
                version = ec_uacVersion ctl;
                (depths, result) = fold (fold (enum_stream_alt version)) c ([], []);
                (result1, d1) = (if version \<ge> 0x0200 \<and> ec_controlIface ctl \<noteq> 0xFF
                   then enum_clocks e (ec_controlIface ctl) depths (ec_clocks ctl) result d
                   else (result, d))
            in (if version \<ge> 0x0200 \<and> result1 = [] \<and> depths \<noteq> []
                then fold (add_depths depths) kCommonRates result1 else result1, d1)))"

section \<open>Capture channel count\<close>

record capture_alt =
  ca_channels :: int
  ca_pcm :: bool
  ca_hasUac2General :: bool

definition capture_alt_visit :: "bytes \<Rightarrow> nat \<Rightarrow> capture_alt \<Rightarrow> bool \<times> capture_alt" where
  "capture_alt_visit p len s =
     (let s1 = (if isClassDescriptor p len CS_INTERFACE AS_GENERAL \<and> len \<ge> 11
                then s\<lparr>ca_channels := uint (p ! 10), ca_hasUac2General := True\<rparr> else s);
          s2 = (if isClassDescriptor p len CS_INTERFACE AS_FORMAT_TYPE \<and> len \<ge> 6 \<and> p ! 3 = FORMAT_TYPE_I
                then let t = s1\<lparr>ca_pcm := True\<rparr> in
                  if \<not> ca_hasUac2General t \<and> len \<ge> 7 \<and> p ! 4 > 0 then t\<lparr>ca_channels := uint (p ! 4)\<rparr> else t
                else s1)
      in (False, s2))"

definition capture_alt_channels :: "alt_desc \<Rightarrow> int \<Rightarrow> int" where
  "capture_alt_channels alt maximum =
     (if \<not> is_streaming_alt alt then maximum
      else
        let s = walkExtra capture_alt_visit (extra alt) \<lparr>ca_channels = 0, ca_pcm = False, ca_hasUac2General = False\<rparr>;
            input = (\<exists>ep\<in>set (endpoints alt). is_iso ep \<and> is_in ep)
        in if input \<and> ca_pcm s \<and> ca_channels s > maximum then ca_channels s else maximum)"

definition captureChannelCount :: "usb_device \<Rightarrow> driver \<Rightarrow> int" where
  "captureChannelCount u d =
     (if device (ses d) = None then 0
      else if line6Profile (ses d) then 2
      else (case getConfig u of None \<Rightarrow> 0 | Some c \<Rightarrow> fold (fold capture_alt_channels) c 0))"

section \<open>The Line 6 format\<close>

text \<open>The endpoint scan keeps the last match, the scan of an interface the last complete alternate
  setting, and the scan of the interfaces stops after the first interface that has one.\<close>

definition line6_endpoint :: "u8 \<Rightarrow> alt_desc \<Rightarrow> endpoint_desc option" where
  "line6_endpoint address alt =
     fold (\<lambda>ep found. if is_iso ep \<and> bEndpointAddress ep = address then Some ep else found) (endpoints alt) None"

definition line6_alt ::
  "alt_desc \<Rightarrow> (alt_desc \<times> endpoint_desc \<times> endpoint_desc) option \<Rightarrow> (alt_desc \<times> endpoint_desc \<times> endpoint_desc) option" where
  "line6_alt alt chosen =
     (if bAlternateSetting alt \<noteq> 2 then chosen
      else (case (line6_endpoint 0x01 alt, line6_endpoint 0x82 alt) of
              (Some o_ep, Some i_ep) \<Rightarrow> Some (alt, o_ep, i_ep) | _ \<Rightarrow> chosen))"

fun line6_choose :: "config \<Rightarrow> (alt_desc \<times> endpoint_desc \<times> endpoint_desc) option" where
  "line6_choose [] = None"
| "line6_choose (iface # rest) =
     (case fold line6_alt iface None of Some x \<Rightarrow> Some x | None \<Rightarrow> line6_choose rest)"

definition line6_format :: "alt_desc \<Rightarrow> endpoint_desc \<Rightarrow> u8 \<Rightarrow> bool \<Rightarrow> StreamFormat" where
  "line6_format alt ep address hs =
     defaultStreamFormat\<lparr>sampleRateHz := 44100, bitsPerSample := 16, bytesPerSample := 2, channels := 2,
       interfaceNumber := bInterfaceNumber alt, altSetting := bAlternateSetting alt,
       maxPacketSize := wMaxPacketSize ep AND 0x07ff, endpointAddress := address,
       bInterval := ep_bInterval ep, isHighSpeed := hs, uacVersion := 0x0100\<rparr>"

definition line6SelectFormat :: "usb_device \<Rightarrow> driver \<Rightarrow> (StreamFormat \<times> StreamFormat) option" where
  "line6SelectFormat u d =
     (if device (ses d) = None then None
      else (case getConfig u of None \<Rightarrow> None
        | Some c \<Rightarrow> (case line6_choose c of None \<Rightarrow> None
            | Some (alt, outEp, inEp) \<Rightarrow>
                Some (line6_format alt outEp 0x01 (speedHigh u),
                      (line6_format alt inEp 0x82 (speedHigh u))\<lparr>implicitFeedback := True\<rparr>))))"

section \<open>Lemmas: the walk\<close>

text \<open>Invariants of a walk, whatever the blob contains.\<close>

lemma walkExtra_inv:
  assumes "P s" "\<And>p len s. P s \<Longrightarrow> P (snd (cb p len s))"
  shows "P (walkExtra cb ext s)"
proof -
  have "(\<forall>p len s. P s \<longrightarrow> P (snd (cb p len s))) \<longrightarrow> P s \<longrightarrow> P (walkExtra cb ext s)"
  proof (induction cb ext s rule: walkExtra.induct)
    case (1 cb ext s)
    obtain stop s1 where s1: "cb ext (unat (ext ! 0)) s = (stop, s1)" by fastforce
    have "P s1" if "\<forall>p len s. P s \<longrightarrow> P (snd (cb p len s))" "P s"
      using that s1 by (metis snd_conv)
    then show ?case using "1.IH" [OF _ refl _ s1 [symmetric]] by (subst walkExtra.simps) (auto simp: Let_def s1)
  qed
  then show ?thesis using assms by blast
qed

definition wf_desc :: "bytes \<Rightarrow> bool" where
  "wf_desc p \<longleftrightarrow> 2 \<le> length p \<and> unat (p ! 0) = length p"

text \<open>A tail the walk stops at: too short to hold a header, or with an impossible length.\<close>

definition walk_end :: "bytes \<Rightarrow> bool" where
  "walk_end ext \<longleftrightarrow> length ext < 2 \<or> unat (ext ! 0) < 2 \<or> length ext < unat (ext ! 0)"

lemma walkExtra_end: "walk_end ext \<Longrightarrow> walkExtra cb ext s = s"
  by (subst walkExtra.simps) (auto simp: walk_end_def Let_def)

lemma walkExtra_step:
  assumes "wf_desc p"
  shows "walkExtra cb (p @ rest) s =
    (case cb (p @ rest) (length p) s of (stop, s1) \<Rightarrow> if stop then s1 else walkExtra cb rest s1)"
proof -
  have "unat ((p @ rest) ! 0) = length p" "2 \<le> length p" using assms by (auto simp: wf_desc_def nth_append)
  moreover have "drop (length p) (p @ rest) = rest" by simp
  ultimately show ?thesis by (subst walkExtra.simps) (simp add: Let_def split: prod.split del: drop_append)
qed

lemma walkExtra_concat:
  assumes "\<forall>p\<in>set ds. wf_desc p"
  shows "walkExtra (\<lambda>p len s. (False, s @ [take len p])) (concat ds @ rest) s =
    walkExtra (\<lambda>p len s. (False, s @ [take len p])) rest (s @ ds)"
  using assms by (induction ds arbitrary: s) (simp_all add: walkExtra_step)

section \<open>Lemmas: candidates\<close>

definition valid_candidate :: "UsbFormatCandidate \<Rightarrow> bool" where
  "valid_candidate f \<longleftrightarrow> 0 < fc_sampleRateHz f \<and>
     (fc_bitsPerSample f = 16 \<or> fc_bitsPerSample f = 24 \<or> fc_bitsPerSample f = 32) \<and>
     (fc_bitsPerSample f + 7) div 8 \<le> fc_bytesPerSample f \<and> fc_bytesPerSample f \<le> 4 \<and>
     2 \<le> fc_channels f \<and> fc_channels f \<le> 255"

definition candidates_ok :: "UsbFormatCandidate list \<Rightarrow> bool" where
  "candidates_ok fs \<longleftrightarrow> distinct fs \<and> (\<forall>f\<in>set fs. valid_candidate f)"

definition depth_ok :: "depth \<Rightarrow> bool" where
  "depth_ok x \<longleftrightarrow> (case x of (bits, bytes, chans) \<Rightarrow> (bits + 7) div 8 \<le> bytes \<and> bytes \<le> 4 \<and> chans \<le> 255)"

lemma addFormat_ok:
  "candidates_ok fs \<Longrightarrow> depth_ok (bits, bytes, chans) \<Longrightarrow> candidates_ok (addFormat rate bits bytes chans fs)"
  by (auto simp: addFormat_def candidates_ok_def valid_candidate_def depth_ok_def Let_def)

lemma fold_keeps: "P s \<Longrightarrow> (\<And>x s. x \<in> set xs \<Longrightarrow> P s \<Longrightarrow> P (f x s)) \<Longrightarrow> P (fold f xs s)"
  by (induction xs arbitrary: s) auto

lemma add_depths_ok: "candidates_ok fs \<Longrightarrow> \<forall>x\<in>set depths. depth_ok x \<Longrightarrow> candidates_ok (add_depths depths r fs)"
  unfolding add_depths_def by (rule fold_keeps) (auto intro: addFormat_ok)

lemma enum_alt_channels: "ea_channels (enum_alt_parse version alt) \<le> 255"
  unfolding enum_alt_parse_def
proof (rule walkExtra_inv [where P = "\<lambda>s. ea_channels s \<le> 255"])
  have "uint (x :: u8) \<le> 255" for x using uint_bounded [of x] by simp
  then show "ea_channels (snd (enum_alt_visit version p len s)) \<le> 255" if "ea_channels s \<le> 255" for p len s
    using that by (simp add: enum_alt_visit_def Let_def)
qed simp

definition enum_ok :: "depth list \<times> UsbFormatCandidate list \<Rightarrow> bool" where
  "enum_ok acc \<longleftrightarrow> (\<forall>x\<in>set (fst acc). depth_ok x) \<and> candidates_ok (snd acc)"

lemma enum_stream_alt_ok:
  assumes ok: "enum_ok acc"
  shows "enum_ok (enum_stream_alt version alt acc)"
proof (cases "is_streaming_alt alt \<and> alt_usable (enum_alt_parse version alt) \<and> has_out_data alt")
  case True
  define s where "s = enum_alt_parse version alt"
  obtain depths fs where acc: "acc = (depths, fs)" by fastforce
  have d: "depth_ok (ea_bits s, ea_bytes s, ea_channels s)"
    using True enum_alt_channels [of version alt] by (simp add: depth_ok_def alt_usable_def s_def)
  have f: "candidates_ok (fold (\<lambda>rate. addFormat rate (ea_bits s) (ea_bytes s) (ea_channels s)) rates fs)" for rates
    using ok d by (intro fold_keeps [where P = candidates_ok] addFormat_ok) (auto simp: enum_ok_def acc)
  show ?thesis
  proof (cases "version \<ge> 0x0200")
    case v: True
    show ?thesis using ok d True v
      unfolding enum_stream_alt_def acc s_def [symmetric] enum_ok_def by (simp add: Let_def s_def)
  next
    case v: False
    show ?thesis using ok f True v
      unfolding enum_stream_alt_def acc enum_ok_def by (simp add: Let_def s_def split: option.split)
  qed
next
  case False
  then have "enum_stream_alt version alt acc = acc" by (auto simp: enum_stream_alt_def Let_def split: prod.split)
  then show ?thesis using ok by simp
qed

lemma enum_clocks_ok:
  "candidates_ok fs \<Longrightarrow> \<forall>x\<in>set depths. depth_ok x \<Longrightarrow> candidates_ok (fst (enum_clocks e iface depths ids fs d))"
proof (induction ids arbitrary: fs d)
  case (Cons eid ids)
  have "candidates_ok (fold (\<lambda>(lo, hi, step). fold (add_depths depths) (rate_values lo hi step lo)) ts fs)" for ts
    using Cons.prems by (intro fold_keeps [where P = candidates_ok]) (auto intro!: fold_keeps add_depths_ok)
  then show ?case using Cons by (auto split: prod.splits)
qed simp

section \<open>Lemmas: the rate loop\<close>

text \<open>The number of grid points the loop visits.\<close>

definition grid_count :: "u32 \<Rightarrow> u32 \<Rightarrow> u32 \<Rightarrow> nat" where
  "grid_count lo hi step = min 257 ((unat hi - unat lo) div unat step + 1)"

lemma grid_point:
  assumes "unat lo + 257 * unat step < 2 ^ 32" "k \<le> 257"
  shows "unat (lo + of_nat k * step :: u32) = unat lo + k * unat step"
proof -
  have "k * unat step \<le> 257 * unat step" using assms(2) by (rule mult_right_mono) simp
  then have "unat lo + k * unat step < 2 ^ 32" using assms(1) by linarith
  then have "unat (of_nat (unat lo + k * unat step) :: u32) = unat lo + k * unat step"
    by (simp add: unat_of_nat take_bit_nat_eq_self del: of_nat_add of_nat_mult)
  then show ?thesis by simp
qed

lemma grid_guard:
  assumes b: "unat lo + 257 * unat step < 2 ^ 32" and s: "step \<noteq> 0" and le: "lo \<le> hi" and k: "k \<le> 257"
  shows "lo + of_nat k * step \<le> hi \<and> lo + of_nat k * step - lo \<le> 256 * step \<longleftrightarrow> k < grid_count lo hi step"
proof -
  have s0: "0 < unat step" using s by (simp add: unat_gt_0)
  have lh: "unat lo \<le> unat hi" using le by (simp add: word_le_nat_alt)
  have "unat lo + k * unat step \<le> unat hi \<longleftrightarrow> k * unat step \<le> unat hi - unat lo" using lh by linarith
  then have 1: "lo + of_nat k * step \<le> hi \<longleftrightarrow> k \<le> (unat hi - unat lo) div unat step"
    unfolding word_le_nat_alt grid_point [OF b k] by (simp add: less_eq_div_iff_mult_less_eq [OF s0])
  have b0: "unat (0 :: u32) + 257 * unat step < 2 ^ 32" using b by simp
  have "unat (of_nat k * step) = k * unat step" "unat (256 * step) = 256 * unat step"
    using grid_point [OF b0 k] grid_point [OF b0, of 256] by simp_all
  then have 2: "lo + of_nat k * step - lo \<le> 256 * step \<longleftrightarrow> k \<le> 256"
    using s0 by (simp add: word_le_nat_alt)
  show ?thesis unfolding 1 2 by (auto simp: grid_count_def)
qed

lemma rate_values_from:
  assumes b: "unat lo + 257 * unat step < 2 ^ 32" and s: "step \<noteq> 0" and le: "lo \<le> hi"
    and k: "k \<le> grid_count lo hi step"
  shows "rate_values lo hi step (lo + of_nat k * step) =
    map (\<lambda>i. lo + of_nat i * step) [k..<grid_count lo hi step]"
  using k
proof (induction "grid_count lo hi step - k" arbitrary: k)
  case (0 k)
  then have "k = grid_count lo hi step" "k \<le> 257" by (simp_all add: grid_count_def)
  then show ?case using grid_guard [OF b s le] s by (subst rate_values.simps) simp
next
  case (Suc n k)
  have "grid_count lo hi step \<le> 257" by (simp add: grid_count_def)
  then have km: "k < grid_count lo hi step" "k \<le> 257" "Suc k \<le> grid_count lo hi step"
    using Suc.hyps(2) by linarith+
  have last: "Suc k = grid_count lo hi step" if "lo + of_nat k * step = hi"
  proof -
    have "unat hi - unat lo = k * unat step" using grid_point [OF b km(2)] that by simp
    then show ?thesis using km s by (simp add: grid_count_def unat_gt_0 unat_eq_zero)
  qed
  have IH: "rate_values lo hi step (lo + of_nat k * step + step) =
      map (\<lambda>i. lo + of_nat i * step) [Suc k..<grid_count lo hi step]"
    using Suc.hyps(1) [of "Suc k"] Suc.hyps(2) km(3) by (simp add: algebra_simps)
  show ?case
    using grid_guard [OF b s le km(2)] km(1) last IH s
    by (subst rate_values.simps) (auto simp: upt_conv_Cons)
qed

section \<open>Properties\<close>

text \<open>C37. Walking a blob of well-formed class-specific descriptors followed by a truncated or malformed
  tail hands the callback exactly those descriptors, in order, and stops at the tail: the walk neither
  runs past the blob nor skips or invents a descriptor.\<close>
theorem walkExtra_visits_descriptors:
  assumes "\<forall>p\<in>set ds. wf_desc p" "walk_end rest"
  shows "walkExtra (\<lambda>p len s. (False, s @ [take len p])) (concat ds @ rest) [] = ds"
  using walkExtra_concat [OF assms(1)] walkExtra_end [OF assms(2)] by simp

theorem walkExtra_visits_descriptors_witness:
  "walkExtra (\<lambda>p len s. (False, s @ [take len p])) [5, 0x24, 1, 0, 2, 3, 0x24, 2, 9, 9] [] = [[5, 0x24, 1, 0, 2], [3, 0x24, 2]]"
  using walkExtra_visits_descriptors [of "[[5, 0x24, 1, 0, 2], [3, 0x24, 2]]" "[9, 9]"]
  by (simp add: wf_desc_def walk_end_def)

text \<open>C38. Whatever a device reports, the enumerated formats are pairwise different and plausible PCM
  formats: a positive rate, 16, 24 or 32 valid bits, a subslot that holds them and is at most 4 bytes
  wide, and between 2 and 255 channels.  That is what the enumeration filters; a format with more than
  the 8 channels the adapter transports is listed all the same.\<close>
theorem enumerateFormats_valid:
  "distinct (fst (enumerateFormats e u d)) \<and> list_all valid_candidate (fst (enumerateFormats e u d))"
proof -
  have scan: "enum_ok (fold (fold (enum_stream_alt version)) c ([], []))" for version c
  proof -
    have "enum_ok ([], [])" by (simp add: enum_ok_def candidates_ok_def)
    then show ?thesis by (intro fold_keeps [where P = enum_ok] enum_stream_alt_ok)
  qed
  have common: "candidates_ok (fold (add_depths depths) kCommonRates fs)"
    if "candidates_ok fs" "\<forall>x\<in>set depths. depth_ok x" for depths fs
    using that by (intro fold_keeps [where P = candidates_ok] add_depths_ok)
  have "candidates_ok (fst (enumerateFormats e u d))"
  proof (cases "device (ses d) = None \<or> line6Profile (ses d) \<or> getConfig u = None")
    case True
    then show ?thesis by (auto simp: enumerateFormats_def candidates_ok_def valid_candidate_def)
  next
    case False
    then obtain c where c: "getConfig u = Some c" by auto
    define ctl where "ctl = enum_control_scan c"
    obtain depths fs where df: "fold (fold (enum_stream_alt (ec_uacVersion ctl))) c ([], []) = (depths, fs)" by fastforce
    have ok: "candidates_ok fs" "\<forall>x\<in>set depths. depth_ok x"
      using scan [of "ec_uacVersion ctl" c] unfolding df enum_ok_def by simp_all
    obtain fs1 d1 where e: "(if ec_uacVersion ctl \<ge> 0x0200 \<and> ec_controlIface ctl \<noteq> 0xFF
        then enum_clocks e (ec_controlIface ctl) depths (ec_clocks ctl) fs d else (fs, d)) = (fs1, d1)" by fastforce
    have ok1: "candidates_ok fs1"
      using enum_clocks_ok [OF ok, of e "ec_controlIface ctl" "ec_clocks ctl" d] ok(1) e by (auto split: if_splits)
    show ?thesis
      using False ok1 common [OF ok1 ok(2)]
      by (auto simp: enumerateFormats_def c Let_def ctl_def [symmetric] df e)
  qed
  then show ?thesis by (simp add: candidates_ok_def list_all_iff)
qed

text \<open>The loop over a clock range with a step ends for every reply of a device (it is a total
  function of the wrapping 32-bit values), and for every range that stays below the 32-bit limit it
  offers exactly the grid points \<open>lo, lo + step, \<dots>\<close> up to \<open>hi\<close>, the first 257 of them at most.\<close>
theorem rate_values_grid:
  assumes "unat lo + 257 * unat step < 2 ^ 32" "step \<noteq> 0" "lo \<le> hi"
  shows "rate_values lo hi step lo =
    map (\<lambda>k. lo + of_nat k * step) [0..<min 257 ((unat hi - unat lo) div unat step + 1)]"
  using rate_values_from [OF assms, of 0] by (simp add: grid_count_def)

theorem rate_values_grid_witness:
  "rate_values 44100 48000 1000 44100 = [44100, 45100, 46100, 47100]"
  using rate_values_grid [of 44100 1000 48000] by (simp add: upt_rec)

end
