(* ===== verification/Clock_Control.thy ===== *)
theory Clock_Control
  imports Descriptors
begin

text \<open>
  Class and vendor control requests of \<^verbatim>\<open>src/libusb_uac_driver.cpp\<close>: the Line 6 start-up handshake,
  the rate inventory of a clock, and the negotiation of the sample rate.  Every request is a call on
  the bus; what the device answers comes from \<open>env\<close>.
\<close>

text \<open>\<open>ErrorSink\<close>: the failure category and its detail line.\<close>

definition report_error :: "StartError \<Rightarrow> string \<Rightarrow> driver \<Rightarrow> driver" where
  "report_error code detail d = ses_update (\<lambda>s. s\<lparr>lastError := code, lastErrorDetail := detail\<rparr>) d"

section \<open>Line 6 vendor setup\<close>

definition le_bytes4 :: "u32 \<Rightarrow> bytes" where
  "le_bytes4 w = [ucast w, ucast (drop_bit 8 w), ucast (drop_bit 16 w), ucast (drop_bit 24 w)]"

text \<open>Status polls: at most \<open>n\<close> more while the status reads \<open>0xff\<close>; \<open>None\<close> when a request fails.\<close>

fun vendor_poll :: "env \<Rightarrow> nat \<Rightarrow> u8 \<Rightarrow> driver \<Rightarrow> u8 option \<times> driver" where
  "vendor_poll e 0 status d = (Some status, d)"
| "vendor_poll e (Suc n) status d =
     (if status \<noteq> 0xff then (Some status, d)
      else (case control e 0xc0 0x67 0x0012 0 [] 1 d of ((rc, reply), d1) \<Rightarrow>
              if rc \<noteq> 1 then (None, d1) else vendor_poll e n (reply ! 0) d1))"

text \<open>\<open>epoch\<close> is the wall clock in seconds.\<close>

definition line6VendorSetup :: "env \<Rightarrow> u32 \<Rightarrow> driver \<Rightarrow> bool \<times> driver" where
  "line6VendorSetup e epoch d =
     (case control e 0x40 0x67 0x0022 0x80c6 (le_bytes4 epoch) 4 d of ((rc, _), d1) \<Rightarrow>
        if rc \<noteq> 4 then (False, report_error SetSampleRateFailed ''Line6 UX1 epoch vendor request failed'' d1)
        else (case vendor_poll e 100 0xff d1 of
            (None, d2) \<Rightarrow> (False, report_error SetSampleRateFailed ''Line6 UX1 vendor status poll failed'' d2)
          | (Some status, d2) \<Rightarrow>
              if status \<noteq> 0
              then (False, report_error SetSampleRateFailed ''Line6 UX1 vendor status did not become zero'' d2)
              else (case control e 0x40 0x67 0x0301 0 [] 0 d2 of ((rc3, _), d3) \<Rightarrow>
                if rc3 \<noteq> 0 then (False, report_error SetSampleRateFailed ''Line6 UX1 command 0x0301 failed'' d3)
                else (case control e 0x40 0x67 0x0b01 0 [] 0 d3 of ((rc4, _), d4) \<Rightarrow>
                  if rc4 \<noteq> 0 then (False, report_error SetSampleRateFailed ''Line6 UX1 instrument command failed'' d4)
                  else (True, d4)))))"

section \<open>The rate inventory\<close>

definition add_rate :: "u8 \<Rightarrow> u32 \<times> u32 \<times> u32 \<Rightarrow> ClockRateRange list \<Rightarrow> ClockRateRange list" where
  "add_rate clockId triple rates =
     (case triple of (mn, mx, res) \<Rightarrow>
        if \<exists>r\<in>set rates. cr_minHz r = mn \<and> cr_maxHz r = mx \<and> cr_resHz r = res then rates
        else rates @ [\<lparr>cr_clockId = clockId, cr_minHz = mn, cr_maxHz = mx, cr_resHz = res\<rparr>])"

definition store_ranges :: "u8 \<Rightarrow> int \<Rightarrow> bytes \<Rightarrow> driver \<Rightarrow> driver" where
  "store_ranges clockId gr rng d =
     (if gr < 2 then d
      else ses_update (supportedRates_update (fold (add_rate clockId) (range_triples rng gr))) d)"

definition captureRangeForClock :: "env \<Rightarrow> u8 \<Rightarrow> driver \<Rightarrow> driver" where
  "captureRangeForClock e clockId d =
     (if clockId = 0 \<or> device (ses d) = None then d
      else (case get_range e clockId (controlInterfaceNum (fmt d)) d of ((gr, rng), d1) \<Rightarrow>
              store_ranges clockId gr rng d1))"

section \<open>The sample rate\<close>

definition tryIds :: "StreamFormat \<Rightarrow> u8 list" where
  "tryIds f =
     (if clockSourceId f \<noteq> 0 then [clockSourceId f] else []) @
     filter (\<lambda>eid. eid \<noteq> 0 \<and> eid \<noteq> clockSourceId f) (candidateClockIds f)"

definition set_cur_call :: "u32 \<Rightarrow> u8 \<Rightarrow> u8 \<Rightarrow> usb_call" where
  "set_cur_call hz iface eid = Control 0x21 0x01 0x0100 (entity_index eid iface) (le_bytes4 hz) 4"

definition get_cur_call :: "u8 \<Rightarrow> u8 \<Rightarrow> usb_call" where
  "get_cur_call iface eid = Control 0xA1 0x01 0x0100 (entity_index eid iface) [] 4"

text \<open>SET\_CUR on the candidates in turn; the first clock that accepts wins.\<close>

fun try_set_cur :: "env \<Rightarrow> u32 \<Rightarrow> u8 \<Rightarrow> u8 list \<Rightarrow> driver \<Rightarrow> u8 option \<times> driver" where
  "try_set_cur e hz iface [] d = (None, d)"
| "try_set_cur e hz iface (eid # ids) d =
     (case usb e (set_cur_call hz iface eid) d of (r, d1) \<Rightarrow>
        if r = 4 then (Some eid, d1) else try_set_cur e hz iface ids d1)"

text \<open>No clock accepted: a clock that already runs at the rate is good enough.\<close>

fun try_get_cur :: "env \<Rightarrow> u32 \<Rightarrow> u8 \<Rightarrow> u8 list \<Rightarrow> driver \<Rightarrow> u8 option \<times> driver" where
  "try_get_cur e hz iface [] d = (None, d)"
| "try_get_cur e hz iface (eid # ids) d =
     (let cur = usb_data e (bus d) (get_cur_call iface eid) in
      case usb e (get_cur_call iface eid) d of (gc, d1) \<Rightarrow>
      case get_range e eid iface d1 of ((gr, rng), d2) \<Rightarrow>
        let hzGot = (if gc = 4 then le32_at cur 0 else 0);
            d3 = (if gc = 4 \<or> gr \<ge> 2 then store_ranges eid gr rng d2 else d2)
        in if gc = 4 \<and> hzGot = hz then (Some eid, d3) else try_get_cur e hz iface ids d3)"

definition setSampleRate_uac1 :: "env \<Rightarrow> u32 \<Rightarrow> driver \<Rightarrow> bool \<times> driver" where
  "setSampleRate_uac1 e hz d =
     (let index = ucast (endpointAddress (fmt d)); bs = take 3 (le_bytes4 hz) in
      case usb e (Control 0x22 0x01 0x0100 index bs 3) d of (rc, d1) \<Rightarrow>
        if rc = 3 then (True, d1)
        else (case usb e (Control 0x22 0x01 0x0100 index (bs @ [0]) 4) d1 of (rc4, d2) \<Rightarrow> (rc4 = 4, d2)))"

definition setSampleRate :: "env \<Rightarrow> u32 \<Rightarrow> driver \<Rightarrow> bool \<times> driver" where
  "setSampleRate e hz d =
     (if uacVersion (fmt d) \<ge> 0x0200 then
        let ids = tryIds (fmt d); iface = controlInterfaceNum (fmt d) in
        if ids = [] then (True, d)
        else (case try_set_cur e hz iface ids d of
            (Some winningId, d1) \<Rightarrow>
              (True, captureRangeForClock e winningId (fmt_update (clockSourceId_update (\<lambda>_. winningId)) d1))
          | (None, d1) \<Rightarrow>
              (case try_get_cur e hz iface ids d1 of
                 (Some eid, d2) \<Rightarrow> (True, fmt_update (clockSourceId_update (\<lambda>_. eid)) d2)
               | (None, d2) \<Rightarrow> (False, d2)))
      else setSampleRate_uac1 e hz d)"

section \<open>Lemmas: evidence on the bus\<close>

definition bus_grows :: "driver \<Rightarrow> driver \<Rightarrow> bool" where
  "bus_grows d d' \<longleftrightarrow> (\<exists>l. bus d' = bus d @ l)"

lemma bus_grows_refl [simp]: "bus_grows d d"
  by (simp add: bus_grows_def)

lemma bus_grows_trans: "bus_grows d d1 \<Longrightarrow> bus_grows d1 d2 \<Longrightarrow> bus_grows d d2"
  by (auto simp: bus_grows_def)

text \<open>Between \<open>d\<close> and \<open>d'\<close> the driver made \<open>call\<close>, and the device answered with return code \<open>r\<close> and data
  \<open>reply\<close>; what earlier calls were answered does not count.\<close>

definition answered :: "env \<Rightarrow> driver \<Rightarrow> driver \<Rightarrow> usb_call \<Rightarrow> int \<Rightarrow> bytes \<Rightarrow> bool" where
  "answered e d d' call r reply \<longleftrightarrow>
     (\<exists>pre suf. bus d' = bus d @ pre @ (call, r) # suf \<and> reply = usb_data e (bus d @ pre) call)"

lemma answered_later: "answered e d d' call r reply \<Longrightarrow> bus_grows d' d'' \<Longrightarrow> answered e d d'' call r reply"
  by (fastforce simp: answered_def bus_grows_def)

lemma answered_earlier: "answered e d1 d' call r reply \<Longrightarrow> bus_grows d d1 \<Longrightarrow> answered e d d' call r reply"
  unfolding answered_def bus_grows_def by (metis append.assoc)

lemma usb_answered: "usb e call d = (r, d1) \<Longrightarrow> answered e d d1 call r (usb_data e (bus d) call)"
  unfolding answered_def by (rule exI [of _ "[]"], rule exI [of _ "[]"]) (auto simp: usb_def Let_def)

lemma usb_frame:
  "usb e call d = (r, d1) \<Longrightarrow> bus_grows d d1 \<and> fmt d1 = fmt d \<and> ses d1 = ses d"
  by (auto simp: usb_def Let_def bus_grows_def)

lemma get_range_frame:
  "get_range e eid iface d = ((gr, rng), d1) \<Longrightarrow> bus_grows d d1 \<and> fmt d1 = fmt d"
  by (auto simp: get_range_def control_def Let_def usb_def bus_grows_def)

lemma store_ranges_frame [simp]: "bus (store_ranges c gr rng d) = bus d" "fmt (store_ranges c gr rng d) = fmt d"
  by (simp_all add: store_ranges_def)

lemma bus_grows_store_ranges [simp]: "bus_grows d (store_ranges c gr rng d1) = bus_grows d d1"
  by (simp add: bus_grows_def)

lemma captureRangeForClock_frame: "bus_grows d (captureRangeForClock e c d) \<and> fmt (captureRangeForClock e c d) = fmt d"
  using get_range_frame by (fastforce simp: captureRangeForClock_def split: prod.splits)

text \<open>What a clock entity said between \<open>d\<close> and \<open>d'\<close>: whether it acknowledged the rate, and whether it reported it.\<close>

definition set_cur_said :: "env \<Rightarrow> u32 \<Rightarrow> u8 \<Rightarrow> u8 \<Rightarrow> driver \<Rightarrow> driver \<Rightarrow> bool \<Rightarrow> bool" where
  "set_cur_said e hz iface eid d d' yes \<longleftrightarrow>
     (\<exists>r reply. answered e d d' (set_cur_call hz iface eid) r reply \<and> (r = 4) = yes)"

definition get_cur_said :: "env \<Rightarrow> u32 \<Rightarrow> u8 \<Rightarrow> u8 \<Rightarrow> driver \<Rightarrow> driver \<Rightarrow> bool \<Rightarrow> bool" where
  "get_cur_said e hz iface eid d d' yes \<longleftrightarrow>
     (\<exists>r reply. answered e d d' (get_cur_call iface eid) r reply \<and> (r = 4 \<and> le32_at reply 0 = hz) = yes)"

lemma said_later:
  "set_cur_said e hz iface eid d d' b \<Longrightarrow> bus_grows d' d'' \<Longrightarrow> set_cur_said e hz iface eid d d'' b"
  "get_cur_said e hz iface eid d d' b \<Longrightarrow> bus_grows d' d'' \<Longrightarrow> get_cur_said e hz iface eid d d'' b"
  by (auto simp: set_cur_said_def get_cur_said_def intro: answered_later)

lemma said_earlier:
  "set_cur_said e hz iface eid d1 d' b \<Longrightarrow> bus_grows d d1 \<Longrightarrow> set_cur_said e hz iface eid d d' b"
  "get_cur_said e hz iface eid d1 d' b \<Longrightarrow> bus_grows d d1 \<Longrightarrow> get_cur_said e hz iface eid d d' b"
  by (auto simp: set_cur_said_def get_cur_said_def intro: answered_earlier)

lemma try_set_cur_said:
  assumes "try_set_cur e hz iface ids d = (win, d')"
  shows "bus_grows d d'" "fmt d' = fmt d" "win = Some eid \<Longrightarrow> eid \<in> set ids \<and> set_cur_said e hz iface eid d d' True"
    and "win = None \<Longrightarrow> \<forall>eid\<in>set ids. set_cur_said e hz iface eid d d' False"
proof -
  have "bus_grows d d' \<and> fmt d' = fmt d \<and> (\<forall>eid. win = Some eid \<longrightarrow> eid \<in> set ids \<and> set_cur_said e hz iface eid d d' True) \<and>
      (win = None \<longrightarrow> (\<forall>eid\<in>set ids. set_cur_said e hz iface eid d d' False))"
    using assms
  proof (induction ids arbitrary: d)
    case (Cons i ids)
    obtain r d1 where u: "usb e (set_cur_call hz iface i) d = (r, d1)" by fastforce
    note f = usb_frame [OF u]
    have s: "set_cur_said e hz iface i d d1 (r = 4)" using usb_answered [OF u] by (auto simp: set_cur_said_def)
    show ?case
    proof (cases "r = 4")
      case True
      then show ?thesis using Cons.prems u f s by auto
    next
      case False
      then have "try_set_cur e hz iface ids d1 = (win, d')" using Cons.prems u by simp
      from Cons.IH [OF this] show ?thesis
        using f s False said_later(1) [OF s] said_earlier(1) [of e hz iface _ d1 d'] bus_grows_trans by auto
    qed
  qed simp
  then show "bus_grows d d'" "fmt d' = fmt d" "win = Some eid \<Longrightarrow> eid \<in> set ids \<and> set_cur_said e hz iface eid d d' True"
    "win = None \<Longrightarrow> \<forall>eid\<in>set ids. set_cur_said e hz iface eid d d' False" by auto
qed

lemma try_get_cur_said:
  assumes "try_get_cur e hz iface ids d = (win, d')"
  shows "bus_grows d d' \<and> fmt d' = fmt d \<and> (\<forall>eid. win = Some eid \<longrightarrow> eid \<in> set ids \<and> get_cur_said e hz iface eid d d' True) \<and>
      (win = None \<longrightarrow> (\<forall>eid\<in>set ids. get_cur_said e hz iface eid d d' False))"
  using assms
proof (induction ids arbitrary: d)
  case (Cons i ids)
  define cur where "cur = usb_data e (bus d) (get_cur_call iface i)"
  obtain gc d1 where u: "usb e (get_cur_call iface i) d = (gc, d1)" by fastforce
  obtain gr rng d2 where g: "get_range e i iface d1 = ((gr, rng), d2)" by (metis prod.collapse)
  define d3 where "d3 = (if gc = 4 \<or> gr \<ge> 2 then store_ranges i gr rng d2 else d2)"
  define m where "m = (gc = 4 \<and> le32_at cur 0 = hz)"
  have s1: "get_cur_said e hz iface i d d1 m"
    using usb_answered [OF u] unfolding get_cur_said_def m_def cur_def by blast
  have g3: "bus_grows d1 d3" "fmt d3 = fmt d" "bus_grows d d3"
    using usb_frame [OF u] get_range_frame [OF g] bus_grows_trans [of d d1 d2] by (auto simp: d3_def)
  have s: "get_cur_said e hz iface i d d3 m" using said_later(2) [OF s1 g3(1)] .
  have res: "(win, d') = (if m then (Some i, d3) else try_get_cur e hz iface ids d3)"
    unfolding Cons.prems [symmetric] m_def d3_def by (auto simp: u g Let_def cur_def)
  show ?case
  proof (cases m)
    case True
    then show ?thesis using res g3 s by auto
  next
    case False
    then have "try_get_cur e hz iface ids d3 = (win, d')" using res by simp
    from Cons.IH [OF this] show ?thesis
      using g3 s False said_later(2) [OF s] said_earlier(2) [of e hz iface _ d3 d'] bus_grows_trans [of d d3] by auto
  qed
qed simp

text \<open>The three ways the negotiation goes: UAC2 with clock entities, UAC2 without, UAC1.\<close>

lemma negotiate_clocks:
  assumes v: "uacVersion (fmt d) \<ge> 0x0200" and ids: "tryIds (fmt d) \<noteq> []"
    and r: "setSampleRate e hz d = (ok, d')"
  defines "iface \<equiv> controlInterfaceNum (fmt d)"
  shows "if ok
    then \<exists>eid\<in>set (tryIds (fmt d)). fmt d' = (fmt d)\<lparr>clockSourceId := eid\<rparr> \<and>
      (set_cur_said e hz iface eid d d' True \<or> get_cur_said e hz iface eid d d' True)
    else fmt d' = fmt d \<and> (\<forall>eid\<in>set (tryIds (fmt d)).
      set_cur_said e hz iface eid d d' False \<and> get_cur_said e hz iface eid d d' False)"
proof -
  obtain win d1 where s: "try_set_cur e hz iface (tryIds (fmt d)) d = (win, d1)" by fastforce
  note S = try_set_cur_said [OF s]
  show ?thesis
  proof (cases win)
    case (Some w)
    define d2 where "d2 = fmt_update (clockSourceId_update (\<lambda>_. w)) d1"
    have res: "ok" "d' = captureRangeForClock e w d2"
      using r v ids s Some by (simp_all add: setSampleRate_def iface_def [symmetric] d2_def)
    have f: "bus_grows d1 d'" "fmt d' = (fmt d)\<lparr>clockSourceId := w\<rparr>"
      using captureRangeForClock_frame [of d2 e w] S(2) unfolding res(2) by (simp_all add: d2_def bus_grows_def)
    show ?thesis using res(1) S(3) [OF Some] f said_later(1) by auto
  next
    case None
    obtain win2 d2 where g: "try_get_cur e hz iface (tryIds (fmt d)) d1 = (win2, d2)" by fastforce
    note G = try_get_cur_said [OF g]
    show ?thesis
    proof (cases win2)
      case (Some w)
      then have res: "ok" "d' = fmt_update (clockSourceId_update (\<lambda>_. w)) d2"
        using r v ids s g None by (simp_all add: setSampleRate_def iface_def [symmetric])
      have "get_cur_said e hz iface w d1 d2 True" "bus_grows d2 d'" using G Some by (simp_all add: res(2) bus_grows_def)
      then have "get_cur_said e hz iface w d d' True" using said_later(2) said_earlier(2) [OF _ S(1)] by blast
      then show ?thesis using G S(2) Some res by auto
    next
      case n2: None
      then have res: "\<not> ok" "d' = d2"
        using r v ids s g None by (simp_all add: setSampleRate_def iface_def [symmetric])
      show ?thesis
        using S(2) S(4) [OF None] G n2 res said_later(1) said_earlier(2) [OF _ S(1)] by auto
    qed
  qed
qed

definition uac1_call :: "u32 \<Rightarrow> driver \<Rightarrow> bytes \<Rightarrow> usb_call" where
  "uac1_call hz d pad = Control 0x22 0x01 0x0100 (ucast (endpointAddress (fmt d)))
     ([ucast hz, ucast (drop_bit 8 hz), ucast (drop_bit 16 hz)] @ pad) (of_nat (3 + length pad))"

lemma negotiate_uac1:
  assumes r: "setSampleRate_uac1 e hz d = (ok, d')"
  shows "fmt d' = fmt d \<and>
    (if ok then (\<exists>reply. answered e d d' (uac1_call hz d []) 3 reply) \<or> (\<exists>reply. answered e d d' (uac1_call hz d [0]) 4 reply)
     else (\<exists>r reply. r \<noteq> 3 \<and> answered e d d' (uac1_call hz d []) r reply) \<and>
       (\<exists>r reply. r \<noteq> 4 \<and> answered e d d' (uac1_call hz d [0]) r reply))"
proof -
  have c: "uac1_call hz d [] = Control 0x22 0x01 0x0100 (ucast (endpointAddress (fmt d))) (take 3 (le_bytes4 hz)) 3"
    "uac1_call hz d [0] = Control 0x22 0x01 0x0100 (ucast (endpointAddress (fmt d))) (take 3 (le_bytes4 hz) @ [0]) 4"
    by (simp_all add: uac1_call_def le_bytes4_def)
  obtain r3 d1 where u3: "usb e (uac1_call hz d []) d = (r3, d1)" by fastforce
  obtain r4 d2 where u4: "usb e (uac1_call hz d [0]) d1 = (r4, d2)" by fastforce
  note a3 = usb_answered [OF u3] and a4 = usb_answered [OF u4] and f3 = usb_frame [OF u3] and f4 = usb_frame [OF u4]
  have res: "(ok, d') = (if r3 = 3 then (True, d1) else (r4 = 4, d2))"
    unfolding r [symmetric] setSampleRate_uac1_def Let_def c [symmetric] by (simp add: u3 u4)
  show ?thesis
    using res a3 f3 f4 answered_later [OF a3, of d2] answered_earlier [OF a4, of d] by (auto split: if_splits)
qed

section \<open>Properties\<close>

text \<open>C35. The rate negotiation never claims a rate without an answer of the device to this negotiation.  A
  UAC2 device: it succeeds only with a clock entity of the stream that, during this call, acknowledged
  SET\_CUR at this rate or reported this very rate in GET\_CUR; that entity becomes the stream's clock
  and nothing else of the format changes.  It fails only after every candidate clock has, during this
  call, refused SET\_CUR and reported another rate, or none.  A UAC1 device: it succeeds exactly when the
  endpoint acknowledged the three-byte or then the four-byte form of the rate.  Only a UAC2
  stream without any clock entity has nobody to ask: it succeeds without a request.\<close>

theorem setSampleRate_evidence:
  assumes r: "setSampleRate e hz d = (ok, d')"
  shows "if uacVersion (fmt d) < 0x0200
    then fmt d' = fmt d \<and>
      (if ok then (\<exists>reply. answered e d d' (uac1_call hz d []) 3 reply) \<or> (\<exists>reply. answered e d d' (uac1_call hz d [0]) 4 reply)
       else (\<exists>r reply. r \<noteq> 3 \<and> answered e d d' (uac1_call hz d []) r reply) \<and>
         (\<exists>r reply. r \<noteq> 4 \<and> answered e d d' (uac1_call hz d [0]) r reply))
    else if tryIds (fmt d) = [] then ok \<and> d' = d
    else if ok
    then \<exists>eid\<in>set (tryIds (fmt d)). fmt d' = (fmt d)\<lparr>clockSourceId := eid\<rparr> \<and>
      (set_cur_said e hz (controlInterfaceNum (fmt d)) eid d d' True \<or>
       get_cur_said e hz (controlInterfaceNum (fmt d)) eid d d' True)
    else fmt d' = fmt d \<and> (\<forall>eid\<in>set (tryIds (fmt d)).
      set_cur_said e hz (controlInterfaceNum (fmt d)) eid d d' False \<and>
      get_cur_said e hz (controlInterfaceNum (fmt d)) eid d d' False)"
proof -
  consider "uacVersion (fmt d) < 0x0200" | "uacVersion (fmt d) \<ge> 0x0200" "tryIds (fmt d) = []"
    | "uacVersion (fmt d) \<ge> 0x0200" "tryIds (fmt d) \<noteq> []" by fastforce
  then show ?thesis
  proof cases
    case 1
    then have "\<not> 0x0200 \<le> uacVersion (fmt d)" by simp
    then have "setSampleRate_uac1 e hz d = (ok, d')" using r by (simp only: setSampleRate_def if_False)
    from negotiate_uac1 [OF this] show ?thesis unfolding if_P [OF 1] .
  next
    case 2
    then have n: "\<not> uacVersion (fmt d) < 0x0200" by (simp only: not_less)
    show ?thesis unfolding if_not_P [OF n] using 2 r by (simp add: setSampleRate_def)
  next
    case 3
    then have n: "\<not> uacVersion (fmt d) < 0x0200" by (simp only: not_less)
    from negotiate_clocks [OF 3 r] show ?thesis unfolding if_not_P [OF n] if_not_P [OF 3(2)] .
  qed
qed

text \<open>A device with two clocks whose first one refuses requests and whose second one runs at 48 kHz.\<close>

definition demo_clock_env :: env where
  "demo_clock_env = \<lparr>usb_rc = (\<lambda>_ call. if call = get_cur_call 1 7 then 4 else -9),
     usb_data = (\<lambda>_ _. [0x80, 0xBB, 0, 0]), packet_offset = (\<lambda>_ _. 0), clock_ns = (\<lambda>_. 0), spin_fuel = 0\<rparr>"

definition demo_clock_driver :: driver where
  "demo_clock_driver = (newDriver 3 4)\<lparr>fmt := defaultStreamFormat\<lparr>clockSourceId := 5, controlInterfaceNum := 1,
     candidateClockIds := [5, 7]\<rparr>\<rparr>"

theorem setSampleRate_evidence_witness:
  "\<exists>d'. setSampleRate demo_clock_env 48000 demo_clock_driver = (True, d') \<and>
     (set_cur_said demo_clock_env 48000 1 7 demo_clock_driver d' True \<or>
      get_cur_said demo_clock_env 48000 1 7 demo_clock_driver d' True) \<and>
     clockSourceId (fmt d') = 7"
proof -
  have f: "uacVersion (fmt demo_clock_driver) = 0x0200" "tryIds (fmt demo_clock_driver) = [5, 7]"
    "controlInterfaceNum (fmt demo_clock_driver) = 1"
    by (simp_all add: demo_clock_driver_def defaultStreamFormat_def tryIds_def)
  have hz: "le32_at [0x80, 0xBB, 0, 0] 0 = 48000" by (simp add: le32_at_def le32_def)
  have ne: "get_cur_call 1 5 \<noteq> get_cur_call 1 7" by (simp add: get_cur_call_def entity_index_def)
  have rc: "usb_rc demo_clock_env h (set_cur_call hz i c) = -9" "usb_rc demo_clock_env h (Control x y z idx [] 256) = -9" for h hz i c x y z idx
    by (simp_all add: demo_clock_env_def get_cur_call_def set_cur_call_def)
  have rc2: "usb_rc demo_clock_env h (get_cur_call 1 5) = -9" "usb_rc demo_clock_env h (get_cur_call 1 7) = 4"
    "usb_data demo_clock_env h call = [0x80, 0xBB, 0, 0]" for h call
    using ne by (simp_all add: demo_clock_env_def)
  obtain ok d' where r: "setSampleRate demo_clock_env 48000 demo_clock_driver = (ok, d')" by fastforce
  have ok: "ok" "clockSourceId (fmt d') = 7"
    using r by (auto simp: setSampleRate_def f usb_def rc rc2 Let_def get_range_def control_def hz)
  show ?thesis using setSampleRate_evidence [OF r] f ok r by auto
qed

end
