(* ===== verification/Alt_Select.thy ===== *)
theory Alt_Select
  imports Clock_Control
begin

text \<open>
  The choice of alternate settings in \<^verbatim>\<open>src/libusb_uac_driver.cpp\<close>: \<open>selectAltSetting\<close> for playback
  and \<open>selectCaptureAltSetting\<close> for the matching capture interface, with the resolution of the clock
  entity a stream runs on.  An integer division by zero, which ends a C++ program, is the outcome
  \<open>None\<close> of \<open>packet_fits\<close> and of what calls it.
\<close>

section \<open>Clock topology\<close>

record topology =
  tp_uacVersion :: u16
  tp_terminals :: "(u8 \<times> u8) list"
  tp_clocks :: "(u8 \<times> u8 \<times> u8) list"

definition topology_visit :: "bytes \<Rightarrow> nat \<Rightarrow> topology \<Rightarrow> bool \<times> topology" where
  "topology_visit p len s =
     (False,
      if isClassDescriptor p len CS_INTERFACE AC_HEADER \<and> len \<ge> 5
      then s\<lparr>tp_uacVersion := le16 (p ! 3) (p ! 4)\<rparr>
      else if isClassDescriptor p len CS_INTERFACE AC_CLOCK_SOURCE \<and> len \<ge> 4
      then s\<lparr>tp_clocks := tp_clocks s @ [(p ! 3, AC_CLOCK_SOURCE, 0)]\<rparr>
      else if isClassDescriptor p len CS_INTERFACE AC_CLOCK_SELECTOR \<and> len \<ge> 6
      then s\<lparr>tp_clocks := tp_clocks s @ [(p ! 3, AC_CLOCK_SELECTOR, p ! 5)]\<rparr>
      else if isClassDescriptor p len CS_INTERFACE AC_CLOCK_MULTIPLIER \<and> len \<ge> 5
      then s\<lparr>tp_clocks := tp_clocks s @ [(p ! 3, AC_CLOCK_MULTIPLIER, p ! 4)]\<rparr>
      else if isClassDescriptor p len CS_INTERFACE AC_INPUT_TERMINAL \<and> len \<ge> 8
      then s\<lparr>tp_terminals := tp_terminals s @ [(p ! 3, p ! 7)]\<rparr>
      else if isClassDescriptor p len CS_INTERFACE AC_OUTPUT_TERMINAL \<and> len \<ge> 9
      then s\<lparr>tp_terminals := tp_terminals s @ [(p ! 3, p ! 8)]\<rparr>
      else s)"

definition is_control_alt :: "alt_desc \<Rightarrow> bool" where
  "is_control_alt alt \<longleftrightarrow> bInterfaceClass alt = USB_CLASS_AUDIO \<and> bInterfaceSubClass alt = SUBCLASS_AUDIOCONTROL"

definition emptyTopology :: topology where
  "emptyTopology = \<lparr>tp_uacVersion = 0x0200, tp_terminals = [], tp_clocks = []\<rparr>"

text \<open>The first AudioControl alternate setting decides.\<close>

definition find_control :: "config \<Rightarrow> (u8 \<times> topology) option" where
  "find_control c = map_option (\<lambda>alt. (bInterfaceNumber alt, walkExtra topology_visit (extra alt) emptyTopology))
     (find is_control_alt (concat c))"

definition terminal_clock :: "(u8 \<times> u8) list \<Rightarrow> u8 \<Rightarrow> u8" where
  "terminal_clock terminals link = (case find (\<lambda>(t, c). t = link) terminals of Some (t, c) \<Rightarrow> c | None \<Rightarrow> 0)"

text \<open>Following selectors and multipliers towards a clock source, at most \<open>n\<close> hops.\<close>

fun follow_clock :: "nat \<Rightarrow> (u8 \<times> u8 \<times> u8) list \<Rightarrow> u8 \<Rightarrow> u8" where
  "follow_clock 0 clocks c = c"
| "follow_clock (Suc n) clocks c =
     (if c = 0 then c
      else (case find (\<lambda>(i, subtype, base). i = c) clocks of
              None \<Rightarrow> c
            | Some (i, subtype, base) \<Rightarrow>
                if subtype = AC_CLOCK_SOURCE \<or> base = 0 then c else follow_clock n clocks base))"

definition resolveClock :: "(u8 \<times> u8) list \<Rightarrow> (u8 \<times> u8 \<times> u8) list \<Rightarrow> u8 \<Rightarrow> u8" where
  "resolveClock terminals clocks link = follow_clock 4 clocks (terminal_clock terminals link)"

text \<open>Playback falls back to the first clock source, then to any clock entity.\<close>

definition playback_clock :: "topology \<Rightarrow> u8 \<Rightarrow> u8" where
  "playback_clock t link =
     (let c = resolveClock (tp_terminals t) (tp_clocks t) link;
          c1 = (if c = 0 then (case find (\<lambda>(i, subtype, base). subtype = AC_CLOCK_SOURCE) (tp_clocks t) of
                                 Some (i, _, _) \<Rightarrow> i | None \<Rightarrow> 0) else c)
      in if c1 = 0 then (case tp_clocks t of [] \<Rightarrow> 0 | (i, _, _) # _ \<Rightarrow> i) else c1)"

definition candidate_clocks :: "topology \<Rightarrow> u8 list" where
  "candidate_clocks t =
     map fst (filter (\<lambda>(i, subtype, base). subtype = AC_CLOCK_SOURCE) (tp_clocks t)) @
     map fst (filter (\<lambda>(i, subtype, base). subtype \<noteq> AC_CLOCK_SOURCE) (tp_clocks t))"

section \<open>Playback alternate settings\<close>

record alt_scan =
  as_channels :: int
  as_bits :: int
  as_subslot :: int
  as_terminalLink :: u8
  as_rateOk :: bool
  as_rates :: "ClockRateRange list"

text \<open>A rate of a UAC1 table enters the inventory under the synthetic clock 0.\<close>

definition add_table_rate :: "u32 \<Rightarrow> u32 \<Rightarrow> ClockRateRange list \<Rightarrow> ClockRateRange list" where
  "add_table_rate lo hi rates =
     (if \<exists>r\<in>set rates. cr_minHz r = lo \<and> cr_maxHz r = hi then rates
      else rates @ [\<lparr>cr_clockId = 0, cr_minHz = lo, cr_maxHz = hi, cr_resHz = 0\<rparr>])"

definition le24_at :: "bytes \<Rightarrow> nat \<Rightarrow> u32" where
  "le24_at p off = le24 (p ! off) (p ! (off + 1)) (p ! (off + 2))"

definition rate_table :: "bytes \<Rightarrow> nat \<Rightarrow> u32 list" where
  "rate_table p len =
     map (\<lambda>k. le24_at p (8 + k * 3)) (takeWhile (\<lambda>k. 8 + k * 3 + 3 \<le> len) [0..<unat (p ! 7)])"

text \<open>The sample-frequency table of a UAC1 format: whether it has the rate, and, for a setting with
  the requested channels and bits, the inventory entries.\<close>

definition scan_rate_table :: "int \<Rightarrow> bool \<Rightarrow> bytes \<Rightarrow> nat \<Rightarrow> alt_scan \<Rightarrow> alt_scan" where
  "scan_rate_table rate inventory p len s =
     (if len < 8 then s
      else if p ! 7 = 0 then
        if len \<ge> 14
        then let lo = le24_at p 8; hi = le24_at p 11
             in s\<lparr>as_rateOk := (u32_of_int rate \<ge> lo \<and> u32_of_int rate \<le> hi),
                  as_rates := (if inventory then add_table_rate lo hi (as_rates s) else as_rates s)\<rparr>
        else s
      else s\<lparr>as_rateOk := (\<exists>hz\<in>set (rate_table p len). sint hz = rate),
             as_rates := (if inventory then fold (\<lambda>hz. add_table_rate hz hz) (rate_table p len) (as_rates s)
                          else as_rates s)\<rparr>)"

definition alt_scan_visit :: "u16 \<Rightarrow> int \<Rightarrow> int \<Rightarrow> int \<Rightarrow> bytes \<Rightarrow> nat \<Rightarrow> alt_scan \<Rightarrow> bool \<times> alt_scan" where
  "alt_scan_visit version rate bits chans p len s =
     (False,
      if isClassDescriptor p len CS_INTERFACE AS_GENERAL
      then if version \<ge> 0x0200 \<and> len \<ge> 16
           then s\<lparr>as_terminalLink := p ! 3, as_channels := uint (p ! 10)\<rparr> else s
      else if isClassDescriptor p len CS_INTERFACE AS_FORMAT_TYPE \<and> len \<ge> 4 \<and> p ! 3 = FORMAT_TYPE_I
      then if version \<ge> 0x0200
           then if len \<ge> 6 then s\<lparr>as_subslot := uint (p ! 4), as_bits := uint (p ! 5)\<rparr> else s
           else if len \<ge> 7
           then scan_rate_table rate (uint (p ! 4) = chans \<and> uint (p ! 6) = bits) p len
                  (s\<lparr>as_channels := uint (p ! 4), as_subslot := uint (p ! 5), as_bits := uint (p ! 6)\<rparr>)
           else s
      else s)"

text \<open>\<open>1 << count\<close> on a 32-bit \<open>int\<close>: undefined from 32 on, and the sign bit at 31.\<close>

definition shift_one :: "nat \<Rightarrow> int option" where
  "shift_one count = (if count < 32 then Some (sint (push_bit count 1 :: u32)) else None)"

definition packets_per_second :: "bool \<Rightarrow> u8 \<Rightarrow> int option" where
  "packets_per_second hs interval =
     (let per_second = (if hs then 8000 else 1000)
      in map_option (\<lambda>per_interval. if per_interval > 0 then per_second div per_interval else per_second)
           (if hs then shift_one (nat (if uint interval > 0 then uint interval - 1 else 0)) else Some (uint interval)))"

definition endpoint_bytes :: "u16 \<Rightarrow> int" where
  "endpoint_bytes mps = uint (mps AND 0x07FF) * (uint (drop_bit 11 mps AND 3) + 1)"

text \<open>Whether the nominal packet fits the endpoint; \<open>None\<close> is the undefined shift, or the division by
  zero of an endpoint with no packet per second.\<close>

definition packet_fits :: "bool \<Rightarrow> int \<Rightarrow> int \<Rightarrow> endpoint_desc \<Rightarrow> bool option" where
  "packet_fits hs rate stride isoEp =
     (case packets_per_second hs (ep_bInterval isoEp) of
        None \<Rightarrow> None
      | Some pps \<Rightarrow>
          if pps = 0 then None
          else Some (cdiv (rate + pps - 1) pps * stride \<le> endpoint_bytes (wMaxPacketSize isoEp)))"

definition subslot_bytes :: "alt_scan \<Rightarrow> int \<Rightarrow> int" where
  "subslot_bytes s bits = (if as_subslot s \<noteq> 0 then as_subslot s else cdiv bits 8)"

definition playback_format ::
  "bool \<Rightarrow> u8 \<Rightarrow> topology \<Rightarrow> alt_desc \<Rightarrow> alt_scan \<Rightarrow> endpoint_desc \<Rightarrow> int \<Rightarrow> int \<Rightarrow> int \<Rightarrow> StreamFormat \<Rightarrow> StreamFormat" where
  "playback_format hs iface t alt s isoEp rate bits chans f =
     (let f1 = f\<lparr>sampleRateHz := rate, bitsPerSample := bits, bytesPerSample := subslot_bytes s bits, channels := chans,
            interfaceNumber := bInterfaceNumber alt, altSetting := bAlternateSetting alt,
            terminalLink := as_terminalLink s, endpointAddress := bEndpointAddress isoEp,
            syncEndpointAddress := bSynchAddress isoEp, maxPacketSize := wMaxPacketSize isoEp,
            clockSourceId := playback_clock t (as_terminalLink s), controlInterfaceNum := iface,
            candidateClockIds := candidate_clocks t, isHighSpeed := hs, bInterval := ep_bInterval isoEp,
            uacVersion := tp_uacVersion t\<rparr>
      in (case find (\<lambda>ep. is_iso ep \<and> is_in ep \<and> ep_usage ep = 1) (endpoints alt) of
            None \<Rightarrow> f1
          | Some fb \<Rightarrow> f1\<lparr>feedbackEndpointAddress := bEndpointAddress fb,
              feedbackMaxPacketSize := wMaxPacketSize fb, feedbackInterval := ep_bInterval fb\<rparr>))"

text \<open>The settings in order: the first that matches and fits wins.  The inventory grows on the way.\<close>

fun select_alts ::
  "bool \<Rightarrow> u8 \<Rightarrow> topology \<Rightarrow> int \<Rightarrow> int \<Rightarrow> int \<Rightarrow> int \<Rightarrow> StreamFormat \<Rightarrow> alt_desc list \<Rightarrow> ClockRateRange list \<Rightarrow>
   (StreamFormat option \<times> ClockRateRange list) option" where
  "select_alts hs iface t rate bits chans nbytes f [] rates = Some (None, rates)"
| "select_alts hs iface t rate bits chans nbytes f (alt # alts) rates =
     (if \<not> is_streaming_alt alt then select_alts hs iface t rate bits chans nbytes f alts rates
      else
        let s = walkExtra (alt_scan_visit (tp_uacVersion t) rate bits chans) (extra alt)
                  \<lparr>as_channels = 0, as_bits = 0, as_subslot = 0, as_terminalLink = 0,
                   as_rateOk = (tp_uacVersion t \<ge> 0x0200), as_rates = rates\<rparr>;
            skip = select_alts hs iface t rate bits chans nbytes f alts (as_rates s)
        in if nbytes > 0 \<and> as_subslot s \<noteq> nbytes then skip
           else if as_channels s \<noteq> chans \<or> as_bits s \<noteq> bits then skip
           else if \<not> as_rateOk s then skip
           else (case find (\<lambda>ep. is_iso ep \<and> \<not> is_in ep \<and> ep_usage ep = 0) (endpoints alt) of
                   None \<Rightarrow> skip
                 | Some isoEp \<Rightarrow>
                     (case packet_fits hs rate (subslot_bytes s bits * chans) isoEp of
                        None \<Rightarrow> None
                      | Some False \<Rightarrow> skip
                      | Some True \<Rightarrow> Some (Some (playback_format hs iface t alt s isoEp rate bits chans f), as_rates s))))"

definition selectAltSetting ::
  "usb_device \<Rightarrow> int \<Rightarrow> int \<Rightarrow> int \<Rightarrow> int \<Rightarrow> StreamFormat \<Rightarrow> driver \<Rightarrow> (StreamFormat option \<times> driver) option" where
  "selectAltSetting u rate bits chans nbytes f d =
     (case getConfig u of None \<Rightarrow> Some (None, d)
      | Some c \<Rightarrow> (case find_control c of None \<Rightarrow> Some (None, d)
          | Some (iface, t) \<Rightarrow>
              map_option (\<lambda>(found, rates). (found, ses_update (supportedRates_update (\<lambda>_. rates)) d))
                (select_alts (speedHigh u) iface t rate bits chans nbytes f (concat c) (supportedRates (ses d)))))"

section \<open>Capture alternate settings\<close>

record capture_walk =
  cp_channels :: int
  cp_bits :: int
  cp_bytes :: int
  cp_terminalLink :: u8

definition capture_walk_visit :: "u16 \<Rightarrow> bytes \<Rightarrow> nat \<Rightarrow> capture_walk \<Rightarrow> bool \<times> capture_walk" where
  "capture_walk_visit version p len s =
     (let s1 = (if isClassDescriptor p len CS_INTERFACE AS_GENERAL \<and> version \<ge> 0x0200 \<and> len \<ge> 11
                then s\<lparr>cp_terminalLink := (if len \<ge> 16 then p ! 3 else 0), cp_channels := uint (p ! 10)\<rparr> else s);
          s2 = (if isClassDescriptor p len CS_INTERFACE AS_FORMAT_TYPE \<and> len \<ge> 6 \<and> p ! 3 = FORMAT_TYPE_I
                then if version \<ge> 0x0200 then s1\<lparr>cp_bytes := uint (p ! 4), cp_bits := uint (p ! 5)\<rparr>
                     else if len \<ge> 7
                     then s1\<lparr>cp_channels := uint (p ! 4), cp_bytes := uint (p ! 5), cp_bits := uint (p ! 6)\<rparr>
                     else s1
                else s1)
      in (False, s2))"

record capture_choice =
  cc_alt :: alt_desc
  cc_ep :: endpoint_desc
  cc_channels :: int
  cc_implicit :: bool
  cc_clock :: u8

text \<open>One endpoint: the first usable one is taken, an implicit-feedback endpoint replaces it once.\<close>

definition choose_endpoint ::
  "StreamFormat \<Rightarrow> alt_desc \<Rightarrow> int \<Rightarrow> u8 \<Rightarrow> endpoint_desc \<Rightarrow> capture_choice option \<Rightarrow> capture_choice option" where
  "choose_endpoint pb alt chans clk ep chosen =
     (if \<not> is_iso ep \<or> \<not> is_in ep then chosen
      else if feedbackEndpointAddress pb = 0 \<and> syncEndpointAddress pb \<noteq> 0 \<and>
              bEndpointAddress ep \<noteq> syncEndpointAddress pb then chosen
      else if ep_usage ep \<noteq> 0 \<and> ep_usage ep \<noteq> 2 then chosen
      else if (case chosen of None \<Rightarrow> True | Some x \<Rightarrow> ep_usage ep = 2 \<and> \<not> cc_implicit x)
      then Some \<lparr>cc_alt = alt, cc_ep = ep, cc_channels = chans, cc_implicit = (ep_usage ep = 2), cc_clock = clk\<rparr>
      else chosen)"

definition choose_alt ::
  "StreamFormat \<Rightarrow> topology \<Rightarrow> alt_desc \<Rightarrow> capture_choice option \<Rightarrow> capture_choice option" where
  "choose_alt pb t alt chosen =
     (if \<not> is_streaming_alt alt then chosen
      else
        let s = walkExtra (capture_walk_visit (uacVersion pb)) (extra alt)
                  \<lparr>cp_channels = 0, cp_bits = 0, cp_bytes = 0, cp_terminalLink = 0\<rparr>;
            clk = resolveClock (tp_terminals t) (tp_clocks t) (cp_terminalLink s)
        in if terminalLink pb \<noteq> 0 \<and> cp_terminalLink s = terminalLink pb then chosen
           else if clockSourceId pb \<noteq> 0 \<and> clk \<noteq> 0 \<and> clk \<noteq> clockSourceId pb then chosen
           else if cp_channels s \<le> 0 \<or> cp_bits s \<noteq> bitsPerSample pb \<or> cp_bytes s \<noteq> bytesPerSample pb then chosen
           else fold (choose_endpoint pb alt (cp_channels s) clk) (endpoints alt) chosen)"

text \<open>The same walk over every AudioControl setting; the class version it also reads is not used here.\<close>

definition capture_topology :: "StreamFormat \<Rightarrow> config \<Rightarrow> topology" where
  "capture_topology pb c =
     (if uacVersion pb \<ge> 0x0200
      then fold (\<lambda>alt t. if is_control_alt alt then walkExtra topology_visit (extra alt) t else t) (concat c) emptyTopology
      else emptyTopology)"

definition selectCaptureAltSetting :: "usb_device \<Rightarrow> StreamFormat \<Rightarrow> StreamFormat option" where
  "selectCaptureAltSetting u pb =
     (case getConfig u of None \<Rightarrow> None
      | Some c \<Rightarrow>
          map_option (\<lambda>x. pb\<lparr>channels := cc_channels x, interfaceNumber := bInterfaceNumber (cc_alt x),
              altSetting := bAlternateSetting (cc_alt x), endpointAddress := bEndpointAddress (cc_ep x),
              maxPacketSize := wMaxPacketSize (cc_ep x), clockSourceId := cc_clock x,
              bInterval := ep_bInterval (cc_ep x), feedbackEndpointAddress := 0, implicitFeedback := cc_implicit x\<rparr>)
            (fold (choose_alt pb (capture_topology pb c)) (concat c) None))"

section \<open>Lemmas\<close>

lemma shift_one_signed: "n < 32 \<Longrightarrow> shift_one n = Some (signed_take_bit 31 (2 ^ n))"
proof -
  assume n: "n < 32"
  have "(push_bit n 1 :: u32) = word_of_int (2 ^ n)" by (simp add: push_bit_eq_mult)
  then show ?thesis using n by (simp add: shift_one_def sint_sbintrunc' del: of_int_power)
qed

lemma shift_one_small: "n < 31 \<Longrightarrow> shift_one n = Some (2 ^ n)"
proof -
  assume n: "n < 31"
  have "signed_take_bit 31 (2 ^ n :: int) = 2 ^ n"
  proof (rule signed_take_bit_int_eq_self)
    show "- (2 ^ 31) \<le> (2 ^ n :: int)" by (rule order_trans [of _ 0]) simp_all
    show "(2::int) ^ n < 2 ^ 31" using n by (intro power_strict_increasing) auto
  qed
  then show ?thesis using n by (simp add: shift_one_signed)
qed

lemma shift_one_sign: "shift_one 31 = Some (- (2 ^ 31))"
proof -
  have "signed_take_bit 31 (2 ^ 31 :: int) = - (2 ^ 31)" by code_simp
  then show ?thesis by (simp only: shift_one_signed)
qed

lemma packets_per_second_hs:
  fixes interval :: u8
  defines "b \<equiv> uint interval"
  shows "packets_per_second True interval =
    (if b \<le> 1 then Some 8000 else if b \<le> 31 then Some (8000 div 2 ^ nat (b - 1)) else if b = 32 then Some 8000 else None)"
proof -
  have b: "0 \<le> b" by (simp add: b_def)
  consider "b \<le> 1" | "1 < b" "b \<le> 31" | "b = 32" | "33 \<le> b" by linarith
  then show ?thesis
  proof cases
    case 1
    then have "b = 0 \<or> b = 1" using b by linarith
    then show ?thesis using shift_one_small [of 0]
      by (auto simp: packets_per_second_def Let_def b_def [symmetric])
  next
    case 2
    then show ?thesis using shift_one_small [of "nat (b - 1)"]
      by (simp add: packets_per_second_def Let_def b_def [symmetric])
  next
    case 3
    then show ?thesis using shift_one_sign by (simp add: packets_per_second_def Let_def b_def [symmetric])
  next
    case 4
    then have "\<not> nat (b - 1) < 32" by simp
    then show ?thesis using 4 by (simp add: packets_per_second_def Let_def shift_one_def b_def [symmetric])
  qed
qed

lemma eighth_millisecond_packets: "1 < b \<Longrightarrow> 8000 div (2::int) ^ nat (b - 1) = 0 \<longleftrightarrow> 14 \<le> b"
proof
  assume "14 \<le> b"
  then have "(2::int) ^ 13 \<le> 2 ^ nat (b - 1)" by (intro power_increasing) auto
  then show "8000 div (2::int) ^ nat (b - 1) = 0" by simp
next
  assume "1 < b" and a: "8000 div (2::int) ^ nat (b - 1) = 0"
  show "14 \<le> b"
  proof (rule ccontr)
    assume "\<not> 14 \<le> b"
    then have "(2::int) ^ nat (b - 1) \<le> 2 ^ 12" by (intro power_increasing) auto
    then have "8000 div (2::int) ^ 12 \<le> 8000 div 2 ^ nat (b - 1)" by (intro zdiv_mono2) auto
    then show False using a by simp
  qed
qed

text \<open>The intervals for which the code has no defined result: a division by zero from 14 to 31, an
  over-wide shift from 33 on.\<close>

definition undefined_interval :: "u8 \<Rightarrow> bool" where
  "undefined_interval b \<longleftrightarrow> 14 \<le> uint b \<and> uint b \<le> 31 \<or> 33 \<le> uint b"

lemma packet_fits_None:
  "packet_fits hs rate stride ep = None \<longleftrightarrow> hs \<and> undefined_interval (ep_bInterval ep)"
proof (cases hs)
  case True
  then show ?thesis using eighth_millisecond_packets [of "uint (ep_bInterval ep)"]
    by (auto simp: packet_fits_def packets_per_second_hs undefined_interval_def)
next
  case False
  have "1000 div b \<noteq> 0" if "0 < b" "b \<le> 255" for b :: int
    using that zdiv_mono2 [of 1000 b 255] by simp
  then show ?thesis using False uint_bounded [of "ep_bInterval ep"]
    by (auto simp: packet_fits_def packets_per_second_def)
qed

subsection \<open>What a setting advertises\<close>

text \<open>The class-specific descriptors of a setting, as the walk meets them.\<close>

definition descriptors_of :: "bytes \<Rightarrow> bytes list" where
  "descriptors_of ext = walkExtra (\<lambda>p len ds. (False, ds @ [take len p])) ext []"

lemma collect_append:
  "walkExtra (\<lambda>p len ds. (False, ds @ [take len p])) ext (xs @ ys) =
   xs @ walkExtra (\<lambda>p len ds. (False, ds @ [take len p])) ext ys"
proof (induction "\<lambda>(p::bytes) len ds. (False, ds @ [take len p])" ext ys rule: walkExtra.induct)
  case (1 ext ys)
  let ?len = "unat (ext ! 0)"
  show ?case
  proof (cases "length ext < 2 \<or> ?len < 2 \<or> ?len > length ext")
    case True
    then show ?thesis by (subst (1 2) walkExtra.simps) (auto simp: Let_def)
  next
    case False
    then show ?thesis using 1 [of ?len False "ys @ [take ?len ext]"]
      by (subst (1 2) walkExtra.simps) (simp add: Let_def)
  qed
qed

lemma descriptors_of_simps:
  "descriptors_of ext =
     (if length ext < 2 \<or> unat (ext ! 0) < 2 \<or> unat (ext ! 0) > length ext then []
      else take (unat (ext ! 0)) ext # descriptors_of (drop (unat (ext ! 0)) ext))"
  unfolding descriptors_of_def
  using collect_append [of _ "[take (unat (ext ! 0)) ext]" "[]"]
  by (subst walkExtra.simps) (auto simp: Let_def)

text \<open>A walk that never stops early keeps what every descriptor of the blob keeps.\<close>

lemma walkExtra_descriptors:
  assumes "P s" "\<And>p ext s. p \<in> set (descriptors_of ext0) \<Longrightarrow> take (length p) ext = p \<Longrightarrow> P s \<Longrightarrow> P (snd (cb ext (length p) s))"
  shows "P (walkExtra cb ext0 s)"
proof -
  have "(\<forall>p ext s. p \<in> set (descriptors_of ext0) \<longrightarrow> take (length p) ext = p \<longrightarrow> P s \<longrightarrow> P (snd (cb ext (length p) s))) \<longrightarrow>
    P s \<longrightarrow> P (walkExtra cb ext0 s)"
  proof (induction cb ext0 s rule: walkExtra.induct)
    case (1 cb ext s)
    show ?case
    proof (cases "length ext < 2 \<or> unat (ext ! 0) < 2 \<or> unat (ext ! 0) > length ext")
      case True
      then show ?thesis by (subst walkExtra.simps) (auto simp: Let_def)
    next
      case False
      define len where "len = unat (ext ! 0)"
      obtain stop s1 where s1: "cb ext len s = (stop, s1)" by fastforce
      have ds: "set (descriptors_of ext) = insert (take len ext) (set (descriptors_of (drop len ext)))"
        using False by (subst descriptors_of_simps) (simp add: len_def)
      have l: "length (take len ext) = len" "\<not> length ext < 2" "\<not> (len < 2 \<or> length ext < len)" using False by (simp_all add: len_def)
      show ?thesis
      proof (intro impI)
        assume keep: "\<forall>p exta s. p \<in> set (descriptors_of ext) \<longrightarrow> take (length p) exta = p \<longrightarrow> P s \<longrightarrow> P (snd (cb exta (length p) s))"
          and "P s"
        moreover have "take len ext \<in> set (descriptors_of ext)" by (simp add: ds)
        ultimately have "P s1" using l(1) s1 by (metis snd_conv)
        then show "P (walkExtra cb ext s)"
          using "1.IH" [OF l(2) len_def l(3) s1 [symmetric]] keep ds l(2,3) s1
          by (subst walkExtra.simps) (auto simp: Let_def len_def [symmetric])
      qed
    qed
  qed
  then show ?thesis using assms by blast
qed

definition format_type_I :: "bytes \<Rightarrow> bool" where
  "format_type_I q \<longleftrightarrow> 4 \<le> length q \<and> q ! 1 = CS_INTERFACE \<and> q ! 2 = AS_FORMAT_TYPE \<and> q ! 3 = FORMAT_TYPE_I"

definition lists_rate :: "int \<Rightarrow> bytes \<Rightarrow> bool" where
  "lists_rate rate q \<longleftrightarrow> format_type_I q \<and> 8 \<le> length q \<and>
     (if q ! 7 = 0 then 14 \<le> length q \<and> le24_at q 8 \<le> u32_of_int rate \<and> u32_of_int rate \<le> le24_at q 11
      else \<exists>k < unat (q ! 7). 8 + 3 * k + 3 \<le> length q \<and> sint (le24_at q (8 + 3 * k)) = rate)"

text \<open>The descriptors of a setting carry this channel count, width and subslot size: from version 2 on in an
  AS\_GENERAL and a format descriptor, before in the format descriptor, next to the rates.\<close>

definition advertises :: "u16 \<Rightarrow> bytes \<Rightarrow> int \<Rightarrow> int \<Rightarrow> int \<Rightarrow> int \<Rightarrow> bool" where
  "advertises version ext rate chans bits subslot \<longleftrightarrow>
     (if version \<ge> 0x0200
      then (\<exists>p\<in>set (descriptors_of ext). 16 \<le> length p \<and> p ! 1 = CS_INTERFACE \<and> p ! 2 = AS_GENERAL \<and> uint (p ! 10) = chans) \<and>
           (\<exists>q\<in>set (descriptors_of ext). format_type_I q \<and> 6 \<le> length q \<and> uint (q ! 4) = subslot \<and> uint (q ! 5) = bits)
      else (\<exists>q\<in>set (descriptors_of ext). format_type_I q \<and> 7 \<le> length q \<and>
             uint (q ! 4) = chans \<and> uint (q ! 5) = subslot \<and> uint (q ! 6) = bits) \<and>
           (\<exists>q\<in>set (descriptors_of ext). lists_rate rate q))"

definition scan_backed :: "u16 \<Rightarrow> bytes \<Rightarrow> int \<Rightarrow> alt_scan \<Rightarrow> bool" where
  "scan_backed version ext rate s \<longleftrightarrow>
     (if version \<ge> 0x0200
      then (as_channels s = 0 \<or> (\<exists>p\<in>set (descriptors_of ext). 16 \<le> length p \<and> p ! 1 = CS_INTERFACE \<and> p ! 2 = AS_GENERAL \<and>
              uint (p ! 10) = as_channels s)) \<and>
           (as_bits s = 0 \<or> (\<exists>q\<in>set (descriptors_of ext). format_type_I q \<and> 6 \<le> length q \<and>
              uint (q ! 4) = as_subslot s \<and> uint (q ! 5) = as_bits s))
      else (as_bits s = 0 \<or> (\<exists>q\<in>set (descriptors_of ext). format_type_I q \<and> 7 \<le> length q \<and>
              uint (q ! 4) = as_channels s \<and> uint (q ! 5) = as_subslot s \<and> uint (q ! 6) = as_bits s)) \<and>
           (as_rateOk s \<longrightarrow> (\<exists>q\<in>set (descriptors_of ext). lists_rate rate q)))"

lemma nth_prefix: "take (length p) ext = p \<Longrightarrow> i < length p \<Longrightarrow> ext ! i = p ! i"
  by (metis nth_take)

lemma le24_at_take: "take (length p) ext = p \<Longrightarrow> off + 3 \<le> length p \<Longrightarrow> le24_at ext off = le24_at p off"
  by (simp add: le24_at_def nth_prefix)

lemma rate_table_lists:
  assumes "take (length p) ext = p" "hz \<in> set (rate_table ext (length p))" "8 \<le> length p"
  shows "\<exists>k < unat (p ! 7). 8 + 3 * k + 3 \<le> length p \<and> le24_at p (8 + 3 * k) = hz"
proof -
  obtain k where k: "k \<in> set (takeWhile (\<lambda>k. 8 + k * 3 + 3 \<le> length p) [0..<unat (ext ! 7)])" "hz = le24_at ext (8 + k * 3)"
    using assms(2) by (auto simp: rate_table_def)
  from k(1) have "k \<in> set [0..<unat (ext ! 7)]" "8 + k * 3 + 3 \<le> length p"
    by (blast dest: set_takeWhileD)+
  then show ?thesis
    using k(2) assms(1,3) le24_at_take [of p ext "8 + k * 3"] nth_prefix [of p ext 7]
    by (intro exI [of _ k]) (simp add: mult.commute)
qed

lemma scan_rate_table_fields:
  "as_channels (scan_rate_table rate listed p len s) = as_channels s"
  "as_bits (scan_rate_table rate listed p len s) = as_bits s"
  "as_subslot (scan_rate_table rate listed p len s) = as_subslot s"
  by (simp_all add: scan_rate_table_def Let_def)

lemma scan_rate_table_lists:
  assumes "as_rateOk (scan_rate_table rate listed ext (length p) s)" "take (length p) ext = p" "format_type_I p"
  shows "as_rateOk s \<or> lists_rate rate p"
proof (cases "length p < 8")
  case True
  then show ?thesis using assms(1) by (simp add: scan_rate_table_def)
next
  case False
  then have n: "ext ! 7 = p ! 7" using assms(2) by (simp add: nth_prefix)
  show ?thesis
  proof (cases "p ! 7 = 0")
    case True
    then show ?thesis using assms False n
      by (auto simp: scan_rate_table_def lists_rate_def Let_def le24_at_take split: if_splits)
  next
    case nz: False
    then have "\<exists>hz\<in>set (rate_table ext (length p)). sint hz = rate"
      using assms(1) False n by (simp add: scan_rate_table_def)
    then show ?thesis using rate_table_lists [OF assms(2)] assms(3) False nz by (force simp: lists_rate_def)
  qed
qed

lemma scan_visit_backed:
  assumes m: "p \<in> set (descriptors_of ext0)" and p: "take (length p) ext = p" and s: "scan_backed version ext0 rate s"
  shows "scan_backed version ext0 rate (snd (alt_scan_visit version rate bits chans ext (length p) s))"
proof -
  note nth = nth_prefix [OF p]
  consider (general) "isClassDescriptor ext (length p) CS_INTERFACE AS_GENERAL"
    | (format) "\<not> isClassDescriptor ext (length p) CS_INTERFACE AS_GENERAL" "isClassDescriptor ext (length p) CS_INTERFACE AS_FORMAT_TYPE"
        "4 \<le> length p" "ext ! 3 = FORMAT_TYPE_I"
    | (other) "\<not> isClassDescriptor ext (length p) CS_INTERFACE AS_GENERAL"
        "\<not> (isClassDescriptor ext (length p) CS_INTERFACE AS_FORMAT_TYPE \<and> 4 \<le> length p \<and> ext ! 3 = FORMAT_TYPE_I)"
    by blast
  then show ?thesis
  proof cases
    case general
    then show ?thesis using s m nth by (auto simp: alt_scan_visit_def scan_backed_def isClassDescriptor_def split: if_splits)
  next
    case format
    then have f: "format_type_I p" using nth by (simp add: format_type_I_def isClassDescriptor_def split: if_splits)
    define s' where "s' = s\<lparr>as_channels := uint (ext ! 4), as_subslot := uint (ext ! 5), as_bits := uint (ext ! 6)\<rparr>"
    show ?thesis
    proof (cases "version \<ge> 0x0200")
      case True
      then show ?thesis using s m f format nth by (auto simp: alt_scan_visit_def scan_backed_def)
    next
      case False
      then have v: "snd (alt_scan_visit version rate bits chans ext (length p) s) =
          (if 7 \<le> length p then scan_rate_table rate (uint (ext ! 4) = chans \<and> uint (ext ! 6) = bits) ext (length p) s' else s)"
        using format by (simp add: alt_scan_visit_def s'_def)
      have "as_rateOk s' = as_rateOk s" by (simp add: s'_def)
      then show ?thesis unfolding v
        using s m f nth False scan_rate_table_lists [OF _ p f, of rate _ s']
        by (auto simp: scan_backed_def scan_rate_table_fields) (auto simp: s'_def)
    qed
  next
    case other
    then have "snd (alt_scan_visit version rate bits chans ext (length p) s) = s"
      unfolding alt_scan_visit_def if_not_P [OF other(1)] if_not_P [OF other(2)] by simp
    then show ?thesis using s by simp
  qed
qed

text \<open>What a selected setting guarantees.\<close>

definition backed_by :: "usb_device \<Rightarrow> u16 \<Rightarrow> alt_desc list \<Rightarrow> int \<Rightarrow> int \<Rightarrow> int \<Rightarrow> int \<Rightarrow> StreamFormat \<Rightarrow> bool" where
  "backed_by u version alts rate bits chans nbytes f \<longleftrightarrow>
     sampleRateHz f = rate \<and> bitsPerSample f = bits \<and> channels f = chans \<and> isHighSpeed f = speedHigh u \<and>
     (\<exists>alt\<in>set alts. is_streaming_alt alt \<and> interfaceNumber f = bInterfaceNumber alt \<and> altSetting f = bAlternateSetting alt \<and>
       (\<exists>subslot. advertises version (extra alt) rate chans bits subslot \<and> (nbytes > 0 \<longrightarrow> subslot = nbytes) \<and>
          bytesPerSample f = (if subslot \<noteq> 0 then subslot else cdiv bits 8)) \<and>
       (\<exists>ep\<in>set (endpoints alt). is_iso ep \<and> \<not> is_in ep \<and> ep_usage ep = 0 \<and>
          endpointAddress f = bEndpointAddress ep \<and> bInterval f = ep_bInterval ep \<and> maxPacketSize f = wMaxPacketSize ep)) \<and>
     (\<exists>pps. packets_per_second (isHighSpeed f) (bInterval f) = Some pps \<and> 0 \<noteq> pps \<and>
        cdiv (rate + pps - 1) pps * strideOf f \<le> endpoint_bytes (maxPacketSize f))"

lemma playback_format_fields:
  "sampleRateHz (playback_format hs iface t alt s ep rate bits chans f) = rate"
  "bitsPerSample (playback_format hs iface t alt s ep rate bits chans f) = bits"
  "bytesPerSample (playback_format hs iface t alt s ep rate bits chans f) = subslot_bytes s bits"
  "channels (playback_format hs iface t alt s ep rate bits chans f) = chans"
  "isHighSpeed (playback_format hs iface t alt s ep rate bits chans f) = hs"
  "interfaceNumber (playback_format hs iface t alt s ep rate bits chans f) = bInterfaceNumber alt"
  "altSetting (playback_format hs iface t alt s ep rate bits chans f) = bAlternateSetting alt"
  "endpointAddress (playback_format hs iface t alt s ep rate bits chans f) = bEndpointAddress ep"
  "bInterval (playback_format hs iface t alt s ep rate bits chans f) = ep_bInterval ep"
  "maxPacketSize (playback_format hs iface t alt s ep rate bits chans f) = wMaxPacketSize ep"
  by (simp_all add: playback_format_def Let_def split: option.split)

lemma backed_by_playback_format:
  assumes "is_streaming_alt alt" "find (\<lambda>ep. is_iso ep \<and> \<not> is_in ep \<and> ep_usage ep = 0) (endpoints alt) = Some ep"
    and "packet_fits (speedHigh u) rate (subslot_bytes s bits * chans) ep = Some True"
    and "advertises version (extra alt) rate chans bits (as_subslot s)" "nbytes > 0 \<longrightarrow> as_subslot s = nbytes"
  shows "backed_by u version (alt # alts) rate bits chans nbytes (playback_format (speedHigh u) iface t alt s ep rate bits chans f)"
proof -
  obtain pps where "packets_per_second (speedHigh u) (ep_bInterval ep) = Some pps" "pps \<noteq> 0"
    "cdiv (rate + pps - 1) pps * (subslot_bytes s bits * chans) \<le> endpoint_bytes (wMaxPacketSize ep)"
    using assms(3) by (auto simp: packet_fits_def split: option.splits if_splits)
  then show ?thesis
    using assms(1,2,4,5) unfolding backed_by_def
    by (auto simp: playback_format_fields find_Some_iff strideOf_def mult.commute subslot_bytes_def)
qed

lemma backed_by_mono:
  "backed_by u version alts rate bits chans nbytes f \<Longrightarrow> backed_by u version (alt # alts) rate bits chans nbytes f"
  by (auto simp: backed_by_def)

text \<open>A scan that yields the requested channels, width and rate found them in the descriptors.\<close>

lemma scan_advertises:
  fixes version :: u16
  defines "scan \<equiv> \<lambda>alt rate bits chans rates. walkExtra (alt_scan_visit version rate bits chans) (extra alt)
      \<lparr>as_channels = 0, as_bits = 0, as_subslot = 0, as_terminalLink = 0, as_rateOk = (version \<ge> 0x0200), as_rates = rates\<rparr>"
  assumes "as_channels (scan alt rate bits chans rates) = chans" "as_bits (scan alt rate bits chans rates) = bits"
    and "as_rateOk (scan alt rate bits chans rates)" "0 < chans" "0 < bits"
  shows "advertises version (extra alt) rate chans bits (as_subslot (scan alt rate bits chans rates))"
proof -
  have "scan_backed version (extra alt) rate (scan alt rate bits chans rates)"
    unfolding scan_def
    by (rule walkExtra_descriptors [where P = "scan_backed version (extra alt) rate"])
      (simp add: scan_backed_def, rule scan_visit_backed)
  then show ?thesis using assms(2-) by (auto simp: scan_backed_def advertises_def split: if_splits)
qed

lemma select_alts_sound:
  assumes "0 < chans" "0 < bits"
  shows "select_alts (speedHigh u) iface t rate bits chans nbytes f alts rates = Some (Some f', rates') \<Longrightarrow>
   backed_by u (tp_uacVersion t) alts rate bits chans nbytes f'"
proof (induction alts arbitrary: rates)
  case (Cons alt alts)
  define s where "s = walkExtra (alt_scan_visit (tp_uacVersion t) rate bits chans) (extra alt)
      \<lparr>as_channels = 0, as_bits = 0, as_subslot = 0, as_terminalLink = 0, as_rateOk = (tp_uacVersion t \<ge> 0x0200), as_rates = rates\<rparr>"
  note adv = scan_advertises [where version = "tp_uacVersion t" and alt = alt and rates = rates, OF _ _ _ assms, of rate, folded s_def]
  have skip: ?case if "select_alts (speedHigh u) iface t rate bits chans nbytes f alts r = Some (Some f', rates')" for r
    using Cons.IH [OF that] by (rule backed_by_mono)
  show ?case
  proof (cases "is_streaming_alt alt \<and> \<not> (nbytes > 0 \<and> as_subslot s \<noteq> nbytes) \<and> as_channels s = chans \<and> as_bits s = bits \<and> as_rateOk s")
    case False
    then show ?thesis using Cons.prems skip by (auto simp: Let_def s_def [symmetric] split: if_splits)
  next
    case True
    then have "advertises (tp_uacVersion t) (extra alt) rate chans bits (as_subslot s)" using adv by blast
    then show ?thesis using Cons.prems True skip
      by (auto simp: Let_def s_def [symmetric] intro!: backed_by_playback_format split: option.splits bool.splits)
  qed
qed simp

lemma select_alts_None:
  "select_alts hs iface t rate bits chans nbytes f alts rates = None \<Longrightarrow>
   hs \<and> (\<exists>alt\<in>set alts. is_streaming_alt alt \<and>
     (\<exists>ep\<in>set (endpoints alt). is_iso ep \<and> \<not> is_in ep \<and> undefined_interval (ep_bInterval ep)))"
proof (induction alts arbitrary: rates)
  case (Cons alt alts)
  then show ?case
    by (auto simp: Let_def packet_fits_None find_Some_iff split: if_splits option.splits bool.splits)
qed simp

section \<open>Properties\<close>

text \<open>C8. A setting that \<open>selectAltSetting\<close> reports is one the device has.  The descriptors of one
  streaming alternate setting carry the requested channel count and width (and, before version 2,
  the rate), its subslot size is the requested one when one was requested and the format's in
  any case, it has an isochronous OUT data endpoint of its own, and the packets the rate
  needs at that endpoint's interval fit its bandwidth.\<close>
theorem selectAltSetting_sound:
  assumes "selectAltSetting u rate bits chans nbytes f d = Some (Some f', d')" "0 < chans" "0 < bits"
  shows "\<exists>c iface t. getConfig u = Some c \<and> find_control c = Some (iface, t) \<and>
    backed_by u (tp_uacVersion t) (concat c) rate bits chans nbytes f'"
  using assms(1) select_alts_sound [OF assms(2,3)] unfolding selectAltSetting_def by (fastforce split: option.splits prod.splits)


text \<open>A UAC2 device with one stereo 16-bit setting whose endpoint has interval \<open>b\<close>.\<close>

definition demo_config :: "u8 \<Rightarrow> config" where
  "demo_config b =
     [[\<lparr>bInterfaceNumber = 0, bAlternateSetting = 0, bInterfaceClass = 1, bInterfaceSubClass = 1, endpoints = [],
        extra = [5, 0x24, 1, 0, 2]\<rparr>],
      [\<lparr>bInterfaceNumber = 1, bAlternateSetting = 1, bInterfaceClass = 1, bInterfaceSubClass = 2,
        endpoints = [\<lparr>bEndpointAddress = 1, bmAttributes = 5, wMaxPacketSize = 200, ep_bInterval = b, bSynchAddress = 0\<rparr>],
        extra = [16, 0x24, 1, 2, 0, 1, 0, 0, 0, 0, 2, 0, 0, 0, 0, 0, 6, 0x24, 2, 1, 2, 16]\<rparr>]]"

definition demo_device :: "u8 \<Rightarrow> usb_device" where
  "demo_device b = \<lparr>activeConfig = Some (demo_config b), config0 = None, speedHigh = True, deviceIds = None,
     maxIsoPacketSize = (\<lambda>_. 200), libusb_strerror = (\<lambda>_. ''error''), errnoText = ''''\<rparr>"

lemma demo_device_config:
  "find_control (demo_config 1) = Some (0, emptyTopology)"
  "find_control (demo_config 14) = Some (0, emptyTopology)"
  "map_option (\<lambda>x. fst x = None) (select_alts True 0 emptyTopology 48000 16 2 0 defaultStreamFormat
     (concat (demo_config 1)) []) = Some False"
  "select_alts True 0 emptyTopology 48000 16 2 0 defaultStreamFormat (concat (demo_config 14)) [] = None"
  by code_simp+

lemma demo_device_simps: "getConfig (demo_device b) = Some (demo_config b)" "speedHigh (demo_device b)"
  by (simp_all add: getConfig_def demo_device_def)

lemma newDriver_rates: "supportedRates (ses (newDriver a b)) = []"
  by (simp add: newDriver_def initSession_def)

lemma demo_device_select:
  "\<exists>f' d'. selectAltSetting (demo_device 1) 48000 16 2 0 defaultStreamFormat (newDriver 3 4) = Some (Some f', d')"
  using demo_device_config(3)
  by (auto simp: selectAltSetting_def demo_device_config(1,2) demo_device_simps newDriver_rates simp del: select_alts.simps)

lemma demo_device_crash: "selectAltSetting (demo_device 14) 48000 16 2 0 defaultStreamFormat (newDriver 3 4) = None"
  by (simp add: selectAltSetting_def demo_device_config(1,2,4) demo_device_simps newDriver_rates del: select_alts.simps)

theorem selectAltSetting_sound_witness:
  "\<exists>f'. backed_by (demo_device 1) 0x0200 (concat (demo_config 1)) 48000 16 2 0 f'"
proof -
  obtain f' d' where "selectAltSetting (demo_device 1) 48000 16 2 0 defaultStreamFormat (newDriver 3 4) = Some (Some f', d')"
    using demo_device_select by blast
  from selectAltSetting_sound [OF this] show ?thesis
    by (auto simp: demo_device_simps demo_device_config(1) emptyTopology_def)
qed


end
