(* ===== verification/Pumps.thy ===== *)
theory Pumps
  imports Alt_Select Streaming
begin

text \<open>
  The transfer pumps of \<^verbatim>\<open>src/libusb_uac_driver.cpp\<close>: allocation, priming, submission and bounded
  teardown of the capture and playback transfers, and the event loop that services them.

  \<open>libusb_handle_events_timeout\<close> runs the callbacks of the transfers that are due.  Which ones are,
  and with which results, is a parameter (\<open>event_source\<close>); the callbacks are the model's own
  handlers.  While a call waits for the event thread, the thread's work is such a round of
  callbacks too.  A transfer is identified by the position of its allocation on the bus.  Teardown
  loops stop at a deadline of the clock; \<open>spin_fuel\<close> bounds their rounds, as for the busy-wait of
  \<open>Completions\<close>.
\<close>

section \<open>Servicing\<close>

record event_source =
  due :: "driver \<Rightarrow> xfer list"
  callback_times :: "xfer \<Rightarrow> driver \<Rightarrow> u64 \<times> u64 \<times> u64"

definition complete :: "env \<Rightarrow> event_source \<Rightarrow> xfer \<Rightarrow> driver \<Rightarrow> driver" where
  "complete e s x d =
     (case xf_kind x of
        OutEndpoint \<Rightarrow> (case callback_times s x d of (cpuBegan, wallNs, cpuNs) \<Rightarrow>
                          onIsoTrampoline e cpuBegan wallNs cpuNs x d)
      | InEndpoint \<Rightarrow> onCapture e x d
      | FeedbackEndpoint \<Rightarrow> onFeedback e x d)"

definition handle_events :: "env \<Rightarrow> event_source \<Rightarrow> driver \<Rightarrow> driver" where
  "handle_events e s d = fold (complete e s) (due s d) d"

text \<open>\<open>RunqueueWaitFd::waitNs\<close>: the second number of \<^verbatim>\<open>schedstat\<close>; \<open>None\<close> when nothing could be read.\<close>

definition is_digit :: "char \<Rightarrow> bool" where
  "is_digit c \<longleftrightarrow> of_char c \<ge> (48 :: nat) \<and> of_char c \<le> (57 :: nat)"

definition waitNs :: "string option \<Rightarrow> u64" where
  "waitNs contents =
     (case contents of None \<Rightarrow> 0
      | Some s \<Rightarrow>
          let p = dropWhile (\<lambda>c. c = CHR '' '') (dropWhile is_digit (dropWhile (\<lambda>c. c = CHR '' '') s))
          in fold (\<lambda>c wait. wait * 10 + (of_nat (of_char c) - 48)) (takeWhile is_digit p) 0)"

text \<open>One iteration of \<open>runEventLoop\<close>: the arguments are the three readings of the runqueue wait
  and the wall time of the iteration.\<close>

definition event_loop_round :: "env \<Rightarrow> event_source \<Rightarrow> bool \<Rightarrow> u64 \<Rightarrow> u64 \<Rightarrow> u64 \<Rightarrow> u64 \<Rightarrow> driver \<Rightarrow> driver" where
  "event_loop_round e s measureRunqueue before after1 after2 spanNs d =
     (let d1 = handle_events e s (service_update (callbacksThisPoll_update (\<lambda>_. 0)) d);
          collected = callbacksThisPoll (service d1);
          d2 = service_update (maxCallbacksPerPoll_update (\<lambda>worst. if collected > worst then collected else worst)) d1
      in if measureRunqueue \<and> collected > 1
         then let waitedNs = (if after1 > before then after2 - before else 0) in
              if spanNs > worstMultiCollectSpanNs (service d2)
              then service_update (worstMultiCollectSpanNs_update (\<lambda>_. spanNs) \<circ>
                     worstMultiCollectRunqueueNs_update (\<lambda>_. waitedNs)) d2
              else d2
         else d2)"

definition ensureEventThread :: "driver \<Rightarrow> bool \<times> driver" where
  "ensureEventThread d = (True, ses_update (eventThread_update (\<lambda>_. True)) d)"

section \<open>Teardown\<close>

definition cancel_all :: "env \<Rightarrow> xfer list \<Rightarrow> driver \<Rightarrow> driver" where
  "cancel_all e xs d = fold (\<lambda>x d. snd (usb e (Cancel (xf_id x)) d)) xs d"

text \<open>Servicing events until the count is zero or the deadline has passed.\<close>

fun service_until :: "env \<Rightarrow> event_source \<Rightarrow> (driver \<Rightarrow> int) \<Rightarrow> u64 \<Rightarrow> nat \<Rightarrow> driver \<Rightarrow> driver" where
  "service_until e s cnt deadline 0 d = d"
| "service_until e s cnt deadline (Suc fuel) d =
     (if cnt d = 0 then d
      else (case monotonicNowNs e d of (now, d1) \<Rightarrow>
              if now < deadline then service_until e s cnt deadline fuel (handle_events e s d1) else d1))"

definition settle :: "env \<Rightarrow> event_source \<Rightarrow> (driver \<Rightarrow> int) \<Rightarrow> driver \<Rightarrow> driver" where
  "settle e s cnt d =
     (case monotonicNowNs e d of (now, d1) \<Rightarrow> service_until e s cnt (now + 500000000) (spin_fuel e) d1)"

definition outstanding :: "driver \<Rightarrow> int" where
  "outstanding d = inflight (led d)"

definition captureOutstanding :: "driver \<Rightarrow> int" where
  "captureOutstanding d = captureInflight (led d)"

definition count_lifecycle_failure :: "driver \<Rightarrow> driver" where
  "count_lifecycle_failure d = pcnt_update (lifecycleFailures_update (\<lambda>x. x + 1)) d"

text \<open>Joining the event thread lets it finish its round.\<close>

definition join_event_thread :: "env \<Rightarrow> event_source \<Rightarrow> driver \<Rightarrow> driver" where
  "join_event_thread e s d =
     (if eventThread (ses d)
      then ses_update (eventThread_update (\<lambda>_. False) \<circ> eventThreadTid_update (\<lambda>_. 0)) (handle_events e s d)
      else d)"

definition stopIsoPump :: "env \<Rightarrow> event_source \<Rightarrow> driver \<Rightarrow> bool \<times> driver" where
  "stopIsoPump e s d =
     (let d1 = mode_update (stopRequested_update (\<lambda>_. True)) d;
          d2 = settle e s outstanding
                 (cancel_all e (feedbackTransfers (ses d1)) (cancel_all e (transfers (ses d1)) d1))
      in if outstanding d2 \<noteq> 0 then (False, count_lifecycle_failure d2)
         else
           let d3 = join_event_thread e s d2
           in (True, d3\<lparr>pendingImplicit := [],
                 pcnt := (pcnt d3)\<lparr>pendingDepth := 0\<rparr>,
                 ses := (ses d3)\<lparr>transfers := [], feedbackTransfers := []\<rparr>,
                 led := (led d3)\<lparr>queuedOutFrames := 0\<rparr>,
                 mode := (mode d3)\<lparr>playbackStarted := False\<rparr>\<rparr>))"

definition stopCapturePump :: "env \<Rightarrow> event_source \<Rightarrow> driver \<Rightarrow> bool \<times> driver" where
  "stopCapturePump e s d =
     (let d1 = settle e s captureOutstanding (cancel_all e (captureTransfers (ses d)) d)
      in if captureOutstanding d1 \<noteq> 0 then (False, count_lifecycle_failure d1)
         else (True, d1\<lparr>ses := (ses d1)\<lparr>captureTransfers := []\<rparr>,
                       buf := (buf d1)\<lparr>captureMaxFramesPerPacket := 0, captureTransferFrames := 0\<rparr>\<rparr>))"

section \<open>The capture pump\<close>

definition blank_packet :: "u32 \<Rightarrow> iso_packet" where
  "blank_packet n = \<lparr>pk_length = n, pk_actual = 0, pk_status = Completed\<rparr>"

text \<open>A freshly allocated and filled transfer.\<close>

definition new_xfer :: "nat \<Rightarrow> endpoint_kind \<Rightarrow> nat \<Rightarrow> u32 list \<Rightarrow> xfer" where
  "new_xfer ident kind bufferBytes lengths =
     \<lparr>xf_id = ident, xf_kind = kind, xf_status = Completed, xf_buffer = replicate bufferBytes 0,
      xf_pkts = map blank_packet lengths\<rparr>"

fun alloc_capture :: "env \<Rightarrow> event_source \<Rightarrow> nat \<Rightarrow> int \<Rightarrow> int \<Rightarrow> driver \<Rightarrow> bool \<times> driver" where
  "alloc_capture e s 0 packets mps d = (True, d)"
| "alloc_capture e s (Suc n) packets mps d =
     (case usb e (Alloc packets) d of (rc, d1) \<Rightarrow>
        if rc \<noteq> 0
        then (False, snd (stopCapturePump e s
                (report_error IsoPumpAllocFailed ''libusb_alloc_transfer returned null for capture'' d1)))
        else alloc_capture e s n packets mps
               (ses_update (captureTransfers_update (\<lambda>xs. xs @ [new_xfer (length (bus d)) InEndpoint
                  (nat mps * nat packets) (replicate (nat packets) (u32_of_int mps))])) d1))"

fun submit_capture :: "env \<Rightarrow> event_source \<Rightarrow> usb_device \<Rightarrow> xfer list \<Rightarrow> driver \<Rightarrow> bool \<times> driver" where
  "submit_capture e s u [] d = (True, d)"
| "submit_capture e s u (x # xs) d =
     (case usb e (Submit x) (led_update (captureInflight_update (\<lambda>n. n + 1)) d) of (rc, d1) \<Rightarrow>
        if rc \<noteq> LIBUSB_SUCCESS
        then (False, snd (stopCapturePump e s
                (mode_update (captureActive_update (\<lambda>_. False) \<circ> stopRequested_update (\<lambda>_. True))
                   (report_error IsoPumpSubmitFailed (''capture transfer submit failed: '' @ libusb_strerror u rc)
                      (count_capture_error (retire_capture d1))))))
        else submit_capture e s u xs d1)"

definition startCapturePump :: "env \<Rightarrow> event_source \<Rightarrow> usb_device \<Rightarrow> driver \<Rightarrow> bool \<times> driver" where
  "startCapturePump e s u d =
     (let f = captureFormat d;
          mps = maxIsoPacketSize u (endpointAddress f);
          stride = strideOf f in
      if mps \<le> 0
      then (False, report_error IsoPumpAllocFailed ''capture endpoint has no usable isochronous packet size'' d)
      else if stride \<le> 0
      then (False, report_error IsoPumpAllocFailed ''capture format has no usable PCM frame stride'' d)
      else
        let pps = packetsPerSecondForInterval (isHighSpeed f) (uint (bInterval f));
            configured = ucPacketsPerTransfer (userspaceBufferConfig (buf d));
            packets = (if configured \<noteq> 0 then configured else packetsPerTransferForRate pps);
            nominalMax = cdiv (sampleRateHz f + pps - 1) pps;
            physicalMax = cdiv mps stride;
            d1 = buf_update (captureFrameStride_update (\<lambda>_. stride) \<circ> capturePacketsPerTransfer_update (\<lambda>_. packets)) d
        in if physicalMax < nominalMax
           then (False, report_error IsoPumpAllocFailed ''capture endpoint max packet cannot carry nominal frame cadence'' d1)
           else
             let maxFrames = min physicalMax (nominalMax + 1);
                 d2 = buf_update (captureMaxFramesPerPacket_update (\<lambda>_. maxFrames) \<circ>
                        captureTransferFrames_update (\<lambda>_. maxFrames * packets)) d1
             in case alloc_capture e s (nat (transferCount (buf d2))) packets mps d2 of (ok, d3) \<Rightarrow>
                  if \<not> ok then (False, d3)
                  else submit_capture e s u (captureTransfers (ses d3))
                         (mode_update (captureActive_update (\<lambda>_. True)) d3))"

section \<open>The playback pump\<close>

text \<open>Decimal text, for the details of error reports.\<close>

fun nat_digits :: "nat \<Rightarrow> string" where
  "nat_digits n = (if n < 10 then [char_of (48 + n)] else nat_digits (n div 10) @ [char_of (48 + n mod 10)])"

declare nat_digits.simps [simp del]

definition to_string :: "int \<Rightarrow> string" where
  "to_string n = (if n < 0 then ''-'' @ nat_digits (nat (- n)) else nat_digits (nat n))"

abbreviation (input) emdash :: string where "emdash \<equiv> [CHR 0xE2, CHR 0x80, CHR 0x94]"

text \<open>Packet cadence of the negotiated endpoint.\<close>

definition set_cadence :: "driver \<Rightarrow> driver" where
  "set_cadence d =
     (let f = fmt d;
          hostPeriodHz = (if isHighSpeed f then 8000 else 1000);
          exponent = min 15 (if bInterval f > 0 then uint (bInterval f) - 1 else 0);
          interval = (if isHighSpeed f then 2 ^ nat exponent else max 1 (uint (bInterval f)));
          perSec = max 1 (cdiv hostPeriodHz interval);
          configured = ucPacketsPerTransfer (userspaceBufferConfig (buf d));
          packets = (if configured \<noteq> 0 then configured else packetsPerTransferForRate perSec);
          nominalNs = (if sampleRateHz f > 0 then sint (word_of_int (cdiv (packets * 1000000000) perSec) :: u32) else 0);
          baseFrames = cdiv (sampleRateHz f) perSec;
          rateRemainder = sampleRateHz f - baseFrames * perSec;
          seed = push_bit 16 (u32_of_int baseFrames) +
                 u32_of_size (push_bit 16 (size_of_int rateRemainder) div size_of_int perSec)
      in d\<lparr>pace := (pace d)\<lparr>packetIntervalUframes := interval, microframesPerSec := perSec,
              nominalScheduler := scheduler_reset (u32_of_int (sampleRateHz f)) (u32_of_int perSec),
              framesPerUframe_q16 := seed, fracAccumulator_q16 := 0\<rparr>,
           buf := (buf d)\<lparr>playbackPacketsPerTransfer := packets\<rparr>,
           gaps := (gaps d)\<lparr>nominalTransferNs := nominalNs\<rparr>,
           pendingImplicit := [], pcnt := (pcnt d)\<lparr>pendingDepth := 0\<rparr>\<rparr>)"

definition nominal_max_frames :: "driver \<Rightarrow> int" where
  "nominal_max_frames d =
     (let perSec = microframesPerSec (pace d); base = cdiv (sampleRateHz (fmt d)) perSec
      in base + (if sampleRateHz (fmt d) - base * perSec > 0 then 1 else 0))"

text \<open>Initial packet lengths: the scheduler's cadence.\<close>

fun scheduled_lengths :: "nat \<Rightarrow> int \<Rightarrow> RationalPacketScheduler \<Rightarrow> u32 list \<times> RationalPacketScheduler" where
  "scheduled_lengths 0 stride sch = ([], sch)"
| "scheduled_lengths (Suc n) stride sch =
     (case scheduler_next sch of (f, sch1) \<Rightarrow>
        case scheduled_lengths n stride sch1 of (ls, sch2) \<Rightarrow> ((f * u32_of_int stride) # ls, sch2))"

fun alloc_playback :: "env \<Rightarrow> event_source \<Rightarrow> nat \<Rightarrow> int \<Rightarrow> int \<Rightarrow> driver \<Rightarrow> bool \<times> driver" where
  "alloc_playback e s 0 t stride d = (True, d)"
| "alloc_playback e s (Suc n) t stride d =
     (let packets = playbackPacketsPerTransfer (buf d) in
      case usb e (Alloc packets) d of (rc, d1) \<Rightarrow>
        if rc \<noteq> 0
        then (False, snd (stopIsoPump e s (report_error IsoPumpAllocFailed
                (''libusb_alloc_transfer returned null at transfer #'' @ to_string t @ '' '' @ emdash @ '' likely OOM'') d1)))
        else (case scheduled_lengths (nat packets) stride (nominalScheduler (pace d1)) of (lengths, sch) \<Rightarrow>
          alloc_playback e s n (t + 1) stride
            (ses_update (transfers_update (\<lambda>xs. xs @ [new_xfer (length (bus d)) OutEndpoint
                 (nat (maxFramesPerPacket (pace d1) * stride) * nat packets) lengths]))
              (pace_update (nominalScheduler_update (\<lambda>_. sch)) d1))))"

text \<open>The next nonzero entry of the metadata FIFO, capped at the packet capacity; empty entries are
  consumed.\<close>

function next_metadata :: "driver \<Rightarrow> int option \<times> driver" where
  "next_metadata d =
     (let r = implicitRead (fifo d) in
      if r = implicitWrite (fifo d) then (None, d)
      else
        let frames = min (sint (implicitFrames (fifo d) ! unat (r AND 255))) (maxFramesPerPacket (pace d));
            d1 = fifo_update (implicitRead_update (\<lambda>_. r + 1)) d
        in if frames \<le> 0 then next_metadata d1 else (Some frames, d1))"
  by pat_completeness auto
termination
proof (relation "measure (\<lambda>d. unat (implicitWrite (fifo d) - implicitRead (fifo d)))", goal_cases)
  case (2 d r frames d1)
  have "implicitWrite (fifo d) - r \<noteq> 0" using 2 by simp
  then have "unat (implicitWrite (fifo d) - r - 1) < unat (implicitWrite (fifo d) - r)"
    by (simp add: unat_minus_one unat_gt_0)
  moreover have "implicitWrite (fifo d1) - implicitRead (fifo d1) = implicitWrite (fifo d) - r - 1"
    using 2 by simp
  ultimately show ?case using 2(1) by simp
qed simp

declare next_metadata.simps [simp del]

fun metadata_lengths :: "nat \<Rightarrow> int \<Rightarrow> driver \<Rightarrow> u32 list option \<times> driver" where
  "metadata_lengths 0 stride d = (Some [], d)"
| "metadata_lengths (Suc n) stride d =
     (case next_metadata d of (None, d1) \<Rightarrow> (None, d1)
      | (Some frames, d1) \<Rightarrow>
          (case metadata_lengths n stride d1 of (None, d2) \<Rightarrow> (None, d2)
           | (Some ls, d2) \<Rightarrow> (Some (u32_of_int (frames * stride) # ls), d2)))"

fun plan_from_metadata :: "int \<Rightarrow> xfer list \<Rightarrow> driver \<Rightarrow> xfer list option \<times> driver" where
  "plan_from_metadata stride [] d = (Some [], d)"
| "plan_from_metadata stride (x # xs) d =
     (case metadata_lengths (length (xf_pkts x)) stride d of (None, d1) \<Rightarrow> (None, d1)
      | (Some ls, d1) \<Rightarrow>
          (case plan_from_metadata stride xs d1 of (None, d2) \<Rightarrow> (None, d2)
           | (Some ys, d2) \<Rightarrow> (Some (x\<lparr>xf_pkts := map2 (\<lambda>p n. p\<lparr>pk_length := n\<rparr>) (xf_pkts x) ls\<rparr> # ys), d2)))"

definition initial_frames :: "int \<Rightarrow> xfer list \<Rightarrow> int" where
  "initial_frames stride xs = (\<Sum>x\<leftarrow>xs. \<Sum>p\<leftarrow>xf_pkts x. cdiv (sint (pk_length p)) stride)"

text \<open>The exact initial frame count and the prime it calls for.\<close>

definition set_prime :: "int \<Rightarrow> driver \<Rightarrow> driver" where
  "set_prime stride d =
     (let exact = initial_frames stride (transfers (ses d));
          physicalFrames = cdiv (int kPlaybackRingBytes) (max 1 stride);
          maxPrime = max 0 (physicalFrames - graphQuantum (buf d))
      in buf_update (exactInitialPacketFrames_update (\<lambda>_. exact) \<circ>
           startupPrimeFrames_update (\<lambda>_. startupPlaybackPrimeFrames maxPrime exact (playbackTargetFrames (buf d)))) d)"

fun alloc_feedback :: "env \<Rightarrow> event_source \<Rightarrow> nat \<Rightarrow> driver \<Rightarrow> bool \<times> driver" where
  "alloc_feedback e s 0 d = (True, d)"
| "alloc_feedback e s (Suc n) d =
     (case usb e (Alloc 1) d of (rc, d1) \<Rightarrow>
        if rc \<noteq> 0
        then (False, snd (stopIsoPump e s
                (report_error IsoPumpAllocFailed ''libusb_alloc_transfer (feedback) returned null'' d1)))
        else
          let size = (if feedbackMaxPacketSize (fmt d1) > 0 then unat (feedbackMaxPacketSize (fmt d1)) else 4)
          in alloc_feedback e s n
               (ses_update (feedbackTransfers_update (\<lambda>xs. xs @ [new_xfer (length (bus d)) FeedbackEndpoint
                  size [of_nat size]])) d1))"

section \<open>Submission\<close>

text \<open>Filling the packets of one transfer from packet \<open>i\<close> on; \<open>off\<close> is the byte offset.\<close>

fun prime_packets :: "env \<Rightarrow> nat \<Rightarrow> nat \<Rightarrow> nat \<Rightarrow> xfer \<Rightarrow> driver \<Rightarrow> xfer \<times> driver" where
  "prime_packets e i 0 off x d = (x, d)"
| "prime_packets e i (Suc left) off x d =
     (let bytes = sint (pk_length (xf_pkts x ! i)) in
      case drainRing e bytes d of (out, d1) \<Rightarrow>
        prime_packets e (Suc i) left (off + nat bytes)
          (set_packet_length i (int (length out)) (x\<lparr>xf_buffer := memcpy_at off out (xf_buffer x)\<rparr>)) d1)"

fun prime_transfers :: "env \<Rightarrow> xfer list \<Rightarrow> driver \<Rightarrow> xfer list \<times> driver" where
  "prime_transfers e [] d = ([], d)"
| "prime_transfers e (x # xs) d =
     (case prime_packets e 0 (length (xf_pkts x)) 0 x d of (x1, d1) \<Rightarrow>
        case prime_transfers e xs d1 of (xs1, d2) \<Rightarrow> (x1 # xs1, d2))"

fun submit_feedback :: "env \<Rightarrow> event_source \<Rightarrow> usb_device \<Rightarrow> xfer list \<Rightarrow> driver \<Rightarrow> bool \<times> driver" where
  "submit_feedback e s u [] d = (True, d)"
| "submit_feedback e s u (x # xs) d =
     (case usb e (Submit x) (led_update (inflight_update (\<lambda>n. n + 1)) d) of (rc, d1) \<Rightarrow>
        if rc \<noteq> LIBUSB_SUCCESS
        then (False, snd (stopIsoPump e s (report_error IsoPumpSubmitFailed
                (''feedback transfer submit failed: '' @ libusb_strerror u rc) (retire_out d1))))
        else submit_feedback e s u xs d1)"

fun submit_playback :: "env \<Rightarrow> event_source \<Rightarrow> usb_device \<Rightarrow> xfer list \<Rightarrow> driver \<Rightarrow> bool \<times> driver" where
  "submit_playback e s u [] d = (True, d)"
| "submit_playback e s u (x # xs) d =
     (case usb e (Submit x) (led_update (inflight_update (\<lambda>n. n + 1)) d) of (rc, d1) \<Rightarrow>
        if rc \<noteq> LIBUSB_SUCCESS
        then (False, snd (stopIsoPump e s (report_error IsoPumpSubmitFailed
                (''playback transfer submit failed: '' @ libusb_strerror u rc) (retire_out d1))))
        else submit_playback e s u xs
               (led_update (queuedOutFrames_update (\<lambda>q. q + transfer_frames (strideOf (fmt d1)) x)) d1))"

definition submitIsoPump :: "env \<Rightarrow> event_source \<Rightarrow> usb_device \<Rightarrow> driver \<Rightarrow> bool \<times> driver" where
  "submitIsoPump e s u d =
     (if stopRequested (mode d) then (False, d)
      else if strideOf (fmt d) \<le> 0 \<or> startupPrimeFrames (buf d) > bufferedFrames d
      then (False, report_error IsoPumpSubmitFailed ''insufficient ring frames for initial playback prime'' d)
      else (case prime_transfers e (transfers (ses d)) d of (xs, d1) \<Rightarrow>
        let d2 = ses_update (transfers_update (\<lambda>_. xs)) d1 in
        case submit_feedback e s u (feedbackTransfers (ses d2)) d2 of (ok1, d3) \<Rightarrow>
          if \<not> ok1 then (False, d3)
          else (case submit_playback e s u xs d3 of (ok2, d4) \<Rightarrow>
            if \<not> ok2 then (False, d4)
            else (True, mode_update (playbackStarted_update (\<lambda>_. True) \<circ> streaming_update (\<lambda>_. True)) d4))))"

definition startPlayback :: "env \<Rightarrow> event_source \<Rightarrow> usb_device \<Rightarrow> driver \<Rightarrow> bool \<times> driver" where
  "startPlayback e s u d =
     (if playbackStarted (mode d) then (False, d)
      else (case submitIsoPump e s u (mode_update (playbackStarted_update (\<lambda>_. True)) d) of (ok, d1) \<Rightarrow>
              if ok then (True, d1) else (False, mode_update (playbackStarted_update (\<lambda>_. False)) d1)))"

definition startIsoPump :: "env \<Rightarrow> event_source \<Rightarrow> usb_device \<Rightarrow> bool \<Rightarrow> driver \<Rightarrow> bool \<times> driver" where
  "startIsoPump e s u submit d0 =
     (let d = set_cadence d0;
          stride = strideOf (fmt d);
          maxPacket = maxIsoPacketSize u (endpointAddress (fmt d));
          nominalMax = nominal_max_frames d in
      if stride \<le> 0 \<or> maxPacket \<le> 0
      then (False, report_error IsoPumpAllocFailed ''playback endpoint has no usable isochronous packet size'' d)
      else if cdiv maxPacket stride < nominalMax
      then (False, report_error IsoPumpAllocFailed ''playback endpoint max packet cannot carry nominal frame cadence'' d)
      else
        let d1 = pace_update (maxFramesPerPacket_update (\<lambda>_. min (cdiv maxPacket stride) (nominalMax + 1))) d in
        (case alloc_playback e s (nat (transferCount (buf d1))) 0 stride d1 of (ok, d2) \<Rightarrow>
          if \<not> ok then (False, d2)
          else
            let (plan, d3) = (if implicit_mode d2 then plan_from_metadata stride (transfers (ses d2)) d2
                              else (Some (transfers (ses d2)), d2)) in
            (case plan of
              None \<Rightarrow> (False, snd (stopIsoPump e s (report_error IsoPumpSubmitFailed
                        ''implicit-feedback metadata exhausted while priming output'' d3)))
            | Some xs \<Rightarrow>
                let d4 = set_prime stride (ses_update (transfers_update (\<lambda>_. xs)) d3) in
                (case (if feedbackEndpointAddress (fmt d4) \<noteq> 0 then alloc_feedback e s 2 d4 else (True, d4)) of (ok2, d5) \<Rightarrow>
                  if \<not> ok2 then (False, d5)
                  else let (_, d6) = ensureEventThread d5 in
                    if \<not> submit then (True, d6) else submitIsoPump e s u d6))))"

end
