(* ===== verification/Startup.thy ===== *)
theory Startup
  imports Pumps
begin

text \<open>
  From a prepared playback pump to the running pipeline: priming fills the initial transfers from the
  ring, submission hands them to libusb, and the result satisfies the invariant of \<open>Streaming\<close>, so
  that everything proved of the running pipeline holds from the first completion on.
\<close>

section \<open>Priming a transfer\<close>

text \<open>A transfer whose packets are planned to carry \<open>fs\<close> frames.\<close>

definition planned :: "driver \<Rightarrow> xfer \<Rightarrow> int list \<Rightarrow> bool" where
  "planned d x fs \<longleftrightarrow> map pk_length (xf_pkts x) = map (\<lambda>f. u32_of_int (f * strideOf (fmt d))) fs \<and>
     (\<forall>f\<in>set fs. 0 \<le> f \<and> f \<le> maxFramesPerPacket (pace d))"

lemma set_packet_length_same:
  assumes "i < length (xf_pkts x)" "pk_length (xf_pkts x ! i) = u32_of_int n"
  shows "set_packet_length i n x = x"
  using assms by (simp add: set_packet_length_def flip: assms(2))

lemma sint_packet_length: "0 \<le> n \<Longrightarrow> n \<le> INT_MAX \<Longrightarrow> sint (u32_of_int n) = n"
  by (simp add: u32_of_int_def sint_word32_id)

lemma drain_nothing:
  assumes ok: "pb_inv d" and dr: "drainRing e 0 d = (out, d1)"
  shows "out = []" "pb_inv d1" "ring d1 = ring d" "drain_frame d d1"
proof -
  have p: "playback_ok d" using ok by (simp add: pb_inv_def)
  have "drainRing e (int 0 * strideOf (fmt d)) d = (out, d1)" using dr by simp
  note s = drainRing_step [OF p _ this]
  show o: "out = []" using s(1) by simp
  show df: "drain_frame d d1" using dr by (rule drainRing_drain_frame)
  show "ring d1 = ring d"
    using dr o by (auto simp: drainRing_def drain_copy_def Let_def size_of_int_def int_of_size_def split: prod.splits if_splits)
  show "pb_inv d1"
    using ok s(3-5) df by (simp add: pb_inv_def drain_frame_def)
qed

text \<open>One packet of the prime loop fills what \<open>ship_packet\<close> would fill, and the running offset stays
  where libusb expects the next packet.\<close>

lemma prime_packet_step:
  assumes law: "packet_law e" and room: "has_room d x i (Suc k) m" and f: "0 \<le> f" "f \<le> m"
    and q: "nat f \<le> queued_frames d" and len: "pk_length (xf_pkts x ! i) = u32_of_int (f * strideOf (fmt d))"
    and dr: "drainRing e (f * strideOf (fmt d)) d = (out, d1)"
  defines "x1 \<equiv> set_packet_length i (int (length out)) (x\<lparr>xf_buffer := memcpy_at (packet_start x i) out (xf_buffer x)\<rparr>)"
  shows "has_room d1 x1 (Suc i) k m" "packet_start x1 (Suc i) = packet_start x i + nat (f * strideOf (fmt d))"
    and "queued_frames d1 = queued_frames d - nat f" "strideOf (fmt d1) = strideOf (fmt d)"
    and "\<And>fs x' d'. carries d1 x1 (Suc i) fs x' d' \<Longrightarrow> carries d x i (f # fs) x' d'"
    and "\<forall>j. j \<noteq> i \<longrightarrow> xf_pkts x1 ! j = xf_pkts x ! j"
proof -
  have il: "i < length (xf_pkts x)" and ok: "pb_inv d" and mb: "m * strideOf (fmt d) \<le> INT_MAX"
    and rm: "packet_start x i + Suc k * (nat m * frameBytes d) \<le> length (xf_buffer x)"
    using room by (simp_all add: has_room_def)
  have st: "stride_ok d" using ok by (simp add: pb_inv_def playback_ok_def)
  have same: "set_packet_length i (f * strideOf (fmt d)) x = x" by (rule set_packet_length_same [OF il len])
  have fb: "f * strideOf (fmt d) \<le> INT_MAX"
    using st by (intro order_trans [OF mult_right_mono [OF f(2)] mb]) (simp add: stride_ok_def)
  have nb: "nat (f * strideOf (fmt d)) = nat f * frameBytes d" using f(1) by (simp add: nat_mult_distrib frameBytes_def)
  have "nat f * frameBytes d \<le> nat m * frameBytes d" using f by (intro mult_le_mono1) simp
  then have rm1: "packet_start x i + nat f * frameBytes d \<le> length (xf_buffer x)"
    using rm unfolding mult_Suc by linarith
  define d0 where "d0 = (if f = 0 then d else d1)"
  have ship: "ship_packet e i f x d = (x1, d0)" and d0: "ring d1 = ring d0" "drain_frame d0 d1" "pb_inv d1"
  proof -
    consider "f = 0" | "f > 0" using f by linarith
    then have "ship_packet e i f x d = (x1, d0) \<and> ring d1 = ring d0 \<and> drain_frame d0 d1 \<and> pb_inv d1"
    proof cases
      case 1
      then have dr0: "drainRing e 0 d = (out, d1)" using dr by simp
      note z = drain_nothing [OF ok dr0]
      have "set_packet_length i 0 x = x" using same 1 by simp
      then show ?thesis using 1 z by (simp add: ship_packet_def Let_def x1_def d0_def)
    next
      case 2
      then have "0 < f * strideOf (fmt d)" using st by (simp add: stride_ok_def)
      moreover have "packet_offset e x i = packet_start x i" using law il by (simp add: packet_law_def)
      ultimately have s: "ship_packet e i f x d = (x1, d1)"
        by (simp add: ship_packet_def Let_def same dr x1_def)
      then show ?thesis using ship_packet_step(2) [OF law ok il f(1) fb rm1 s] 2 by (simp add: d0_def)
    qed
    then show "ship_packet e i f x d = (x1, d0)" "ring d1 = ring d0" "drain_frame d0 d1" "pb_inv d1" by simp_all
  qed
  note p = ship_packet_step [OF law ok il f(1) fb rm1 ship]
  note r = ship_packet_room [OF law room f ship]
  have fb1: "frameBytes d1 = frameBytes d0" "strideOf (fmt d1) = strideOf (fmt d0)" "strideOf (fmt d0) = strideOf (fmt d)"
    using frame_bytes [OF d0(2)] frame_bytes [OF p(3)] by simp_all
  show "has_room d1 x1 (Suc i) k m" using r(1) d0(3) by (simp add: has_room_def fb1)
  show "packet_start x1 (Suc i) = packet_start x i + nat (f * strideOf (fmt d))"
    using p(1) q nb by auto
  show "queued_frames d1 = queued_frames d - nat f"
    using p(4) q d0(1) fb1 by (simp add: queued_frames_def)
  show "strideOf (fmt d1) = strideOf (fmt d)" using fb1 by simp
  show "\<And>fs x' d'. carries d1 x1 (Suc i) fs x' d' \<Longrightarrow> carries d x i (f # fs) x' d'"
    using r(2) carries_change [OF _ d0(2,1)] by blast
  show "\<forall>j. j \<noteq> i \<longrightarrow> xf_pkts x1 ! j = xf_pkts x ! j" by (rule p(9))
qed

lemma prime_packets_carries:
  assumes law: "packet_law e"
  shows "prime_packets e i (length fs) (packet_start x i) x d = (x', d') \<Longrightarrow> has_room d x i (length fs) m \<Longrightarrow>
    (\<forall>f\<in>set fs. 0 \<le> f \<and> f \<le> m) \<Longrightarrow> sum_list (map nat fs) \<le> queued_frames d \<Longrightarrow>
    (\<forall>j<length fs. pk_length (xf_pkts x ! (i + j)) = u32_of_int (fs ! j * strideOf (fmt d))) \<Longrightarrow>
    carries d x i fs x' d'"
proof (induction fs arbitrary: i x d)
  case Nil
  then show ?case by (simp add: carries_Nil has_room_def)
next
  case (Cons f fs)
  have room: "has_room d x i (Suc (length fs)) m" and f: "0 \<le> f" "f \<le> m" and q: "nat f \<le> queued_frames d"
    and len: "pk_length (xf_pkts x ! i) = u32_of_int (f * strideOf (fmt d))"
    using Cons.prems(2-5) by fastforce+
  have st: "stride_ok d" using room by (simp add: has_room_def pb_inv_def playback_ok_def)
  have "f * strideOf (fmt d) \<le> INT_MAX"
    using room f st by (intro order_trans [OF mult_right_mono [OF f(2)]]) (simp_all add: has_room_def stride_ok_def)
  then have b: "sint (pk_length (xf_pkts x ! i)) = f * strideOf (fmt d)"
    unfolding len using f st by (intro sint_packet_length) (simp_all add: stride_ok_def)
  obtain out d1 where dr: "drainRing e (f * strideOf (fmt d)) d = (out, d1)" by fastforce
  define x1 where "x1 = set_packet_length i (int (length out)) (x\<lparr>xf_buffer := memcpy_at (packet_start x i) out (xf_buffer x)\<rparr>)"
  note p = prime_packet_step [OF law room f q len dr, folded x1_def]
  have rest: "prime_packets e (Suc i) (length fs) (packet_start x1 (Suc i)) x1 d1 = (x', d')"
    using Cons.prems(1) by (simp add: Let_def b dr x1_def [symmetric] p(2))
  have "carries d1 x1 (Suc i) fs x' d'"
  proof (rule Cons.IH [OF rest p(1)])
    show "\<forall>f\<in>set fs. 0 \<le> f \<and> f \<le> m" using Cons.prems(3) by simp
    show "sum_list (map nat fs) \<le> queued_frames d1" using Cons.prems(4) p(3) by simp
    show "\<forall>j<length fs. pk_length (xf_pkts x1 ! (Suc i + j)) = u32_of_int (fs ! j * strideOf (fmt d1))"
      using Cons.prems(5) p(4,6) by fastforce
  qed
  then show ?case by (rule p(5))
qed

lemma carries_queued:
  assumes "pb_inv d" "carries d x i fs x' d'" "sum_list (map nat fs) \<le> queued_frames d"
  shows "queued_frames d' = queued_frames d - sum_list (map nat fs)"
proof -
  obtain out where out: "out @ ring_contents (ring d') = ring_contents (ring d)"
    "length out = sum_list (map nat fs) * frameBytes d"
    using assms(2) shipped_frames_full [OF assms(3)] by (auto simp: carries_def)
  have fb: "frameBytes d' = frameBytes d" using assms(2) frame_bytes by (simp add: carries_def)
  have pos: "0 < frameBytes d" and dv: "frameBytes d dvd ring_len (ring d)"
    using assms(1) by (simp_all add: pb_inv_def playback_ok_def stride_ok_def frameBytes_def)
  have "length out + ring_len (ring d') = ring_len (ring d)"
    using arg_cong [OF out(1), of length] by (simp add: ring_contents_def)
  then have "ring_len (ring d') = (queued_frames d - sum_list (map nat fs)) * frameBytes d"
    using out(2) dv by (simp add: queued_frames_def diff_mult_distrib)
  then show ?thesis using pos fb by (simp add: queued_frames_def)
qed

section \<open>Priming all transfers\<close>

definition filled :: "driver \<Rightarrow> xfer list \<Rightarrow> xfer list \<Rightarrow> driver \<Rightarrow> bool" where
  "filled d xs xs' d' \<longleftrightarrow>
     concat (map payload xs') @ ring_contents (ring d') = ring_contents (ring d) \<and>
     transport_ok d' \<and> (\<forall>x\<in>set xs'. xfer_ok d' x) \<and> drain_frame d d' \<and> length xs' = length xs"

lemma filled_Cons:
  assumes ok: "transport_ok d" and c: "carries d x 0 fs x1 d1" and x: "xfer_ok d x" and l: "length fs = length (xf_pkts x)"
    and f: "filled d1 xs xs' d'"
  shows "filled d (x # xs) (x1 # xs') d'"
proof -
  note t = carries_transfer [OF ok x c l]
  have "xfer_ok d' x1 = xfer_ok d1 x1"
    using f by (intro xfer_ok_cong) (simp_all add: filled_def drain_frame_def)
  then show ?thesis
    using t(1,3,4) f drain_frame_trans [of d d1 d'] by (simp add: filled_def)
qed

lemma planned_cong:
  "drain_frame d d1 \<Longrightarrow> planned d1 x fs = planned d x fs" "drain_frame d d1 \<Longrightarrow> xfer_ok d1 x = xfer_ok d x"
  by (simp_all add: planned_def drain_frame_def xfer_ok_def frameBytes_def)

lemma planned_nth:
  assumes "planned d x fs"
  shows "\<forall>j<length fs. pk_length (xf_pkts x ! (0 + j)) = u32_of_int (fs ! j * strideOf (fmt d))"
proof (intro allI impI)
  fix j assume j: "j < length fs"
  have e: "map pk_length (xf_pkts x) = map (\<lambda>f. u32_of_int (f * strideOf (fmt d))) fs" using assms by (simp add: planned_def)
  then have "length (xf_pkts x) = length fs" by (metis length_map)
  then show "pk_length (xf_pkts x ! (0 + j)) = u32_of_int (fs ! j * strideOf (fmt d))"
    using arg_cong [OF e, of "\<lambda>l. l ! j"] j by simp
qed

lemma planned_length: "planned d x fs \<Longrightarrow> length fs = length (xf_pkts x)"
  by (auto simp: planned_def dest: map_eq_imp_length_eq)

lemma prime_transfers_filled:
  assumes law: "packet_law e"
  shows "prime_transfers e xs d = (xs', d') \<Longrightarrow> transport_ok d \<Longrightarrow> \<forall>x\<in>set xs. xfer_ok d x \<Longrightarrow>
    list_all2 (planned d) xs fss \<Longrightarrow> sum_list (map nat (concat fss)) \<le> queued_frames d \<Longrightarrow> filled d xs xs' d'"
proof (induction xs arbitrary: d xs' fss)
  case Nil
  then show ?case by (simp add: filled_def)
next
  case (Cons x xs)
  obtain fs fss' where fss: "fss = fs # fss'" and pl: "planned d x fs" and pls: "list_all2 (planned d) xs fss'"
    using Cons.prems(4) by (auto simp: list_all2_Cons1)
  obtain x1 d1 where p: "prime_packets e 0 (length (xf_pkts x)) 0 x d = (x1, d1)" by fastforce
  obtain ys where ys: "prime_transfers e xs d1 = (ys, d')" "xs' = x1 # ys"
    using Cons.prems(1) p by (auto split: prod.splits)
  have l: "length fs = length (xf_pkts x)" using pl by (rule planned_length)
  have q: "sum_list (map nat fs) \<le> queued_frames d" using Cons.prems(5) fss by simp
  have xo: "xfer_ok d x" using Cons.prems(3) by simp
  have c: "carries d x 0 fs x1 d1"
  proof (rule prime_packets_carries [OF law])
    show "prime_packets e 0 (length fs) (packet_start x 0) x d = (x1, d1)" using p l by (simp add: packet_start_0)
    show "has_room d x 0 (length fs) (maxFramesPerPacket (pace d))" using xfer_room [OF Cons.prems(2) xo] l by simp
    show "\<forall>f\<in>set fs. 0 \<le> f \<and> f \<le> maxFramesPerPacket (pace d)" using pl by (simp add: planned_def)
    show "sum_list (map nat fs) \<le> queued_frames d" by (rule q)
    show "\<forall>j<length fs. pk_length (xf_pkts x ! (0 + j)) = u32_of_int (fs ! j * strideOf (fmt d))"
      using pl by (rule planned_nth)
  qed
  note t = carries_transfer [OF Cons.prems(2) xo c l]
  have pb: "pb_inv d" using Cons.prems(2) by (simp add: transport_ok_def)
  have "filled d1 xs ys d'"
  proof (rule Cons.IH [OF ys(1) t(2)])
    show "\<forall>x\<in>set xs. xfer_ok d1 x" using Cons.prems(3) planned_cong(2) [OF t(4)] by simp
    show "list_all2 (planned d1) xs fss'"
      using pls by (rule list_all2_mono) (simp add: planned_cong(1) [OF t(4)])
    show "sum_list (map nat (concat fss')) \<le> queued_frames d1"
      using Cons.prems(5) fss carries_queued [OF pb c q] by simp
  qed
  then show ?case using filled_Cons [OF Cons.prems(2) c xo l] ys(2) by simp
qed

section \<open>Submission\<close>

lemma submit_feedback_ok:
  "submit_feedback e s u xs d = (True, d') \<Longrightarrow>
   d' = d\<lparr>bus := bus d @ map (\<lambda>x. (Submit x, 0)) xs, led := (led d)\<lparr>inflight := inflight (led d) + int (length xs)\<rparr>\<rparr>"
proof (induction xs arbitrary: d)
  case (Cons x xs)
  then have "submit_feedback e s u xs (led_update (inflight_update (\<lambda>n. n + 1)) d\<lparr>bus := bus d @ [(Submit x, 0)]\<rparr>) = (True, d')"
    by (auto simp: usb_def Let_def split: if_splits)
  from Cons.IH [OF this] show ?case by (simp add: add.assoc)
qed simp

lemma submit_playback_ok:
  "submit_playback e s u xs d = (True, d') \<Longrightarrow>
   d' = d\<lparr>bus := bus d @ map (\<lambda>x. (Submit x, 0)) xs,
          led := (led d)\<lparr>inflight := inflight (led d) + int (length xs),
                         queuedOutFrames := queuedOutFrames (led d) + frames_sum d xs\<rparr>\<rparr>"
proof (induction xs arbitrary: d)
  case (Cons x xs)
  then have "submit_playback e s u xs (led_update (queuedOutFrames_update (\<lambda>q. q + transfer_frames (strideOf (fmt d)) x) \<circ>
      inflight_update (\<lambda>n. n + 1)) (d\<lparr>bus := bus d @ [(Submit x, 0)]\<rparr>)) = (True, d')"
    by (auto simp: usb_def Let_def split: if_splits)
  from Cons.IH [OF this] show ?case by (simp add: add.assoc frames_sum_def)
qed simp

lemma submitted_all:
  "submitted_xfers k (map (\<lambda>x. (Submit x, 0)) xs) = filter (\<lambda>x. xf_kind x = k) xs"
  by (induction xs) (auto simp: submitted_xfers_def)

section \<open>Starting playback\<close>

text \<open>A prepared pump: the state \<open>startIsoPump\<close> leaves when it does not submit.  The pipeline is well
  formed and idle, the packets of the allocated transfers carry the frames \<open>fss\<close>, and the prime
  covers them.\<close>

definition playback_ready :: "driver \<Rightarrow> int list list \<Rightarrow> bool" where
  "playback_ready d fss \<longleftrightarrow>
     pipeline_ok d \<and> capture_ok d \<and> \<not> transportFailed (mode d) \<and> pendingImplicit d = [] \<and>
     inflight (led d) = 0 \<and> queuedOutFrames (led d) = 0 \<and> length (transfers (ses d)) \<le> 8 \<and>
     (\<forall>x\<in>set (transfers (ses d)). xfer_ok d x) \<and> list_all2 (planned d) (transfers (ses d)) fss \<and>
     int (sum_list (map nat (concat fss))) \<le> startupPrimeFrames (buf d) \<and>
     (\<forall>x\<in>set (feedbackTransfers (ses d)). xf_kind x = FeedbackEndpoint)"

text \<open>The system once the pump runs.\<close>

definition started :: "driver \<Rightarrow> xfer list \<Rightarrow> bytes \<Rightarrow> system" where
  "started d ins acc =
     \<lparr>drv = d, outq = transfers (ses d), inq = ins, fbq = feedbackTransfers (ses d), accepted = acc\<rparr>"

lemma submitIsoPump_cases:
  assumes "submitIsoPump e s u d = (True, d')"
  obtains xs d1 d3 d4 where "startupPrimeFrames (buf d) \<le> bufferedFrames d"
    "prime_transfers e (transfers (ses d)) d = (xs, d1)"
    "submit_feedback e s u (feedbackTransfers (ses d1)) (ses_update (transfers_update (\<lambda>_. xs)) d1) = (True, d3)"
    "submit_playback e s u xs d3 = (True, d4)"
    "d' = mode_update (playbackStarted_update (\<lambda>_. True) \<circ> streaming_update (\<lambda>_. True)) d4"
  using assms that
  by (auto simp: submitIsoPump_def Let_def not_less split: if_splits prod.splits)

lemma submit_all:
  assumes "submit_feedback e s u fbs d1 = (True, d3)" "submit_playback e s u xs d3 = (True, d4)"
  shows "d4 = d1\<lparr>bus := bus d1 @ map (\<lambda>x. (Submit x, 0)) (fbs @ xs),
    led := (led d1)\<lparr>inflight := inflight (led d1) + int (length fbs) + int (length xs),
      queuedOutFrames := queuedOutFrames (led d1) + frames_sum d1 xs\<rparr>\<rparr>"
  using submit_playback_ok [OF assms(2)] submit_feedback_ok [OF assms(1)] by (simp add: frames_sum_def)

lemma pipeline_drained:
  assumes ok: "pipeline_ok d" and t: "transport_ok d1" and df: "drain_frame d d1"
  shows "pipeline_ok d1"
  using ok t df planned_cong(2) [OF df] unfolding pipeline_ok_def drain_frame_def implicit_mode_def by auto

lemma submitIsoPump_establishes:
  assumes law: "packet_law e" and r: "playback_ready d fss"
    and ins: "captureInflight (led d) = int (length ins)" "\<forall>x\<in>set ins. xf_kind x = InEndpoint"
    and sub: "submitIsoPump e s u d = (True, d')"
  shows "sys_inv (started d' ins (wire d @ ring_contents (ring d)))"
proof -
  obtain xs d1 d3 d4 where prime: "startupPrimeFrames (buf d) \<le> bufferedFrames d"
    and pr: "prime_transfers e (transfers (ses d)) d = (xs, d1)"
    and fb: "submit_feedback e s u (feedbackTransfers (ses d1)) (ses_update (transfers_update (\<lambda>_. xs)) d1) = (True, d3)"
    and pl: "submit_playback e s u xs d3 = (True, d4)"
    and d': "d' = mode_update (playbackStarted_update (\<lambda>_. True) \<circ> streaming_update (\<lambda>_. True)) d4"
    using submitIsoPump_cases [OF sub] by metis
  have ok: "pipeline_ok d" "transport_ok d" "playback_ok d"
    using r by (simp_all add: playback_ready_def pipeline_ok_def transport_ok_def pb_inv_def)
  have "sum_list (map nat (concat fss)) \<le> queued_frames d"
    using r prime bufferedFrames_eq [of d] ok(3) by (simp add: playback_ready_def playback_ok_def)
  then have f: "filled d (transfers (ses d)) xs d1"
    using r by (intro prime_transfers_filled [OF law pr ok(2)]) (simp_all add: playback_ready_def)
  then have df: "drain_frame d d1" and t: "transport_ok d1" and xo: "\<forall>x\<in>set xs. xfer_ok d1 x"
    and pay: "concat (map payload xs) @ ring_contents (ring d1) = ring_contents (ring d)"
    by (simp_all add: filled_def)
  have pk1: "pipeline_ok d1" by (rule pipeline_drained [OF ok(1) t df])
  note d4 = submit_all [OF fb pl]
  have frame: "ring d' = ring d1" "fmt d' = fmt d1" "pace d' = pace d1" "buf d' = buf d1" "fifo d' = fifo d1"
    "captureRing d' = captureRing d1" "captureFormat d' = captureFormat d1" "pendingImplicit d' = []"
    "writtenFrames (led d') = writtenFrames (led d1)" "playedFrames (led d') = playedFrames (led d1)"
    "feedbackTransfers (ses d') = feedbackTransfers (ses d)" "transfers (ses d') = xs"
    using r df by (simp_all add: d' d4 playback_ready_def drain_frame_def)
  have "transport_ok d' = transport_ok d1" by (intro transport_ok_cong) (simp_all add: frame)
  then have "pipeline_ok d'"
    using pk1 by (simp add: pipeline_ok_def frame(8)) (simp add: d' d4)
  moreover have "capture_ok d'"
    using r df capture_ok_cong [of d' d] frame by (simp add: playback_ready_def drain_frame_def)
  moreover have "\<forall>x\<in>set xs. xfer_ok d' x" using xo by (simp add: xfer_ok_def frameBytes_def frame)
  moreover have "inflight (led d') = int (length xs) + int (length (feedbackTransfers (ses d)))"
    "captureInflight (led d') = int (length ins)" "queuedOutFrames (led d') = frames_sum d' xs"
    using r df ins(1) by (simp_all add: d' d4 playback_ready_def drain_frame_def frames_sum_def)
  moreover have "wire d' @ ring_contents (ring d') = wire d @ ring_contents (ring d)"
  proof -
    have b: "bus d' = bus d @ map (\<lambda>x. (Submit x, 0)) (feedbackTransfers (ses d) @ xs)"
      using df by (simp add: d' d4 drain_frame_def)
    have "filter (\<lambda>x. xf_kind x = OutEndpoint) (feedbackTransfers (ses d) @ xs) = xs"
      using r xo by (auto simp: playback_ready_def xfer_ok_def filter_empty_conv filter_id_conv)
    then have "submitted_xfers OutEndpoint (map (\<lambda>x. (Submit x, 0)) (feedbackTransfers (ses d) @ xs)) = xs"
      using submitted_all by metis
    then show ?thesis using wire_bus [OF b] pay frame(1) by simp
  qed
  moreover have "length xs \<le> 8" using f r by (simp add: filled_def playback_ready_def)
  ultimately show ?thesis
    using r ins(2) frame(8,11,12) by (auto simp: sys_inv_def started_def playback_ready_def intro!: exI [of _ "[]"])
qed

lemma playback_ready_mode:
  "playback_ready (mode_update (playbackStarted_update f) d) fss = playback_ready d fss"
proof -
  let ?d = "mode_update (playbackStarted_update f) d"
  have "transport_ok ?d = transport_ok d" by (intro transport_ok_cong) simp_all
  moreover have "capture_ok ?d = capture_ok d" by (rule capture_ok_cong) simp_all
  moreover have "xfer_ok ?d = xfer_ok d" "planned ?d = planned d"
    by (simp_all add: fun_eq_iff xfer_ok_def frameBytes_def planned_def)
  ultimately show ?thesis by (simp add: playback_ready_def pipeline_ok_def implicit_mode_def)
qed

text \<open>On a bus that accepts every submission a prepared pump with enough frames in its ring starts.\<close>

lemma submit_accepting:
  assumes "\<forall>h c. usb_rc e h c = 0"
  shows "fst (submit_feedback e s u xs d)" "fst (submit_playback e s u xs d)"
  using assms by (induction xs arbitrary: d) (simp_all add: usb_def Let_def)

lemma startPlayback_accepting:
  assumes rc: "\<forall>h c. usb_rc e h c = 0" and m: "\<not> playbackStarted (mode d)" "\<not> stopRequested (mode d)"
    and p: "0 < strideOf (fmt d)" "startupPrimeFrames (buf d) \<le> bufferedFrames d"
  shows "fst (startPlayback e s u d)"
proof -
  have "bufferedFrames (mode_update f d) = bufferedFrames d" for f by (simp add: bufferedFrames_def Let_def)
  then show ?thesis
    using m p submit_accepting [OF rc]
    by (auto simp: startPlayback_def submitIsoPump_def Let_def case_prod_beta)
qed

section \<open>Preparing the pump\<close>

text \<open>The largest packet a scheduler of the given rate ever asks for.\<close>

definition packet_ceiling :: "nat \<Rightarrow> nat \<Rightarrow> nat" where
  "packet_ceiling rate p = rate div p + (if rate mod p = 0 then 0 else 1)"

lemma scheduler_next_ceiling:
  assumes inv: "sched_inv rate s" and n: "scheduler_next s = (f, s')"
  shows "unat f \<le> packet_ceiling rate (unat (period s))"
proof (cases "rate mod unat (period s) = 0")
  case True
  note x = scheduler_next_exact [OF inv n]
  have "unat f * unat (period s) < (rate div unat (period s) + 1) * unat (period s)"
    using x(3) True remainder_less_period [OF inv] div_mult_mod_eq [of rate "unat (period s)"]
    by (simp add: add_mult_distrib)
  then have "unat f < rate div unat (period s) + 1" by (rule mult_less_cancel2 [THEN iffD1, THEN conjunct2])
  then show ?thesis using True by (simp add: packet_ceiling_def)
next
  case False
  then show ?thesis using scheduler_next_exact(4) [OF inv n] by (auto simp: packet_ceiling_def)
qed

lemma word_length: "f * u32_of_int n = u32_of_int (int (unat f) * n)"
  by (simp add: u32_of_int_def)

lemma scheduled_lengths_frames:
  "scheduled_lengths n stride sch = (ls, sch') \<Longrightarrow> sched_inv rate sch \<Longrightarrow>
   \<exists>fs. ls = map (\<lambda>f. u32_of_int (f * stride)) fs \<and> length fs = n \<and>
     (\<forall>f\<in>set fs. 0 \<le> f \<and> f \<le> int (packet_ceiling rate (unat (period sch)))) \<and>
     sched_inv rate sch' \<and> period sch' = period sch"
proof (induction n arbitrary: sch ls)
  case (Suc n)
  obtain f s1 ls1 where n1: "scheduler_next sch = (f, s1)" and r: "scheduled_lengths n stride s1 = (ls1, sch')"
    and ls: "ls = f * u32_of_int stride # ls1"
    using Suc.prems(1) by (auto split: prod.splits)
  note x = scheduler_next_exact(1,2) [OF Suc.prems(2) n1]
  obtain fs where "ls1 = map (\<lambda>f. u32_of_int (f * stride)) fs" "length fs = n"
    "\<forall>f\<in>set fs. 0 \<le> f \<and> f \<le> int (packet_ceiling rate (unat (period sch)))" "sched_inv rate sch'" "period sch' = period sch"
    using Suc.IH [OF r x(1)] x(2) by auto
  then show ?case
    using scheduler_next_ceiling [OF Suc.prems(2) n1, folded of_nat_le_iff [where 'a = int]]
    by (intro exI [of _ "int (unat f) # fs"]) (simp add: ls word_length)
qed simp

text \<open>A transfer the pump may own, with the frames its packets are planned to carry.\<close>

definition sized :: "driver \<Rightarrow> xfer \<Rightarrow> int list \<Rightarrow> bool" where
  "sized d x fs \<longleftrightarrow> xfer_ok d x \<and> planned d x fs"

lemma sized_cong:
  "fmt d1 = fmt d \<Longrightarrow> maxFramesPerPacket (pace d1) = maxFramesPerPacket (pace d) \<Longrightarrow> sized d1 x fs = sized d x fs"
  by (simp add: sized_def xfer_ok_def planned_def frameBytes_def)

definition cadence_ok :: "nat \<Rightarrow> driver \<Rightarrow> bool" where
  "cadence_ok rate d \<longleftrightarrow> sched_inv rate (nominalScheduler (pace d)) \<and>
     int (packet_ceiling rate (unat (period (nominalScheduler (pace d))))) \<le> maxFramesPerPacket (pace d) \<and>
     0 < playbackPacketsPerTransfer (buf d) \<and> playbackPacketsPerTransfer (buf d) \<le> 8"

lemma new_xfer_sized:
  assumes "map blank_packet ls = ps" "ls = map (\<lambda>f. u32_of_int (f * strideOf (fmt d))) fs" "length fs = nat packets"
    and "0 < packets" "packets \<le> 8" "\<forall>f\<in>set fs. 0 \<le> f \<and> f \<le> maxFramesPerPacket (pace d)" "0 \<le> maxFramesPerPacket (pace d)"
  shows "sized d (new_xfer i OutEndpoint (nat (maxFramesPerPacket (pace d) * strideOf (fmt d)) * nat packets) ls) fs"
  using assms by (auto simp: sized_def planned_def xfer_ok_def new_xfer_def blank_packet_def comp_def frameBytes_def nat_mult_distrib)

lemma alloc_playback_ok:
  "alloc_playback e s n t (strideOf (fmt d)) d = (True, d') \<Longrightarrow> cadence_ok rate d \<Longrightarrow>
   \<exists>sch calls xs fss. d' = d\<lparr>bus := bus d @ calls, ses := (ses d)\<lparr>transfers := transfers (ses d) @ xs\<rparr>,
        pace := (pace d)\<lparr>nominalScheduler := sch\<rparr>\<rparr> \<and> length xs = n \<and> list_all2 (sized d) xs fss \<and>
     submitted_xfers OutEndpoint calls = []"
proof (induction n arbitrary: t d)
  case 0
  then show ?case by (intro exI [of _ "nominalScheduler (pace d)"] exI [of _ "[]"]) simp
next
  case (Suc n)
  define packets where "packets = playbackPacketsPerTransfer (buf d)"
  obtain ls sch where sl: "scheduled_lengths (nat packets) (strideOf (fmt d)) (nominalScheduler (pace d)) = (ls, sch)"
    by fastforce
  define x where "x = new_xfer (length (bus d)) OutEndpoint
    (nat (maxFramesPerPacket (pace d) * strideOf (fmt d)) * nat packets) ls"
  define d1 where "d1 = ses_update (transfers_update (\<lambda>xs. xs @ [x]))
    (pace_update (nominalScheduler_update (\<lambda>_. sch)) (d\<lparr>bus := bus d @ [(Alloc packets, 0)]\<rparr>))"
  have rest: "alloc_playback e s n (t + 1) (strideOf (fmt d1)) d1 = (True, d')"
    using Suc.prems(1) sl by (auto simp: Let_def usb_def packets_def [symmetric] d1_def x_def split: if_splits)
  obtain fs where fs: "ls = map (\<lambda>f. u32_of_int (f * strideOf (fmt d))) fs" "length fs = nat packets"
    "\<forall>f\<in>set fs. 0 \<le> f \<and> f \<le> int (packet_ceiling rate (unat (period (nominalScheduler (pace d)))))"
    "sched_inv rate sch" "period sch = period (nominalScheduler (pace d))"
    using scheduled_lengths_frames [OF sl, of rate] Suc.prems(2) by (auto simp: cadence_ok_def)
  have "sized d x fs" unfolding x_def
    using fs Suc.prems(2) by (intro new_xfer_sized [OF refl]) (auto simp: cadence_ok_def packets_def)
  moreover have "cadence_ok rate d1" using Suc.prems(2) fs(4,5) by (simp add: cadence_ok_def d1_def)
  from Suc.IH [OF rest this] obtain sch' calls xs fss where
    "d' = d1\<lparr>bus := bus d1 @ calls, ses := (ses d1)\<lparr>transfers := transfers (ses d1) @ xs\<rparr>,
        pace := (pace d1)\<lparr>nominalScheduler := sch'\<rparr>\<rparr>" "length xs = n" "list_all2 (sized d1) xs fss"
    "submitted_xfers OutEndpoint calls = []"
    by blast
  moreover have "sized d1 = sized d" by (intro ext sized_cong) (simp_all add: d1_def)
  ultimately show ?case
    by (intro exI [of _ sch'] exI [of _ "(Alloc packets, 0) # calls"] exI [of _ "x # xs"] exI [of _ "fs # fss"])
      (simp add: d1_def submitted_xfers_def)
qed

text \<open>Planning from the metadata FIFO only consumes it.\<close>

definition consumed :: "driver \<Rightarrow> driver \<Rightarrow> bool" where
  "consumed d d' \<longleftrightarrow> (\<exists>r. d' = d\<lparr>fifo := (fifo d)\<lparr>implicitRead := r\<rparr>\<rparr>) \<and> fifo_depth d' \<le> fifo_depth d"

lemma consumed_refl: "consumed d d"
  by (auto simp: consumed_def intro!: exI [of _ "implicitRead (fifo d)"])

lemma consumed_trans: "consumed a b \<Longrightarrow> consumed b c \<Longrightarrow> consumed a c"
  by (auto simp: consumed_def)

lemma consumed_frame:
  "consumed d d' \<Longrightarrow> sized d' = sized d" "consumed d d' \<Longrightarrow> fmt d' = fmt d"
  "consumed d d' \<Longrightarrow> maxFramesPerPacket (pace d') = maxFramesPerPacket (pace d)"
  by (auto simp: consumed_def fun_eq_iff sized_def xfer_ok_def planned_def frameBytes_def)

lemma consumed_fifo_ok: "consumed d d' \<Longrightarrow> fifo_ok d \<Longrightarrow> fifo_ok d'"
  by (auto simp: consumed_def fifo_ok_def)

lemma next_metadata_consumes:
  "next_metadata d = (r, d') \<Longrightarrow>
   consumed d d' \<and> (\<forall>f. r = Some f \<longrightarrow> 0 \<le> f \<and> f \<le> maxFramesPerPacket (pace d))"
proof (induction d arbitrary: r d' rule: next_metadata.induct)
  case (1 d)
  define f where "f = min (sint (implicitFrames (fifo d) ! unat (implicitRead (fifo d) AND 255))) (maxFramesPerPacket (pace d))"
  define d1 where "d1 = fifo_update (implicitRead_update (\<lambda>_. implicitRead (fifo d) + 1)) d"
  show ?case
  proof (cases "implicitRead (fifo d) = implicitWrite (fifo d)")
    case True
    then show ?thesis using "1.prems" by (simp add: next_metadata.simps [of d] consumed_refl)
  next
    case False
    then have "implicitWrite (fifo d) - implicitRead (fifo d) \<noteq> 0" by simp
    then have "unat (implicitWrite (fifo d) - implicitRead (fifo d) - 1) \<le> unat (implicitWrite (fifo d) - implicitRead (fifo d))"
      by (simp add: unat_minus_one)
    moreover have d1: "d1 = d\<lparr>fifo := (fifo d)\<lparr>implicitRead := implicitRead (fifo d) + 1\<rparr>\<rparr>" by (cases d) (simp add: d1_def)
    ultimately have c: "consumed d d1" by (auto simp: consumed_def d1 fifo_depth_def algebra_simps)
    have step: "next_metadata d = (if f \<le> 0 then next_metadata d1 else (Some f, d1))"
      using False by (subst next_metadata.simps) (simp add: Let_def f_def d1_def)
    show ?thesis
    proof (cases "f \<le> 0")
      case True
      then have "next_metadata d1 = (r, d')" using "1.prems" step by simp
      then have "consumed d1 d' \<and> (\<forall>f. r = Some f \<longrightarrow> 0 \<le> f \<and> f \<le> maxFramesPerPacket (pace d1))"
        using False True by (intro "1.IH" [OF refl _ f_def refl, folded d1_def]) simp_all
      then show ?thesis using consumed_trans [OF c] by (simp add: d1_def)
    next
      case nz: False
      then show ?thesis using "1.prems" step c by (auto simp: f_def)
    qed
  qed
qed

lemma metadata_lengths_ok:
  "metadata_lengths n (strideOf (fmt d)) d = (Some ls, d') \<Longrightarrow>
   consumed d d' \<and> (\<exists>fs. ls = map (\<lambda>f. u32_of_int (f * strideOf (fmt d))) fs \<and> length fs = n \<and>
     (\<forall>f\<in>set fs. 0 \<le> f \<and> f \<le> maxFramesPerPacket (pace d)))"
proof (induction n arbitrary: d ls)
  case 0
  then show ?case by (simp add: consumed_refl)
next
  case (Suc n)
  obtain f d1 ls1 where nm: "next_metadata d = (Some f, d1)" and r: "metadata_lengths n (strideOf (fmt d)) d1 = (Some ls1, d')"
    and ls: "ls = u32_of_int (f * strideOf (fmt d)) # ls1"
    using Suc.prems by (auto split: prod.splits option.splits)
  have c: "consumed d d1" and f: "0 \<le> f" "f \<le> maxFramesPerPacket (pace d)" using next_metadata_consumes [OF nm] by simp_all
  note fr = consumed_frame(2,3) [OF c]
  obtain fs where "consumed d1 d'" "ls1 = map (\<lambda>f. u32_of_int (f * strideOf (fmt d))) fs" "length fs = n"
    "\<forall>f\<in>set fs. 0 \<le> f \<and> f \<le> maxFramesPerPacket (pace d)"
    using Suc.IH [of d1 ls1] r fr by auto
  then show ?case using consumed_trans [OF c] f by (auto simp: ls intro!: exI [of _ "f # fs"])
qed

lemma map2_lengths: "length ls = length ps \<Longrightarrow> map pk_length (map2 (\<lambda>p n. p\<lparr>pk_length := n\<rparr>) ps ls) = ls"
  by (induction ps ls rule: list_induct2') simp_all

lemma plan_from_metadata_ok:
  "plan_from_metadata (strideOf (fmt d)) xs d = (Some ys, d') \<Longrightarrow> \<forall>x\<in>set xs. xfer_ok d x \<Longrightarrow>
   consumed d d' \<and> length ys = length xs \<and> (\<exists>fss. list_all2 (sized d) ys fss)"
proof (induction xs arbitrary: d ys)
  case Nil
  then show ?case by (auto simp: consumed_refl)
next
  case (Cons x xs)
  obtain ls d1 ys1 where ml: "metadata_lengths (length (xf_pkts x)) (strideOf (fmt d)) d = (Some ls, d1)"
    and r: "plan_from_metadata (strideOf (fmt d)) xs d1 = (Some ys1, d')"
    and ys: "ys = x\<lparr>xf_pkts := map2 (\<lambda>p n. p\<lparr>pk_length := n\<rparr>) (xf_pkts x) ls\<rparr> # ys1"
    using Cons.prems(1) by (auto split: prod.splits option.splits)
  obtain fs where c: "consumed d d1" and fs: "ls = map (\<lambda>f. u32_of_int (f * strideOf (fmt d))) fs"
    "length fs = length (xf_pkts x)" "\<forall>f\<in>set fs. 0 \<le> f \<and> f \<le> maxFramesPerPacket (pace d)"
    using metadata_lengths_ok [OF ml] by blast
  note fr = consumed_frame [OF c]
  have "xfer_ok d1 = xfer_ok d" using fr(2,3) by (simp add: fun_eq_iff xfer_ok_def frameBytes_def)
  then obtain fss where "consumed d1 d'" "length ys1 = length xs" "list_all2 (sized d) ys1 fss"
    using Cons.IH [of d1 ys1] r Cons.prems(2) fr by auto
  moreover have "sized d (x\<lparr>xf_pkts := map2 (\<lambda>p n. p\<lparr>pk_length := n\<rparr>) (xf_pkts x) ls\<rparr>) fs"
    using Cons.prems(2) fs map2_lengths [of ls "xf_pkts x"] by (simp add: sized_def planned_def xfer_ok_def)
  ultimately show ?case using consumed_trans [OF c] by (auto simp: ys)
qed

lemma alloc_feedback_ok:
  "alloc_feedback e s n d = (True, d') \<Longrightarrow>
   \<exists>calls xs. d' = d\<lparr>bus := bus d @ calls, ses := (ses d)\<lparr>feedbackTransfers := feedbackTransfers (ses d) @ xs\<rparr>\<rparr> \<and>
     (\<forall>x\<in>set xs. xf_kind x = FeedbackEndpoint)"
proof (induction n arbitrary: d)
  case 0
  then show ?case by (intro exI [of _ "[]"]) simp
next
  case (Suc n)
  define size where "size = (if feedbackMaxPacketSize (fmt d) > 0 then unat (feedbackMaxPacketSize (fmt d)) else 4)"
  define x where "x = new_xfer (length (bus d)) FeedbackEndpoint size [of_nat size]"
  define d1 where "d1 = ses_update (feedbackTransfers_update (\<lambda>xs. xs @ [x])) (d\<lparr>bus := bus d @ [(Alloc 1, 0)]\<rparr>)"
  have "alloc_feedback e s n d1 = (True, d')"
    using Suc.prems by (auto simp: usb_def Let_def d1_def x_def size_def split: if_splits)
  from Suc.IH [OF this] obtain calls xs where
    "d' = d1\<lparr>bus := bus d1 @ calls, ses := (ses d1)\<lparr>feedbackTransfers := feedbackTransfers (ses d1) @ xs\<rparr>\<rparr>"
    "\<forall>x\<in>set xs. xf_kind x = FeedbackEndpoint" by blast
  then show ?case
    by (intro exI [of _ "(Alloc 1, 0) # calls"] exI [of _ "x # xs"]) (simp add: d1_def x_def new_xfer_def)
qed

lemma initial_frames_sized:
  assumes "list_all2 (sized d) xs fss" and g: "geometry_ok d"
  shows "initial_frames (strideOf (fmt d)) xs = int (sum_list (map nat (concat fss)))"
  using assms(1)
proof (induction rule: list_all2_induct)
  case Nil
  then show ?case by (simp add: initial_frames_def)
next
  case (Cons x xs fs fss)
  let ?s = "strideOf (fmt d)"
  have st: "0 < ?s" and b: "8 * maxFramesPerPacket (pace d) * ?s \<le> INT_MAX" "0 \<le> maxFramesPerPacket (pace d)"
    using g by (simp_all add: geometry_ok_def stride_ok_def)
  have each: "cdiv (sint (u32_of_int (f * ?s))) ?s = int (nat f)" if "0 \<le> f" "f \<le> maxFramesPerPacket (pace d)" for f
  proof -
    have "f * ?s \<le> maxFramesPerPacket (pace d) * ?s" using that st by (intro mult_right_mono) simp_all
    also have "\<dots> \<le> INT_MAX" using b st mult_nonneg_nonneg [of "maxFramesPerPacket (pace d)" ?s] by linarith
    finally show ?thesis using that st by (simp add: sint_packet_length)
  qed
  have pl: "map pk_length (xf_pkts x) = map (\<lambda>f. u32_of_int (f * ?s)) fs" and fb: "\<forall>f\<in>set fs. 0 \<le> f \<and> f \<le> maxFramesPerPacket (pace d)"
    using Cons.hyps by (simp_all add: sized_def planned_def)
  have "(\<Sum>p\<leftarrow>xf_pkts x. cdiv (sint (pk_length p)) ?s) = (\<Sum>n\<leftarrow>map pk_length (xf_pkts x). cdiv (sint n) ?s)"
    by (simp add: comp_def)
  also have "\<dots> = int (sum_list (map nat fs))" unfolding pl using fb each by (induction fs) simp_all
  finally show ?case using Cons.IH by (simp add: initial_frames_def)
qed

text \<open>An idle driver with a negotiated format: what \<open>start\<close> and \<open>startDuplex\<close> leave before the playback
  pump is prepared.  The bound on the packet size is that of the widest USB endpoint.\<close>

definition pump_idle :: "usb_device \<Rightarrow> driver \<Rightarrow> bool" where
  "pump_idle u d \<longleftrightarrow>
     pb_inv d \<and> capture_ok d \<and> fifo_ok d \<and> \<not> transportFailed (mode d) \<and>
     inflight (led d) = 0 \<and> queuedOutFrames (led d) = 0 \<and>
     transfers (ses d) = [] \<and> feedbackTransfers (ses d) = [] \<and> transferCount (buf d) \<le> 8 \<and>
     0 \<le> ucPacketsPerTransfer (userspaceBufferConfig (buf d)) \<and> ucPacketsPerTransfer (userspaceBufferConfig (buf d)) \<le> 8 \<and>
     0 \<le> sampleRateHz (fmt d) \<and> sampleRateHz (fmt d) \<le> INT_MAX \<and>
     maxIsoPacketSize u (endpointAddress (fmt d)) \<le> 65536 \<and> writeHeadroomFrames (buf d) \<le> INT_MAX - 65536"

text \<open>The cadence, field by field.\<close>

definition packet_interval :: "StreamFormat \<Rightarrow> int" where
  "packet_interval f = (if isHighSpeed f then 2 ^ nat (min 15 (if bInterval f > 0 then uint (bInterval f) - 1 else 0))
     else max 1 (uint (bInterval f)))"

definition packets_per_sec :: "StreamFormat \<Rightarrow> int" where
  "packets_per_sec f = max 1 (cdiv (if isHighSpeed f then 8000 else 1000) (packet_interval f))"

lemma set_cadence_fields:
  "fmt (set_cadence d) = fmt d" "ring (set_cadence d) = ring d" "captureRing (set_cadence d) = captureRing d"
  "captureFormat (set_cadence d) = captureFormat d" "led (set_cadence d) = led d" "mode (set_cadence d) = mode d"
  "fifo (set_cadence d) = fifo d" "ses (set_cadence d) = ses d" "pendingImplicit (set_cadence d) = []" "bus (set_cadence d) = bus d"
  "buf (set_cadence d) = (buf d)\<lparr>playbackPacketsPerTransfer :=
     (if ucPacketsPerTransfer (userspaceBufferConfig (buf d)) \<noteq> 0 then ucPacketsPerTransfer (userspaceBufferConfig (buf d))
      else packetsPerTransferForRate (packets_per_sec (fmt d)))\<rparr>"
  "microframesPerSec (pace (set_cadence d)) = packets_per_sec (fmt d)"
  "nominalScheduler (pace (set_cadence d)) =
     scheduler_reset (u32_of_int (sampleRateHz (fmt d))) (u32_of_int (packets_per_sec (fmt d)))"
proof -
  have u: "fmt x = fmt d" "ring x = ring d" "captureRing x = captureRing d" "captureFormat x = captureFormat d" "led x = led d"
    "mode x = mode d" "fifo x = fifo d" "ses x = ses d" "pendingImplicit x = []" "bus x = bus d" "buf x = b" "pace x = p"
    if "x = d\<lparr>pace := p, buf := b, gaps := g, pendingImplicit := [], pcnt := c\<rparr>" for x p b g c
    using that by simp_all
  have v: "microframesPerSec (p\<lparr>packetIntervalUframes := i, microframesPerSec := m, nominalScheduler := n,
      framesPerUframe_q16 := q, fracAccumulator_q16 := r\<rparr>) = m"
    "nominalScheduler (p\<lparr>packetIntervalUframes := i, microframesPerSec := m, nominalScheduler := n,
      framesPerUframe_q16 := q, fracAccumulator_q16 := r\<rparr>) = n" for p i m n q r
    by simp_all
  note eq = set_cadence_def [of d, unfolded Let_def, folded packet_interval_def, folded packets_per_sec_def]
  note w = u [OF eq]
  show "fmt (set_cadence d) = fmt d" "ring (set_cadence d) = ring d" "captureRing (set_cadence d) = captureRing d"
    "captureFormat (set_cadence d) = captureFormat d" "led (set_cadence d) = led d" "mode (set_cadence d) = mode d"
    "fifo (set_cadence d) = fifo d" "ses (set_cadence d) = ses d" "pendingImplicit (set_cadence d) = []" "bus (set_cadence d) = bus d"
    by (rule w(1-10))+
  show "buf (set_cadence d) = (buf d)\<lparr>playbackPacketsPerTransfer :=
     (if ucPacketsPerTransfer (userspaceBufferConfig (buf d)) \<noteq> 0 then ucPacketsPerTransfer (userspaceBufferConfig (buf d))
      else packetsPerTransferForRate (packets_per_sec (fmt d)))\<rparr>"
    by (rule w(11))
  show "microframesPerSec (pace (set_cadence d)) = packets_per_sec (fmt d)"
    "nominalScheduler (pace (set_cadence d)) =
     scheduler_reset (u32_of_int (sampleRateHz (fmt d))) (u32_of_int (packets_per_sec (fmt d)))"
    unfolding w(12) v by (rule refl)+
qed

lemma packets_per_sec_bounds: "1 \<le> packets_per_sec f" "packets_per_sec f \<le> 8000"
proof -
  have i1: "1 \<le> packet_interval f" by (simp add: packet_interval_def)
  have dv: "cdiv a b \<le> a" if "0 \<le> a" "1 \<le> b" for a b :: int using zdiv_mono2 [of a 1 b] that by simp
  show "1 \<le> packets_per_sec f" "packets_per_sec f \<le> 8000"
    unfolding packets_per_sec_def using dv [OF _ i1, of 8000] dv [OF _ i1, of 1000] by auto
qed

lemma startIsoPump_cases:
  assumes "startIsoPump e s u False d0 = (True, d')"
  obtains d1 d2 d3 xs d5 where
    "0 < strideOf (fmt d0)" "0 < maxIsoPacketSize u (endpointAddress (fmt d0))"
    "nominal_max_frames (set_cadence d0) \<le> cdiv (maxIsoPacketSize u (endpointAddress (fmt d0))) (strideOf (fmt d0))"
    "d1 = pace_update (maxFramesPerPacket_update (\<lambda>_. min (cdiv (maxIsoPacketSize u (endpointAddress (fmt d0))) (strideOf (fmt d0)))
       (nominal_max_frames (set_cadence d0) + 1))) (set_cadence d0)"
    "alloc_playback e s (nat (transferCount (buf d1))) 0 (strideOf (fmt d0)) d1 = (True, d2)"
    "(if implicit_mode d2 then plan_from_metadata (strideOf (fmt d0)) (transfers (ses d2)) d2
      else (Some (transfers (ses d2)), d2)) = (Some xs, d3)"
    "(if feedbackEndpointAddress (fmt d3) \<noteq> 0
      then alloc_feedback e s 2 (set_prime (strideOf (fmt d0)) (ses_update (transfers_update (\<lambda>_. xs)) d3))
      else (True, set_prime (strideOf (fmt d0)) (ses_update (transfers_update (\<lambda>_. xs)) d3))) = (True, d5)"
    "d' = ses_update (eventThread_update (\<lambda>_. True)) d5"
proof -
  note f = set_cadence_fields(1) [of d0]
  have g: "fmt (set_prime n d) = fmt d" for n d by (simp add: set_prime_def Let_def)
  define stride where "stride = strideOf (fmt d0)"
  define mp where "mp = maxIsoPacketSize u (endpointAddress (fmt d0))"
  define d1 where "d1 = pace_update (maxFramesPerPacket_update (\<lambda>_. min (cdiv mp stride)
       (nominal_max_frames (set_cadence d0) + 1))) (set_cadence d0)"
  note a = assms [unfolded startIsoPump_def Let_def f, folded stride_def mp_def, folded d1_def]
  have c: "\<not> (stride \<le> 0 \<or> mp \<le> 0)" "\<not> cdiv mp stride < nominal_max_frames (set_cadence d0)"
    using a by (auto split: if_splits)
  obtain ok d2 where al: "alloc_playback e s (nat (transferCount (buf d1))) 0 stride d1 = (ok, d2)" by fastforce
  have ok: ok using a c al by (cases ok) simp_all
  obtain plan d3 where pl: "(if implicit_mode d2 then plan_from_metadata stride (transfers (ses d2)) d2
      else (Some (transfers (ses d2)), d2)) = (plan, d3)" by fastforce
  note a1 = a [unfolded if_not_P [OF c(1)] if_not_P [OF c(2)] al prod.case pl]
  obtain xs where xs: "plan = Some xs" using a1 ok by (cases plan) simp_all
  obtain ok2 d5 where fb: "(if feedbackEndpointAddress (fmt (set_prime stride (ses_update (transfers_update (\<lambda>_. xs)) d3))) \<noteq> 0
      then alloc_feedback e s 2 (set_prime stride (ses_update (transfers_update (\<lambda>_. xs)) d3))
      else (True, set_prime stride (ses_update (transfers_update (\<lambda>_. xs)) d3))) = (ok2, d5)"
    by fastforce
  have "(if \<not> ok2 then (False, d5) else (True, snd (ensureEventThread d5))) = (True, d')"
    using a1 ok unfolding xs option.case fb prod.case by (auto simp: ensureEventThread_def split: if_splits)
  then have "ok2" "d' = ses_update (eventThread_update (\<lambda>_. True)) d5"
    by (simp_all add: ensureEventThread_def split: if_splits)
  then show thesis
    using that [of d1 d2 xs d3 d5] c al ok pl xs fb unfolding stride_def mp_def d1_def g by (simp add: not_less not_le)
qed

lemma packet_ceiling_int:
  assumes "0 \<le> a" "0 < b"
  shows "int (packet_ceiling (nat a) (nat b)) = a div b + (if a mod b = 0 then 0 else 1)"
proof -
  obtain m n where "a = int m" "b = int n" using assms by (metis nonneg_int_cases order.strict_implies_order)
  then show ?thesis by (simp add: packet_ceiling_def zdiv_int zmod_int [symmetric])
qed

lemma set_cadence_ok:
  assumes i: "pump_idle u d"
  defines "d1 \<equiv> set_cadence d"
  shows "sched_inv (nat (sampleRateHz (fmt d))) (nominalScheduler (pace d1))"
    "int (packet_ceiling (nat (sampleRateHz (fmt d))) (unat (period (nominalScheduler (pace d1))))) = nominal_max_frames d1"
    "0 < playbackPacketsPerTransfer (buf d1)" "playbackPacketsPerTransfer (buf d1) \<le> 8" "0 \<le> nominal_max_frames d1"
proof -
  define f where "f = fmt d"
  define perSec where "perSec = packets_per_sec f"
  have r: "0 \<le> sampleRateHz f" "sampleRateHz f \<le> INT_MAX" using i by (simp_all add: pump_idle_def f_def)
  have ps: "1 \<le> perSec" "perSec \<le> 8000" unfolding perSec_def by (rule packets_per_sec_bounds)+
  have sch: "nominalScheduler (pace d1) = scheduler_reset (u32_of_int (sampleRateHz f)) (u32_of_int perSec)"
    unfolding d1_def perSec_def f_def by (rule set_cadence_fields)
  have ur: "unat (u32_of_int (sampleRateHz f)) = nat (sampleRateHz f)" "unat (u32_of_int perSec) = nat perSec"
    using r ps by (simp_all add: u32_small)
  then show "sched_inv (nat (sampleRateHz (fmt d))) (nominalScheduler (pace d1))"
    using sched_inv_reset [of "u32_of_int (sampleRateHz f)" "u32_of_int perSec"] sch by (simp add: f_def)
  have "u32_of_int perSec \<noteq> 0" using ur(2) ps by auto
  then have p: "unat (period (nominalScheduler (pace d1))) = nat perSec" using ur(2) by (simp add: sch scheduler_reset_def Let_def)
  have fm: "fmt d1 = f" "microframesPerSec (pace d1) = perSec"
    unfolding d1_def perSec_def f_def by (rule set_cadence_fields)+
  have nm: "nominal_max_frames d1 = sampleRateHz f div perSec + (if sampleRateHz f mod perSec = 0 then 0 else 1)"
  proof -
    have "sampleRateHz f - sampleRateHz f div perSec * perSec = sampleRateHz f mod perSec" "0 \<le> sampleRateHz f mod perSec"
      using ps by (simp_all add: minus_div_mult_eq_mod)
    then show ?thesis using r ps
      unfolding nominal_max_frames_def Let_def fm by (simp add: less_le)
  qed
  show "int (packet_ceiling (nat (sampleRateHz (fmt d))) (unat (period (nominalScheduler (pace d1))))) = nominal_max_frames d1"
    using r ps unfolding nm p f_def [symmetric] by (intro packet_ceiling_int) simp_all
  show "0 \<le> nominal_max_frames d1" using r ps by (simp add: nm pos_imp_zdiv_nonneg_iff)
  show "0 < playbackPacketsPerTransfer (buf d1)" "playbackPacketsPerTransfer (buf d1) \<le> 8"
    using i unfolding d1_def set_cadence_fields by (auto simp: pump_idle_def packetsPerTransferForRate_def)
qed

lemma allocated_frame:
  assumes "d' = d\<lparr>bus := b, ses := s, pace := (pace d)\<lparr>nominalScheduler := sch\<rparr>\<rparr>"
  shows "transport_ok d' = transport_ok d" "capture_ok d' = capture_ok d" "sized d' = sized d"
    "geometry_ok d' = geometry_ok d" "fmt d' = fmt d" "led d' = led d" "mode d' = mode d" "buf d' = buf d"
    "pendingImplicit d' = pendingImplicit d" "ses d' = s" "captureFormat d' = captureFormat d" "ring d' = ring d"
proof -
  show "transport_ok d' = transport_ok d" by (intro transport_ok_cong) (simp_all add: assms)
  show "capture_ok d' = capture_ok d" by (rule capture_ok_cong) (simp_all add: assms)
  show "sized d' = sized d" by (intro ext sized_cong) (simp_all add: assms)
  show "geometry_ok d' = geometry_ok d" by (simp add: geometry_ok_def stride_ok_def assms)
qed (simp_all add: assms)

lemma consumed_ok:
  assumes "consumed d d'"
  shows "transport_ok d \<Longrightarrow> transport_ok d'" "capture_ok d' = capture_ok d" "geometry_ok d' = geometry_ok d"
    "led d' = led d" "mode d' = mode d" "buf d' = buf d" "pendingImplicit d' = pendingImplicit d" "ses d' = ses d"
proof -
  obtain r where d': "d' = d\<lparr>fifo := (fifo d)\<lparr>implicitRead := r\<rparr>\<rparr>" using assms by (auto simp: consumed_def)
  show "transport_ok d \<Longrightarrow> transport_ok d'"
    using consumed_fifo_ok [OF assms]
    by (simp add: transport_ok_def pb_inv_def playback_ok_def queued_frames_def frameBytes_def stride_ok_def geometry_ok_def d')
  show "capture_ok d' = capture_ok d" by (rule capture_ok_cong) (simp_all add: d')
  show "geometry_ok d' = geometry_ok d" by (simp add: geometry_ok_def stride_ok_def d')
qed (use assms in \<open>auto simp: consumed_def\<close>)

text \<open>The prime the pump computes stays within the arithmetic of the code.\<close>

lemma set_prime_ok:
  assumes t: "transport_ok d" and h: "writeHeadroomFrames (buf d) \<le> INT_MAX - 65536" and c: "0 \<le> graphQuantum (buf d)"
  defines "d' \<equiv> set_prime (strideOf (fmt d)) d"
  shows "transport_ok d'" "capture_ok d' = capture_ok d" "sized d' = sized d"
    "exactInitialPacketFrames (buf d') = initial_frames (strideOf (fmt d)) (transfers (ses d))"
    "fmt d' = fmt d" "led d' = led d" "mode d' = mode d" "pendingImplicit d' = pendingImplicit d" "ses d' = ses d"
proof -
  obtain ex pr where d': "d' = buf_update (exactInitialPacketFrames_update (\<lambda>_. ex) \<circ> startupPrimeFrames_update (\<lambda>_. pr)) d"
    and ex: "ex = initial_frames (strideOf (fmt d)) (transfers (ses d))"
    and pr: "pr = startupPlaybackPrimeFrames (max 0 (cdiv (int kPlaybackRingBytes) (max 1 (strideOf (fmt d))) - graphQuantum (buf d)))
       ex (playbackTargetFrames (buf d))"
    by (simp add: d'_def set_prime_def Let_def)
  have "cdiv (int kPlaybackRingBytes) (max 1 (strideOf (fmt d))) \<le> 65536"
    using zdiv_mono2 [of "int kPlaybackRingBytes" 1 "max 1 (strideOf (fmt d))"] by simp
  then have "0 \<le> pr" "pr \<le> 65536" using c by (auto simp: pr startupPlaybackPrimeFrames_def)
  then show "transport_ok d'"
    using t h by (simp add: transport_ok_def pb_inv_def playback_ok_def budget_ok_def queued_frames_def frameBytes_def stride_ok_def
        geometry_ok_def fifo_ok_def fifo_depth_def d')
  show "capture_ok d' = capture_ok d" by (simp add: capture_ok_def captureBytes_def d')
  show "sized d' = sized d" by (intro ext sized_cong) (simp_all add: d')
qed (simp_all add: d'_def set_prime_def Let_def)

lemma cadence_transport:
  assumes i: "pump_idle u d0" and c: "0 < strideOf (fmt d0)" "0 < mp" "mp \<le> 65536"
    "nominal_max_frames (set_cadence d0) \<le> cdiv mp (strideOf (fmt d0))"
  defines "d1 \<equiv> pace_update (maxFramesPerPacket_update (\<lambda>_. min (cdiv mp (strideOf (fmt d0)))
     (nominal_max_frames (set_cadence d0) + 1))) (set_cadence d0)"
  shows "transport_ok d1" "capture_ok d1" "cadence_ok (nat (sampleRateHz (fmt d0))) d1" "fmt d1 = fmt d0"
    "mode d1 = mode d0" "led d1 = led d0" "ses d1 = ses d0" "pendingImplicit d1 = []"
    "writeHeadroomFrames (buf d1) = writeHeadroomFrames (buf d0)" "graphQuantum (buf d1) = graphQuantum (buf d0)"
    "transferCount (buf d1) = transferCount (buf d0)" "geometry_ok d1"
proof -
  note f = set_cadence_fields [of d0]
  note k = set_cadence_ok [OF i]
  have "mp div strideOf (fmt d0) * strideOf (fmt d0) \<le> mp" using c(1,2) div_mult_mod_eq [of mp "strideOf (fmt d0)"]
    pos_mod_sign [of "strideOf (fmt d0)" mp] by linarith
  moreover have "min (mp div strideOf (fmt d0)) (nominal_max_frames (set_cadence d0) + 1) * strideOf (fmt d0) \<le>
      mp div strideOf (fmt d0) * strideOf (fmt d0)" using c(1) by (intro mult_right_mono) simp_all
  ultimately have b: "8 * min (mp div strideOf (fmt d0)) (nominal_max_frames (set_cadence d0) + 1) * strideOf (fmt d0) \<le> INT_MAX"
    using c(3) by linarith
  have nn: "0 \<le> mp div strideOf (fmt d0)" using c by (simp add: pos_imp_zdiv_nonneg_iff)
  have st: "stride_ok d0" using i by (simp add: pump_idle_def pb_inv_def playback_ok_def)
  show g: "geometry_ok d1" using b nn k(5) st c by (simp add: geometry_ok_def stride_ok_def d1_def f)
  show "transport_ok d1"
    using i g by (simp add: transport_ok_def pump_idle_def pb_inv_def playback_ok_def budget_ok_def queued_frames_def
        frameBytes_def stride_ok_def fifo_ok_def fifo_depth_def d1_def f)
  show "capture_ok d1" using i by (simp add: pump_idle_def capture_ok_def captureBytes_def d1_def f)
  show "cadence_ok (nat (sampleRateHz (fmt d0))) d1" using k c by (simp add: cadence_ok_def d1_def)
qed (simp_all add: d1_def set_cadence_fields)

lemma sized_total:
  assumes "list_all2 (sized d) xs fss" and m: "0 \<le> maxFramesPerPacket (pace d)"
  shows "int (sum_list (map nat (concat fss))) \<le> int (length xs) * (8 * maxFramesPerPacket (pace d))"
  using assms(1)
proof (induction rule: list_all2_induct)
  case (Cons x xs fs fss)
  let ?m = "maxFramesPerPacket (pace d)"
  have fs: "\<forall>f\<in>set fs. 0 \<le> f \<and> f \<le> ?m" and l: "length fs \<le> 8"
    using Cons.hyps planned_length [of d x fs] by (simp_all add: sized_def xfer_ok_def) (simp add: planned_def)
  have "int (sum_list (map nat gs)) \<le> int (length gs) * ?m" if "\<forall>f\<in>set gs. 0 \<le> f \<and> f \<le> ?m" for gs
    using that by (induction gs) (auto simp: algebra_simps)
  then have "int (sum_list (map nat fs)) \<le> int (length fs) * ?m" using fs .
  also have "\<dots> \<le> 8 * ?m" using l m by (intro mult_right_mono) simp_all
  finally show ?case using Cons.IH by (simp add: algebra_simps)
qed simp

text \<open>The initial transfers, at full packet capacity, fit the ring beside one graph quantum.\<close>

definition prime_fits :: "driver \<Rightarrow> bool" where
  "prime_fits d \<longleftrightarrow>
     64 * (nominal_max_frames (set_cadence d) + 1) \<le> 65536 div strideOf (fmt d) - graphQuantum (buf d)"

lemma set_prime_covers:
  assumes "0 < strideOf (fmt d)" "initial_frames (strideOf (fmt d)) (transfers (ses d)) \<le> 65536 div strideOf (fmt d) - graphQuantum (buf d)"
  shows "initial_frames (strideOf (fmt d)) (transfers (ses d)) \<le> startupPrimeFrames (buf (set_prime (strideOf (fmt d)) d))"
  using assms by (auto simp: set_prime_def Let_def startupPlaybackPrimeFrames_def)

lemma startIsoPump_ready:
  assumes i: "pump_idle u d0" and fits: "prime_fits d0" and st: "startIsoPump e s u False d0 = (True, d')"
  shows "\<exists>fss. playback_ready d' fss"
proof -
  define mp where "mp = maxIsoPacketSize u (endpointAddress (fmt d0))"
  have mp: "mp \<le> 65536" and cnt: "transferCount (buf d0) \<le> 8" and hr: "writeHeadroomFrames (buf d0) \<le> INT_MAX - 65536"
    and idle: "\<not> transportFailed (mode d0)" "inflight (led d0) = 0" "queuedOutFrames (led d0) = 0"
      "transfers (ses d0) = []" "feedbackTransfers (ses d0) = []" and gq: "0 \<le> graphQuantum (buf d0)"
    using i by (simp_all add: pump_idle_def mp_def capture_ok_def)
  obtain d1 d2 d3 xs d5 where c: "0 < strideOf (fmt d0)" "0 < mp" "nominal_max_frames (set_cadence d0) \<le> cdiv mp (strideOf (fmt d0))"
    and d1: "d1 = pace_update (maxFramesPerPacket_update (\<lambda>_. min (cdiv mp (strideOf (fmt d0)))
       (nominal_max_frames (set_cadence d0) + 1))) (set_cadence d0)"
    and al: "alloc_playback e s (nat (transferCount (buf d1))) 0 (strideOf (fmt d0)) d1 = (True, d2)"
    and plan: "(if implicit_mode d2 then plan_from_metadata (strideOf (fmt d0)) (transfers (ses d2)) d2
      else (Some (transfers (ses d2)), d2)) = (Some xs, d3)"
    and fb: "(if feedbackEndpointAddress (fmt d3) \<noteq> 0
      then alloc_feedback e s 2 (set_prime (strideOf (fmt d0)) (ses_update (transfers_update (\<lambda>_. xs)) d3))
      else (True, set_prime (strideOf (fmt d0)) (ses_update (transfers_update (\<lambda>_. xs)) d3))) = (True, d5)"
    and d': "d' = ses_update (eventThread_update (\<lambda>_. True)) d5"
    using startIsoPump_cases [OF st, folded mp_def] by metis
  note k1 = cadence_transport [OF i c(1,2) mp c(3), folded d1]
  obtain sch calls ys fss0 where d2: "d2 = d1\<lparr>bus := bus d1 @ calls, ses := (ses d1)\<lparr>transfers := transfers (ses d1) @ ys\<rparr>,
      pace := (pace d1)\<lparr>nominalScheduler := sch\<rparr>\<rparr>" and ys: "length ys = nat (transferCount (buf d1))" "list_all2 (sized d1) ys fss0"
    using alloc_playback_ok [OF _ k1(3), of e s "nat (transferCount (buf d1))" 0 d2] al k1(4) by auto
  note k2 = allocated_frame [OF d2]
  have ses2: "transfers (ses d2) = ys" "feedbackTransfers (ses d2) = []" using idle k1(7) by (simp_all add: k2(10))
  have "consumed d2 d3 \<and> length xs = length ys \<and> (\<exists>fss. list_all2 (sized d2) xs fss)"
  proof (cases "implicit_mode d2")
    case True
    have "\<forall>x\<in>set ys. xfer_ok d2 x"
      using ys(2) unfolding k2(3) [symmetric] by (auto simp: list_all2_conv_all_nth set_conv_nth sized_def)
    then show ?thesis using plan True plan_from_metadata_ok [of d2 ys xs d3] k1(4) k2(5) ses2 by simp
  next
    case False
    then show ?thesis using plan ys(2) k2(3) ses2 by (auto simp: consumed_refl)
  qed
  then obtain fss where cs: "consumed d2 d3" and lx: "length xs = length ys" and fss: "list_all2 (sized d2) xs fss" by blast
  note k3 = consumed_ok [OF cs] consumed_frame [OF cs]
  define d3' where "d3' = ses_update (transfers_update (\<lambda>_. xs)) d3"
  have t3: "transport_ok d3'" "capture_ok d3' = capture_ok d3" "sized d3' = sized d3" "fmt d3' = fmt d0" "geometry_ok d3'"
    using k1(1,4,12) k2 k3 transport_ok_cong [of d3' d3] capture_ok_cong [of d3' d3] sized_cong [of d3' d3]
    by (auto simp: d3'_def fun_eq_iff geometry_ok_def stride_ok_def)
  define d4 where "d4 = set_prime (strideOf (fmt d0)) d3'"
  have hq: "writeHeadroomFrames (buf d3') \<le> INT_MAX - 65536" "0 \<le> graphQuantum (buf d3')" "graphQuantum (buf d3') = graphQuantum (buf d0)"
    using hr gq k1(9,10) k2(8) k3(6) by (simp_all add: d3'_def)
  note k4 = set_prime_ok [OF t3(1) hq(1,2), unfolded t3(4), folded d4_def]
  have fss3: "list_all2 (sized d3') xs fss" using fss t3(3) k3(9) by simp
  have ex: "initial_frames (strideOf (fmt d0)) xs = int (sum_list (map nat (concat fss)))"
    using initial_frames_sized [OF fss3 t3(5)] t3(4) by simp
  have "maxFramesPerPacket (pace d3') \<le> nominal_max_frames (set_cadence d0) + 1" "0 \<le> maxFramesPerPacket (pace d3')"
    using k3(11) t3(5) by (simp_all add: d3'_def d2 d1 geometry_ok_def)
  then have "int (length xs) * (8 * maxFramesPerPacket (pace d3')) \<le> 8 * (8 * (nominal_max_frames (set_cadence d0) + 1))"
    using lx ys(1) cnt k1(11) by (intro mult_mono) simp_all
  then have "int (sum_list (map nat (concat fss))) \<le> 65536 div strideOf (fmt d0) - graphQuantum (buf d0)"
    using sized_total [OF fss3] fits \<open>0 \<le> maxFramesPerPacket (pace d3')\<close> by (simp add: prime_fits_def)
  then have prime: "int (sum_list (map nat (concat fss))) \<le> startupPrimeFrames (buf d4)"
    using set_prime_covers [of d3'] c(1) ex hq(3) t3(4) by (simp add: d4_def d3'_def)
  obtain calls5 fbs where d5: "d5 = d4\<lparr>bus := bus d4 @ calls5, ses := (ses d4)\<lparr>feedbackTransfers := feedbackTransfers (ses d4) @ fbs\<rparr>\<rparr>"
    and fbs: "\<forall>x\<in>set fbs. xf_kind x = FeedbackEndpoint"
  proof (cases "feedbackEndpointAddress (fmt d3) \<noteq> 0")
    case True
    then have "alloc_feedback e s 2 d4 = (True, d5)" using fb by (simp add: d4_def d3'_def)
    then show ?thesis using alloc_feedback_ok that by blast
  next
    case False
    then have "d5 = d4" using fb by (simp add: d4_def d3'_def)
    then show ?thesis using that [of "[]" "[]"] by simp
  qed
  have fields: "fmt d' = fmt d4" "led d' = led d0" "mode d' = mode d0" "pendingImplicit d' = []" "buf d' = buf d4"
    "transfers (ses d') = xs" "feedbackTransfers (ses d') = fbs"
    using k1(5,6,8) k2(6,7,9) k3(4,5,7,8) k4(6-9) ses2(2) by (simp_all add: d' d5 d3'_def)
  have tr: "transport_ok d'" "capture_ok d'" "sized d' = sized d2"
    using k4(1-3) t3(2,3) k3(2,9) k2(2) k1(2) transport_ok_cong [of d' d4] capture_ok_cong [of d' d4] sized_cong [of d' d4]
    by (auto simp: d' d5 fun_eq_iff)
  have "list_all2 (planned d') xs fss" "\<forall>x\<in>set xs. xfer_ok d' x"
    using fss unfolding tr(3) [symmetric] by (auto simp: list_all2_conv_all_nth set_conv_nth sized_def)
  then have "playback_ready d' fss"
    using tr(1,2) idle fields prime fbs lx ys(1) cnt k1(11) by (simp add: playback_ready_def pipeline_ok_def)
  then show ?thesis by blast
qed

section \<open>A concrete start\<close>

lemma alloc_accepting:
  assumes "\<forall>h c. usb_rc e h c = 0"
  shows "fst (alloc_playback e s n t stride d)" "fst (alloc_feedback e s n d)"
  using assms by (induction n arbitrary: t d) (simp_all add: usb_def Let_def case_prod_beta)

lemma startIsoPump_accepting:
  assumes rc: "\<forall>h c. usb_rc e h c = 0" and c: "0 < strideOf (fmt d)" "0 < maxIsoPacketSize u (endpointAddress (fmt d))"
      "nominal_max_frames (set_cadence d) \<le> cdiv (maxIsoPacketSize u (endpointAddress (fmt d))) (strideOf (fmt d))"
    and i: "pump_idle u d" "\<not> captureActive (mode d)"
  shows "fst (startIsoPump e s u False d)"
proof -
  define d1 where "d1 = pace_update (maxFramesPerPacket_update (\<lambda>_. min (cdiv (maxIsoPacketSize u (endpointAddress (fmt d)))
     (strideOf (fmt d))) (nominal_max_frames (set_cadence d) + 1))) (set_cadence d)"
  obtain d2 where al: "alloc_playback e s (nat (transferCount (buf d1))) 0 (strideOf (fmt d)) d1 = (True, d2)"
    using alloc_accepting(1) [OF rc] by (metis prod.collapse)
  note k = cadence_transport [OF i(1) c(1,2) _ c(3), folded d1_def]
  have mp: "maxIsoPacketSize u (endpointAddress (fmt d)) \<le> 65536" using i(1) by (simp add: pump_idle_def)
  have "mode d2 = mode d1"
    using alloc_playback_ok [OF _ k(3) [OF mp], of e s "nat (transferCount (buf d1))" 0 d2] al k(4) [OF mp] by auto
  then have "\<not> implicit_mode d2" using i(2) k(5) [OF mp] by (simp add: implicit_mode_def)
  then show ?thesis
    using c al unfolding startIsoPump_def Let_def set_cadence_fields d1_def [symmetric]
    by (simp add: not_less not_le ensureEventThread_def alloc_accepting(2) [OF rc] case_prod_beta)
qed

definition demo_source :: event_source where
  "demo_source = \<lparr>due = (\<lambda>_. []), callback_times = (\<lambda>_ _. (0, 0, 0))\<rparr>"

definition demo_pump_device :: usb_device where
  "demo_pump_device = \<lparr>activeConfig = None, config0 = None, speedHigh = True, deviceIds = None,
     maxIsoPacketSize = (\<lambda>_. 8), libusb_strerror = (\<lambda>_. []), errnoText = []\<rparr>"

text \<open>An idle driver at 8 kHz: one frame per packet.\<close>

definition demo_idle :: driver where
  "demo_idle = demo_duplex\<lparr>fmt := (fmt demo_duplex)\<lparr>sampleRateHz := 8000\<rparr>, mode := initModes\<rparr>"

lemma demo_idle_ok: "pump_idle demo_pump_device demo_idle" "nominal_max_frames (set_cadence demo_idle) = 1" "prime_fits demo_idle"
proof -
  have st: "strideOf (fmt demo_idle) = 4" "sampleRateHz (fmt demo_idle) = 8000" "packets_per_sec (fmt demo_idle) = 8000"
    by (simp_all add: demo_idle_def demo_duplex_def demo_stream_def demo_driver_def strideOf_def defaultStreamFormat_def
        packets_per_sec_def packet_interval_def)
  have t: "transport_ok demo_duplex" using demo_duplex_ok(1) by (simp add: pipeline_ok_def)
  then have "pb_inv demo_idle"
    by (simp add: transport_ok_def pb_inv_def playback_ok_def stride_ok_def queued_frames_def frameBytes_def demo_idle_def strideOf_def)
  moreover have "fifo_ok demo_idle" using demo_duplex_ok(6) by (simp add: fifo_ok_def fifo_depth_def demo_idle_def)
  moreover have "capture_ok demo_idle" using demo_duplex_ok(2) by (simp add: capture_ok_def captureBytes_def demo_idle_def)
  ultimately show "pump_idle demo_pump_device demo_idle"
    by (simp add: pump_idle_def st demo_pump_device_def)
      (simp add: demo_idle_def demo_duplex_def demo_stream_def demo_driver_def newDriver_def initModes_def initLedger_def
        initSession_def initBuffering_def defaultUserspaceBufferConfig_def)
  show n: "nominal_max_frames (set_cadence demo_idle) = 1"
    by (simp add: nominal_max_frames_def Let_def set_cadence_fields st)
  show "prime_fits demo_idle"
    unfolding prime_fits_def n st
    by (simp add: demo_idle_def demo_duplex_def demo_stream_def demo_driver_def initBuffering_def)
qed

text \<open>A prepared pump with one transfer of one frame and two frames in the ring.\<close>

definition demo_ready :: driver where
  "demo_ready = demo_duplex
     \<lparr>mode := (mode demo_duplex)\<lparr>playbackStarted := False\<rparr>, buf := (buf demo_duplex)\<lparr>startupPrimeFrames := 1\<rparr>,
      ses := (ses demo_duplex)\<lparr>transfers := [demo_xfer\<lparr>xf_pkts := [blank_packet 4]\<rparr>]\<rparr>\<rparr>"

lemma demo_ready_ok:
  "playback_ready demo_ready [[1]]" "bufferedFrames demo_ready = 2" "wire demo_ready = []"
  "ring_contents (ring demo_ready) = [1, 2, 3, 4, 5, 6, 7, 8]"
proof -
  let ?d = demo_ready
  have t: "transport_ok demo_duplex" using demo_duplex_ok(1) by (simp add: pipeline_ok_def)
  moreover have "writeHeadroomFrames (buf demo_duplex) = 1" by (simp add: demo_duplex_def demo_stream_def demo_driver_def)
  ultimately have tr: "transport_ok ?d"
    by (simp add: transport_ok_def pb_inv_def playback_ok_def budget_ok_def stride_ok_def queued_frames_def frameBytes_def
        geometry_ok_def fifo_ok_def fifo_depth_def demo_ready_def)
  have "capture_ok ?d" using demo_duplex_ok(2) by (simp add: capture_ok_def captureBytes_def demo_ready_def)
  moreover have "xfer_ok ?d (demo_xfer\<lparr>xf_pkts := [blank_packet 4]\<rparr>)"
    using demo_duplex_ok(3) by (simp add: xfer_ok_def demo_ready_def demo_xfer_def frameBytes_def)
  moreover have "planned ?d (demo_xfer\<lparr>xf_pkts := [blank_packet 4]\<rparr>) [1]"
    by (simp add: planned_def demo_ready_def blank_packet_def u32_of_int_def demo_duplex_def demo_stream_def demo_driver_def strideOf_def)
  moreover have "pendingImplicit ?d = []" "\<not> transportFailed (mode ?d)" "inflight (led ?d) = 0" "queuedOutFrames (led ?d) = 0"
    "feedbackTransfers (ses ?d) = []" "transfers (ses ?d) = [demo_xfer\<lparr>xf_pkts := [blank_packet 4]\<rparr>]" "startupPrimeFrames (buf ?d) = 1"
    "bus ?d = []"
    by (simp_all add: demo_ready_def demo_duplex_def demo_stream_def demo_driver_def newDriver_def initModes_def initLedger_def
        initSession_def)
  ultimately show "playback_ready ?d [[1]]" "wire ?d = []"
    using tr by (simp_all add: playback_ready_def pipeline_ok_def wire_def)
  have "queued_frames ?d = 2" using demo_stream_ok(5) by (simp add: queued_frames_def frameBytes_def demo_ready_def demo_duplex_def)
  then show "bufferedFrames ?d = 2"
    using tr bufferedFrames_eq [of ?d] by (simp add: transport_ok_def pb_inv_def playback_ok_def)
  show "ring_contents (ring ?d) = [1, 2, 3, 4, 5, 6, 7, 8]" using demo_stream_ok(8) by (simp add: demo_ready_def demo_duplex_def)
qed

section \<open>Properties\<close>

text \<open>C5. Starting playback establishes the running pipeline.  If \<open>startPlayback\<close> succeeds on a prepared pump,
  the invariant of the streaming system holds with every allocated transfer in flight: the ledgers
  count exactly the transfers submitted, and the bytes that were in the ring are on the wire,
  in order, followed by what the ring still holds.\<close>

theorem startPlayback_establishes_pipeline:
  assumes "packet_law e" "playback_ready d fss" "captureInflight (led d) = int (length ins)"
    "\<forall>x\<in>set ins. xf_kind x = InEndpoint" "startPlayback e s u d = (True, d')"
  shows "sys_inv (started d' ins (wire d @ ring_contents (ring d)))"
proof -
  let ?d = "mode_update (playbackStarted_update (\<lambda>_. True)) d"
  have "submitIsoPump e s u ?d = (True, d')"
    using assms(5) by (auto simp: startPlayback_def split: if_splits prod.splits)
  from submitIsoPump_establishes [OF assms(1) _ _ assms(4) this, of fss] show ?thesis
    using assms(2,3) by (simp add: playback_ready_mode wire_def)
qed

theorem startPlayback_establishes_pipeline_witness:
  "sys_inv (started (snd (startPlayback demo_env demo_source demo_pump_device demo_ready)) [] [1, 2, 3, 4, 5, 6, 7, 8])"
proof -
  have "fst (startPlayback demo_env demo_source demo_pump_device demo_ready)"
    using demo_ready_ok(2)
    by (intro startPlayback_accepting)
      (simp_all add: demo_env_def demo_ready_def demo_duplex_def demo_stream_def demo_driver_def strideOf_def initModes_def)
  then obtain d' where s: "startPlayback demo_env demo_source demo_pump_device demo_ready = (True, d')" by (metis prod.collapse)
  have "captureInflight (led demo_ready) = 0"
    by (simp add: demo_ready_def demo_duplex_def demo_stream_def initLedger_def)
  then show ?thesis
    using startPlayback_establishes_pipeline [OF demo_stream_ok(3) demo_ready_ok(1) _ _ s, of "[]"] demo_ready_ok(3,4) s by simp
qed



end
