(* ===== verification/Lifecycle.thy ===== *)
theory Lifecycle
  imports Startup
begin

text \<open>
  The control-thread operations of \<^verbatim>\<open>src/libusb_uac_driver.cpp\<close>: context and device handle, playback
  and duplex start, stop, close and destruction.  They are serialised by the session mutex; what the
  event thread does while one of them waits is a round of callbacks (\<open>handle_events\<close>).

  \<open>start\<close> and \<open>startDuplex\<close> return \<open>None\<close> where the selection of the alternate setting divides by
  zero.  The handle of \<open>libusb_wrap_sys_device\<close> is null when the call returns no data.
\<close>

section \<open>Stopping\<close>

definition requestStop :: "driver \<Rightarrow> driver" where
  "requestStop d =
     d\<lparr>mode := (mode d)\<lparr>stopRequested := True, captureActive := False, streaming := False\<rparr>,
       captureWake := wake_signal (captureWake d), playbackWake := wake_signal (playbackWake d)\<rparr>"

text \<open>Returning an interface to its idle alternate setting and releasing it.\<close>

definition release_playback :: "env \<Rightarrow> driver \<Rightarrow> driver" where
  "release_playback e d =
     (if device (ses d) \<noteq> None \<and> interfaceClaimed (claim d)
      then let d1 = (if altSetting (fmt d) \<noteq> 0 then snd (usb e (SetInterfaceAlt (interfaceNumber (fmt d)) 0) d) else d)
           in claim_update (interfaceClaimed_update (\<lambda>_. False)) (snd (usb e (ReleaseInterface (interfaceNumber (fmt d))) d1))
      else d)"

definition release_control :: "env \<Rightarrow> driver \<Rightarrow> driver" where
  "release_control e d =
     (if device (ses d) \<noteq> None \<and> controlInterfaceClaimed (claim d)
      then claim_update (controlInterfaceClaimed_update (\<lambda>_. False))
             (snd (usb e (ReleaseInterface (claimedControlIface (claim d))) d))
      else d)"

definition idle_capture_interface :: "env \<Rightarrow> driver \<Rightarrow> driver" where
  "idle_capture_interface e d =
     (let d1 = (if altSetting (captureFormat d) \<noteq> 0
                then snd (usb e (SetInterfaceAlt (interfaceNumber (captureFormat d)) 0) d) else d)
      in claim_update (captureInterfaceClaimed_update (\<lambda>_. False) \<circ> claimedCaptureIface_update (\<lambda>_. 0xFF))
           (snd (usb e (ReleaseInterface (claimedCaptureIface (claim d1))) d1)))"

definition release_capture :: "env \<Rightarrow> driver \<Rightarrow> driver" where
  "release_capture e d =
     (if device (ses d) \<noteq> None \<and> captureInterfaceClaimed (claim d) then idle_capture_interface e d else d)"

definition stop :: "env \<Rightarrow> event_source \<Rightarrow> driver \<Rightarrow> driver" where
  "stop e s d0 =
     (let d = requestStop d0 in
      if transfers (ses d) = [] \<and> captureTransfers (ses d) = [] \<and> \<not> interfaceClaimed (claim d) \<and>
         \<not> controlInterfaceClaimed (claim d) \<and> \<not> captureInterfaceClaimed (claim d) then d
      else (case stopIsoPump e s d of (playbackStopped, d1) \<Rightarrow>
        case stopCapturePump e s d1 of (captureStopped, d2) \<Rightarrow>
          if \<not> playbackStopped \<or> \<not> captureStopped then d2
          else
            let d3 = release_capture e (release_control e (release_playback e d2))
            in d3\<lparr>captureRing := (captureRing d3)\<lparr>rhead := 0, rtail := 0\<rparr>,
                 ccnt := (ccnt d3)\<lparr>captureSequence := 0, metadataFifoOverruns := 0, captureUnderruns := 0,
                    capturePacketDrops := 0\<rparr>\<rparr>))"

section \<open>Context and device\<close>

definition ensureContext :: "env \<Rightarrow> driver \<Rightarrow> bool \<times> driver" where
  "ensureContext e d =
     (if contextReady (ses d) then (True, d)
      else (case usb e InitContext (snd (usb e SetNoDeviceDiscovery d)) of (rc, d1) \<Rightarrow>
              if rc \<noteq> LIBUSB_SUCCESS then (False, d1)
              else (True, ses_update (contextReady_update (\<lambda>_. True)) d1)))"

text \<open>Something libusb may still write to.\<close>

definition still_live :: "driver \<Rightarrow> bool" where
  "still_live d \<longleftrightarrow> transfers (ses d) \<noteq> [] \<or> feedbackTransfers (ses d) \<noteq> [] \<or> captureTransfers (ses d) \<noteq> [] \<or>
     outstanding d \<noteq> 0 \<or> captureOutstanding d \<noteq> 0"

definition close_handle :: "env \<Rightarrow> driver \<Rightarrow> driver" where
  "close_handle e d =
     ses_update (device_update (\<lambda>_. None) \<circ> fileDescriptor_update (\<lambda>_. -1)) (snd (usb e CloseDevice d))"

definition kDefaultNumTransfers :: int where "kDefaultNumTransfers = 4"

definition open_device :: "env \<Rightarrow> event_source \<Rightarrow> usb_device \<Rightarrow> int \<Rightarrow> int \<Rightarrow> driver \<Rightarrow> bool \<times> driver" where
  "open_device e s u fd code d0 =
     (case ensureContext e d0 of (ready, d1) \<Rightarrow>
      if \<not> ready then (False, d1)
      else let d2 = stop e s d1 in
      if still_live d2 then (False, count_lifecycle_failure d2)
      else if device (ses d2) \<noteq> None \<and> fileDescriptor (ses d2) = fd \<and> driverCode (ses d2) = code then (True, d2)
      else
        let d3 = (if device (ses d2) \<noteq> None then close_handle e d2 else d2);
            handle = usb_data e (bus d3) (WrapSysDevice fd) in
        (case usb e (WrapSysDevice fd) d3 of (rc, d4) \<Rightarrow>
          if rc \<noteq> LIBUSB_SUCCESS \<or> handle = [] then (False, d4)
          else
            let d5 = ses_update (device_update (\<lambda>_. Some fd)) d4 in
            if code \<noteq> 0 \<and> code \<noteq> 1 then (False, close_handle e d5)
            else
              let d6 = ses_update (driverCode_update (\<lambda>_. code) \<circ> line6Profile_update (\<lambda>_. code = 1) \<circ>
                         fileDescriptor_update (\<lambda>_. fd)) d5 in
              if code = 1 \<and> (case deviceIds u of None \<Rightarrow> True
                   | Some (vid, pid) \<Rightarrow> vid \<noteq> 0x0e41 \<or> (pid \<noteq> 0x4141 \<and> pid \<noteq> 0x4150 \<and> pid \<noteq> 0x5555))
              then (False, close_handle e (ses_update (lastErrorDetail_update
                     (\<lambda>_. ''Line6 driver requires Line6 UX1 VID/PID 0e41:[4141,4150,5555]'')) d6))
              else (True, snd (usb e SetAutoDetach (buf_update (transferCount_update (\<lambda>_. kDefaultNumTransfers)) d6)))))"

definition close_device :: "env \<Rightarrow> event_source \<Rightarrow> driver \<Rightarrow> driver" where
  "close_device e s d0 =
     (let d = stop e s d0 in
      if still_live d then d
      else if device (ses d) \<noteq> None then (close_handle e d)\<lparr>fmt := defaultStreamFormat\<rparr>
      else d)"

section \<open>Destruction\<close>

text \<open>The final barrier services events until libusb holds nothing; \<open>None\<close> is waiting forever.\<close>

partial_function (option) await_quiet :: "env \<Rightarrow> event_source \<Rightarrow> driver \<Rightarrow> driver option" where
  "await_quiet e s d =
     (if outstanding d \<noteq> 0 \<or> captureOutstanding d \<noteq> 0 then await_quiet e s (handle_events e s d) else Some d)"

definition destroy :: "env \<Rightarrow> event_source \<Rightarrow> driver \<Rightarrow> driver option" where
  "destroy e s d0 =
     (let d = close_device e s (stop e s d0) in
      map_option (\<lambda>d1.
          let d2 = d1\<lparr>captureWake := wake_close (captureWake d1), playbackWake := wake_close (playbackWake d1)\<rparr>
          in if contextReady (ses d2) then ses_update (contextReady_update (\<lambda>_. False)) (snd (usb e ExitContext d2)) else d2)
        (if contextReady (ses d) \<and> (outstanding d \<noteq> 0 \<or> captureOutstanding d \<noteq> 0)
         then map_option (\<lambda>d1. close_device e s (stop e s d1))
                (await_quiet e s
                  (cancel_all e (captureTransfers (ses d)) (cancel_all e (feedbackTransfers (ses d))
                    (cancel_all e (transfers (ses d)) (mode_update (stopRequested_update (\<lambda>_. True)) d)))))
         else Some d))"

section \<open>Starting playback\<close>

text \<open>\<open>lastError\<close> and the rate inventory start clean.\<close>

definition clear_error :: "driver \<Rightarrow> driver" where
  "clear_error d = ses_update (lastError_update (\<lambda>_. Ok) \<circ> lastErrorDetail_update (\<lambda>_. []) \<circ> supportedRates_update (\<lambda>_. [])) d"

definition line6_request :: "int \<Rightarrow> int \<Rightarrow> int \<Rightarrow> int \<Rightarrow> bool" where
  "line6_request rate bits chans nbytes \<longleftrightarrow> rate = 44100 \<and> bits = 16 \<and> chans = 2 \<and> (nbytes = 0 \<or> nbytes = 2)"

text \<open>Stopping what a previous start left behind; \<open>None\<close> when it does not stop in time.\<close>

definition needs_reconfigure :: "driver \<Rightarrow> bool" where
  "needs_reconfigure d \<longleftrightarrow> streaming (mode d) \<or> transfers (ses d) \<noteq> [] \<or> feedbackTransfers (ses d) \<noteq> [] \<or>
     captureTransfers (ses d) \<noteq> [] \<or> eventThread (ses d) \<or> outstanding d \<noteq> 0 \<or> captureOutstanding d \<noteq> 0 \<or>
     captureInterfaceClaimed (claim d)"

definition reconfigure :: "env \<Rightarrow> event_source \<Rightarrow> driver \<Rightarrow> bool \<times> driver" where
  "reconfigure e s d =
     (if \<not> needs_reconfigure d then (True, d)
      else (case stopIsoPump e s (mode_update (captureActive_update (\<lambda>_. False)) d) of (playbackStopped, d1) \<Rightarrow>
        case stopCapturePump e s d1 of (captureStopped, d2) \<Rightarrow>
          if \<not> playbackStopped \<or> \<not> captureStopped
          then (False, report_error IsoPumpSubmitFailed ''previous USB transfers did not stop within 500 ms'' d2)
          else
            let d3 = (if captureInterfaceClaimed (claim d2) then idle_capture_interface e d2 else d2)
            in (True, d3\<lparr>captureRing := (captureRing d3)\<lparr>rhead := 0, rtail := 0\<rparr>,
                 mode := (mode d3)\<lparr>captureLive := False, streaming := False\<rparr>,
                 ccnt := (ccnt d3)\<lparr>startupCaptureDiscardFrames := 0, captureSequence := 0, captureOverruns := 0,
                    metadataFifoOverruns := 0, captureUnderruns := 0, capturePacketDrops := 0\<rparr>\<rparr>)))"

text \<open>Claiming the streaming interface, and the control interface when the format names one.\<close>

definition rightarrow :: string where "rightarrow = [CHR 0xE2, CHR 0x86, CHR 0x92]"

definition claim_streaming :: "env \<Rightarrow> usb_device \<Rightarrow> StreamFormat \<Rightarrow> driver \<Rightarrow> bool \<times> driver" where
  "claim_streaming e u f d =
     (if interfaceClaimed (claim d) \<and> interfaceNumber (fmt d) = interfaceNumber f then (True, d)
      else
        let d1 = (if interfaceClaimed (claim d)
                  then claim_update (interfaceClaimed_update (\<lambda>_. False))
                         (snd (usb e (ReleaseInterface (interfaceNumber (fmt d))) d))
                  else d) in
        (case usb e (ClaimInterface (interfaceNumber f)) d1 of (rc, d2) \<Rightarrow>
          if rc \<noteq> LIBUSB_SUCCESS
          then (False, report_error ClaimInterfaceFailed
                 (''libusb_claim_interface('' @ to_string (uint (interfaceNumber f)) @ '') -> '' @ libusb_strerror u rc @
                  ''. Most likely Android'' @ [CHR 0x27] @ ''s audio HAL still owns the streaming interface '' @ emdash @
                  '' turn ON Developer Options '' @ rightarrow @ '' Disable USB audio routing, and ensure '' @
                  ''the framework-routing toggle (above) is OFF.'') d2)
          else (True, claim_update (interfaceClaimed_update (\<lambda>_. True)) d2)))"

definition claim_control :: "env \<Rightarrow> StreamFormat \<Rightarrow> driver \<Rightarrow> driver" where
  "claim_control e f d =
     (if controlInterfaceNum f \<noteq> 0xFF \<and>
         (\<not> controlInterfaceClaimed (claim d) \<or> claimedControlIface (claim d) \<noteq> controlInterfaceNum f)
      then
        let d1 = (if controlInterfaceClaimed (claim d)
                  then claim_update (controlInterfaceClaimed_update (\<lambda>_. False))
                         (snd (usb e (ReleaseInterface (claimedControlIface (claim d))) d))
                  else d) in
        (case usb e (ClaimInterface (controlInterfaceNum f)) d1 of (rc, d2) \<Rightarrow>
          if rc \<noteq> LIBUSB_SUCCESS then d2
          else claim_update (controlInterfaceClaimed_update (\<lambda>_. True) \<circ>
                 claimedControlIface_update (\<lambda>_. controlInterfaceNum f)) d2)
      else d)"

text \<open>The ring, the ledgers and the envelopes before priming.\<close>

definition reset_session :: "driver \<Rightarrow> driver" where
  "reset_session d =
     d\<lparr>buf := (buf d)\<lparr>playbackFrameStride := max 1 (strideOf (fmt d))\<rparr>,
       ring := (ring d)\<lparr>rhead := 0, rtail := 0\<rparr>,
       led := (led d)\<lparr>writtenFrames := 0, playedFrames := 0, playbackCredit := 0\<rparr>,
       ccnt := (ccnt d)\<lparr>implicitMetadataInvalid := 0\<rparr>,
       pcnt := (pcnt d)\<lparr>playbackOverruns := 0, playbackUnderruns := 0, playbackShortPackets := 0, playbackShortFrames := 0,
          deferredNoMetadata := 0, transferDiscontinuities := 0, deferredNoPcm := 0, deferredTransfers := 0,
          pendingDepth := 0, pendingHighWater := 0, zeroRunwayEvents := 0, maxPendingAgeNs := 0\<rparr>,
       mode := (mode d)\<lparr>playbackOverrunActive := False, playbackUnderrunActive := False, playbackStarted := False,
          stopRequested := False, transportFailed := False, eventThreadUrgentAudio := False,
          implicitZeroRunwayActive := False\<rparr>,
       gaps := (gaps d)\<lparr>lastCompletionNs := 0, maxCompletionGapNs := 0, serviceGapCount := 0, worstGapInflight := -1,
          worstGapPending := -1, worstGapRing := -1, maxMissingDrains := 0\<rparr>,
       fill := (fill d)\<lparr>queuedOutLowWater := UINT64_MAX, ringLowWater := UINT64_MAX, drainFramesMin := UINT64_MAX,
          drainFramesMax := 0, writesSinceDrain := 0, maxWritesBetweenDrains := 0,
          ringOccupancy := map (\<lambda>_. 0) (ringOccupancy (fill d)), ringOccupancySamples := 0, ringHighWater := 0\<rparr>,
       ses := (ses d)\<lparr>eventThreadTid := 0\<rparr>\<rparr>"

section \<open>The implicit-feedback prime\<close>

text \<open>A wait on a channel: the event thread works meanwhile, and the poll succeeds if the channel is
  signalled afterwards.\<close>

definition poll_wake :: "wake \<Rightarrow> bool" where
  "poll_wake w \<longleftrightarrow> wake_poll [(if wk_count w = 0 then 0 else 1, False)] w = Some True"

definition remaining_ms :: "u64 \<Rightarrow> u64 \<Rightarrow> int" where
  "remaining_ms deadline now = cdiv (uint deadline - uint now) 1000000"

fun prime_wait :: "env \<Rightarrow> event_source \<Rightarrow> u64 \<Rightarrow> u64 \<Rightarrow> nat \<Rightarrow> driver \<Rightarrow> driver" where
  "prime_wait e s required deadline 0 d = d"
| "prime_wait e s required deadline (Suc fuel) d =
     (if implicitWrite (fifo d) - implicitRead (fifo d) < required \<and> \<not> stopRequested (mode d)
      then (case monotonicNowNs e d of (now, d1) \<Rightarrow>
        if remaining_ms deadline now \<le> 0 then d1
        else let d2 = handle_events e s d1 in
          if \<not> poll_wake (captureWake d2) then d2
          else prime_wait e s required deadline fuel (d2\<lparr>captureWake := wake_drain (captureWake d2)\<rparr>))
      else d)"

definition required_metadata :: "driver \<Rightarrow> u64" where
  "required_metadata d =
     size_of_int (transferCount (buf d)) *
     size_of_int (packetsPerTransferForRate (packetsPerSecondForInterval (isHighSpeed (fmt d)) (uint (bInterval (fmt d)))))"

definition await_metadata :: "env \<Rightarrow> event_source \<Rightarrow> driver \<Rightarrow> driver" where
  "await_metadata e s d =
     (case monotonicNowNs e d of (now, d1) \<Rightarrow>
        prime_wait e s (required_metadata d) (now + 50000000) (spin_fuel e)
          (d1\<lparr>captureWake := wake_register (captureWake d1)\<rparr>))"

definition metadata_ready :: "u64 \<Rightarrow> driver \<Rightarrow> bool" where
  "metadata_ready required d \<longleftrightarrow> \<not> implicitWrite (fifo d) - implicitRead (fifo d) < required"

definition leave_wait :: "driver \<Rightarrow> driver" where
  "leave_wait d = d\<lparr>captureWake := wake_unregister (captureWake d)\<rparr>"

section \<open>Starting duplex\<close>

definition line6_fail :: "env \<Rightarrow> event_source \<Rightarrow> StartError \<Rightarrow> string \<Rightarrow> driver \<Rightarrow> bool \<times> driver" where
  "line6_fail e s code detail d =
     (let d1 = mode_update (captureActive_update (\<lambda>_. False)) (report_error code detail d);
          d2 = snd (stopCapturePump e s (snd (stopIsoPump e s d1)));
          d3 = (if device (ses d2) \<noteq> None \<and> interfaceClaimed (claim d2)
                then claim_update (interfaceClaimed_update (\<lambda>_. False))
                       (snd (usb e (ReleaseInterface (interfaceNumber (fmt d2)))
                         (snd (usb e (SetInterfaceAlt (interfaceNumber (fmt d2)) 0) d2))))
                else d2)
      in (False, mode_update (streaming_update (\<lambda>_. False)) d3))"

definition line6_reset :: "StreamFormat \<Rightarrow> StreamFormat \<Rightarrow> driver \<Rightarrow> driver" where
  "line6_reset pb cap d =
     d\<lparr>claim := (claim d)\<lparr>interfaceClaimed := True\<rparr>,
       mode := (mode d)\<lparr>stopRequested := False, streaming := False, playbackStarted := False, transportFailed := False\<rparr>,
       captureRing := (captureRing d)\<lparr>rhead := 0, rtail := 0\<rparr>, ring := (ring d)\<lparr>rhead := 0, rtail := 0\<rparr>,
       fifo := (fifo d)\<lparr>implicitRead := 0, implicitWrite := 0\<rparr>, pendingImplicit := [],
       pcnt := (pcnt d)\<lparr>pendingDepth := 0\<rparr>, led := (led d)\<lparr>inflight := 0, captureInflight := 0\<rparr>,
       fmt := pb, captureFormat := cap\<rparr>"

definition line6_active :: "driver \<Rightarrow> bool" where
  "line6_active d \<longleftrightarrow> streaming (mode d) \<or> captureActive (mode d) \<or> transfers (ses d) \<noteq> [] \<or> captureTransfers (ses d) \<noteq> [] \<or>
     eventThread (ses d) \<or> outstanding d \<noteq> 0 \<or> captureOutstanding d \<noteq> 0"

text \<open>From the running capture pump on: wait for the metadata, prepare the playback pump.\<close>

definition line6_prime :: "env \<Rightarrow> event_source \<Rightarrow> usb_device \<Rightarrow> driver \<Rightarrow> bool \<times> driver" where
  "line6_prime e s u d =
     apsnd leave_wait
       (let d1 = await_metadata e s d in
        if \<not> metadata_ready (required_metadata d) d1
        then line6_fail e s IsoPumpSubmitFailed ''implicit-feedback capture did not prime output within 50 ms'' d1
        else (case startIsoPump e s u False d1 of (ok, d2) \<Rightarrow>
          if \<not> ok then line6_fail e s IsoPumpSubmitFailed ''Line6 UX1 playback pump failed'' d2
          else (True, mode_update (streaming_update (\<lambda>_. True)) d2)))"

definition line6StartDuplex :: "env \<Rightarrow> event_source \<Rightarrow> usb_device \<Rightarrow> u32 \<Rightarrow> driver \<Rightarrow> bool \<times> driver" where
  "line6StartDuplex e s u epoch d =
     (if line6_active d
      then (False, report_error IsoPumpSubmitFailed ''Line6 UX1 start requested while USB transfers are still active'' d)
      else (case line6SelectFormat u d of
        None \<Rightarrow> line6_fail e s NoMatchingAlt ''Line6 UX1 alt 2 with endpoints 0x01/0x82 not found'' d
      | Some (pb, cap) \<Rightarrow>
          (case (if interfaceClaimed (claim d) then (LIBUSB_SUCCESS, d) else usb e (ClaimInterface (interfaceNumber pb)) d) of (rc, d1) \<Rightarrow>
            if rc \<noteq> LIBUSB_SUCCESS
            then line6_fail e s ClaimInterfaceFailed ''libusb_claim_interface failed for Line6 UX1 streaming interface'' d1
            else (case usb e (SetInterfaceAlt (interfaceNumber pb) 2) (line6_reset pb cap d1) of (rc2, d2) \<Rightarrow>
              if rc2 \<noteq> LIBUSB_SUCCESS then line6_fail e s SetAltFailed ''Line6 UX1 set alternate setting 2 failed'' d2
              else (case line6VendorSetup e epoch d2 of (ok3, d3) \<Rightarrow>
                if \<not> ok3 then line6_fail e s SetSampleRateFailed ''Line6 UX1 vendor initialization failed'' d3
                else (case ensureEventThread d3 of (ok4, d4) \<Rightarrow>
                  if \<not> ok4 then line6_fail e s IsoPumpAllocFailed ''Line6 UX1 event thread failed'' d4
                  else (case startCapturePump e s u d4 of (ok5, d5) \<Rightarrow>
                    if \<not> ok5 then line6_fail e s IsoPumpAllocFailed ''Line6 UX1 capture pump failed'' d5
                    else line6_prime e s u d5)))))))"

text \<open>From the selected format on: claims, alternate setting, sample rate, reset, pump.\<close>

definition start_format :: "env \<Rightarrow> event_source \<Rightarrow> usb_device \<Rightarrow> int \<Rightarrow> StreamFormat \<Rightarrow> driver \<Rightarrow> bool \<times> driver" where
  "start_format e s u rate f d2 =
     (case claim_streaming e u f d2 of (ok3, d3) \<Rightarrow>
        if \<not> ok3 then (False, d3)
        else (case usb e (SetInterfaceAlt (interfaceNumber f) (altSetting f)) ((claim_control e f d3)\<lparr>fmt := f\<rparr>) of (rc, d4) \<Rightarrow>
          if rc \<noteq> LIBUSB_SUCCESS
          then (False, report_error SetAltFailed (''libusb_set_interface_alt_setting(iface='' @
                 to_string (uint (interfaceNumber f)) @ '', alt='' @ to_string (uint (altSetting f)) @ '') -> '' @
                 libusb_strerror u rc) d4)
          else (case setSampleRate e (u32_of_int rate) d4 of (ok5, d5) \<Rightarrow>
            if \<not> ok5
            then (False, report_error SetSampleRateFailed (''no clock entity accepted SET_CUR('' @ to_string rate @
                   '' Hz) and GET_CUR didn'' @ [CHR 0x27] @ ''t already report this rate. '' @
                   ''Check the GET_RANGE log lines for what rates each clock supports.'') d5)
            else (case (if deferOutputStart (mode d5) then (True, reset_session d5)
                        else startIsoPump e s u True (reset_session d5)) of (ok6, d6) \<Rightarrow>
              if \<not> ok6
              then (False, if lastError (ses d6) = Ok
                           then report_error IsoPumpAllocFailed ''iso pump failed to start (see logcat for details)'' d6 else d6)
              else (True, mode_update (streaming_update (\<lambda>_. \<not> deferOutputStart (mode d6))) d6)))))"

definition start :: "env \<Rightarrow> event_source \<Rightarrow> usb_device \<Rightarrow> u32 \<Rightarrow> int \<Rightarrow> int \<Rightarrow> int \<Rightarrow> int \<Rightarrow> driver \<Rightarrow> (bool \<times> driver) option" where
  "start e s u epoch rate bits chans nbytes d0 =
     (let d = clear_error d0 in
      if device (ses d) = None
      then Some (False, report_error NoDevice
             (''start() called before open() '' @ emdash @ '' no UsbDeviceConnection wrapped yet'') d)
      else if line6Profile (ses d)
      then if \<not> line6_request rate bits chans nbytes
           then Some (False, report_error NoMatchingAlt ''Line6 UX1 requires fixed 44100 Hz / 16-bit / 2-channel PCM'' d)
           else Some (line6StartDuplex e s u epoch d)
      else if \<not> wake_valid (captureWake d) \<or> \<not> wake_valid (playbackWake d)
      then Some (False, report_error IsoPumpAllocFailed (''eventfd creation failed: '' @ errnoText u) d)
      else (case reconfigure e s d of (ok1, d1) \<Rightarrow>
        if \<not> ok1 then Some (False, d1)
        else (case selectAltSetting u rate bits chans nbytes defaultStreamFormat d1 of
          None \<Rightarrow> None
        | Some (None, d2) \<Rightarrow> Some (False, report_error NoMatchingAlt
             (''no AS alt setting matches '' @ to_string rate @ '' Hz / '' @ to_string bits @ ''-bit / '' @ to_string chans @
              ''ch '' @ emdash @ '' DAC may not support this rate at this bit depth'') d2)
        | Some (Some f, d2) \<Rightarrow> Some (start_format e s u rate f d2))))"

text \<open>Claiming and arming the capture side; the format is that of the prepared playback side.\<close>

definition reset_duplex :: "driver \<Rightarrow> driver" where
  "reset_duplex d =
     d\<lparr>captureRing := (captureRing d)\<lparr>rhead := 0, rtail := 0\<rparr>,
       fifo := (fifo d)\<lparr>implicitRead := 0, implicitWrite := 0\<rparr>,
       ccnt := (ccnt d)\<lparr>captureOverruns := 0, captureUnderruns := 0, capturePacketDrops := 0, captureSequence := 0,
          metadataFifoOverruns := 0, captureTransferErrors := 0\<rparr>,
       pcnt := (pcnt d)\<lparr>deferredTransfers := 0, pendingDepth := 0, pendingHighWater := 0, zeroRunwayEvents := 0,
          maxPendingAgeNs := 0, playbackTransferErrors := 0, lifecycleFailures := 0\<rparr>,
       mode := (mode d)\<lparr>implicitZeroRunwayActive := False\<rparr>\<rparr>"

definition arm_capture :: "env \<Rightarrow> event_source \<Rightarrow> usb_device \<Rightarrow> driver \<Rightarrow> bool \<times> driver" where
  "arm_capture e s u d =
     (case selectCaptureAltSetting u (fmt d) of
        None \<Rightarrow> (False, report_error NoMatchingAlt
                   ''no capture alternate setting matches the selected playback format and clock'' d)
      | Some cap \<Rightarrow>
          if interfaceNumber cap = interfaceNumber (fmt d)
          then (False, report_error ClaimInterfaceFailed
                  ''capture and playback resolve to the same streaming interface'' d)
          else (case usb e (ClaimInterface (interfaceNumber cap)) d of (rc, d1) \<Rightarrow>
            if rc \<noteq> LIBUSB_SUCCESS
            then (False, report_error ClaimInterfaceFailed (''libusb_claim_interface(capture='' @
                    to_string (uint (interfaceNumber cap)) @ '') -> '' @ libusb_strerror u rc) d1)
            else
              let d2 = d1\<lparr>claim := (claim d1)\<lparr>captureInterfaceClaimed := True, claimedCaptureIface := interfaceNumber cap\<rparr>,
                          captureFormat := cap\<rparr> in
              (case usb e (SetInterfaceAlt (interfaceNumber cap) (altSetting cap)) d2 of (rc2, d3) \<Rightarrow>
                if rc2 \<noteq> LIBUSB_SUCCESS
                then (False, report_error SetAltFailed (''set capture alternate setting failed: '' @ libusb_strerror u rc2) d3)
                else startCapturePump e s u (reset_duplex d3))))"

text \<open>Waiting for the metadata of implicit feedback, when playback follows the capture clock.\<close>

definition duplex_prime :: "env \<Rightarrow> event_source \<Rightarrow> driver \<Rightarrow> bool \<times> driver" where
  "duplex_prime e s d =
     (if implicit_mode d
      then
        let d1 = ses_update (eventThread_update (\<lambda>_. True)) d;
            d2 = await_metadata e s d1 in
        if \<not> metadata_ready (required_metadata d) d2
        then (False, leave_wait (stop e s (report_error IsoPumpSubmitFailed
                ''implicit-feedback capture did not prime output within 50 ms'' d2)))
        else (True, leave_wait d2)
      else (True, d))"

definition startDuplex :: "env \<Rightarrow> event_source \<Rightarrow> usb_device \<Rightarrow> u32 \<Rightarrow> int \<Rightarrow> int \<Rightarrow> int \<Rightarrow> int \<Rightarrow> driver \<Rightarrow> (bool \<times> driver) option" where
  "startDuplex e s u epoch rate bits chans nbytes d =
     (if line6Profile (ses d)
      then if \<not> line6_request rate bits chans nbytes
           then Some (False, report_error NoMatchingAlt ''Line6 UX1 requires 44100 Hz / 16-bit / 2-channel PCM'' d)
           else Some (line6StartDuplex e s u epoch d)
      else (case start e s u epoch rate bits chans nbytes (mode_update (deferOutputStart_update (\<lambda>_. True)) d) of
        None \<Rightarrow> None
      | Some (prepared, d1) \<Rightarrow> Some
          (let d2 = mode_update (deferOutputStart_update (\<lambda>_. False)) d1 in
           if \<not> prepared then (False, d2)
           else (case arm_capture e s u d2 of (captureStarted, d3) \<Rightarrow>
             if \<not> captureStarted then (False, stop e s d3)
             else (case duplex_prime e s d3 of (primed, d4) \<Rightarrow>
               if \<not> primed then (False, d4)
               else (case startIsoPump e s u False d4 of (ok, d5) \<Rightarrow>
                 if \<not> ok then (False, stop e s d5)
                 else (True, mode_update (streaming_update (\<lambda>_. True)) d5)))))))"

end
