(* ===== verification/Shutdown.thy ===== *)
theory Shutdown
  imports Lifecycle
begin

text \<open>
  What \<open>stop\<close>, \<open>close\<close> and the destructor guarantee.  A stopping driver resubmits nothing, so servicing
  events only retires transfers; storage is freed and interfaces are released only when libusb holds
  nothing, and otherwise everything libusb may still write to is kept.  The calls a stop makes are logged, and
  begin with the cancellation of everything allocated (\<open>logs\<close>).

  The assumptions on libusb are \<open>held\<close>, that it completes only transfers it holds, and, for the claims that
  something does finish, \<open>prompt\<close> (the cancelled transfers complete in one round, within half a second) for
  \<open>stop\<close> and \<open>delivers\<close> (each round completes something) for the destructor.
\<close>

section \<open>Lemmas: winding down\<close>

text \<open>What servicing a stopping driver leaves alone.\<close>

definition winds_down :: "driver \<Rightarrow> driver \<Rightarrow> bool" where
  "winds_down d d' \<longleftrightarrow> mode d' = mode d \<and> ses d' = ses d \<and> claim d' = claim d \<and> fmt d' = fmt d \<and>
     captureFormat d' = captureFormat d \<and> pcnt d' = pcnt d \<and> submitted_xfers OutEndpoint (bus d') = submitted_xfers OutEndpoint (bus d)"

lemma winds_down_refl [simp]: "winds_down d d"
  by (simp add: winds_down_def)

lemma winds_down_trans: "winds_down a b \<Longrightarrow> winds_down b c \<Longrightarrow> winds_down a c"
  by (simp add: winds_down_def)

abbreviation (input) playing :: "xfer \<Rightarrow> bool" where "playing x \<equiv> xf_kind x \<noteq> InEndpoint"
abbreviation (input) capturing_xfer :: "xfer \<Rightarrow> bool" where "capturing_xfer x \<equiv> xf_kind x = InEndpoint"

lemma complete_stopping:
  assumes "stopRequested (mode d)"
  shows "winds_down d (complete e s x d)" "clock_reads (complete e s x d) = clock_reads d"
    "outstanding (complete e s x d) = outstanding d - (if playing x then 1 else 0)"
    "captureOutstanding (complete e s x d) = captureOutstanding d - (if capturing_xfer x then 1 else 0)"
  using assms
  by (cases "xf_kind x"; simp add: complete_def onIsoTrampoline_def onIso_def onFeedback_def onCapture_def Let_def retire_defs
      winds_down_def outstanding_def captureOutstanding_def case_prod_beta)+

lemma complete_stopping_bus: "stopRequested (mode d) \<Longrightarrow> bus (complete e s x d) = bus d"
  by (cases "xf_kind x"; simp add: complete_def onIsoTrampoline_def onIso_def onFeedback_def onCapture_def Let_def retire_defs case_prod_beta)

lemma fold_complete_stopping:
  "stopRequested (mode d) \<Longrightarrow>
   winds_down d (fold (complete e s) xs d) \<and> clock_reads (fold (complete e s) xs d) = clock_reads d \<and>
   outstanding (fold (complete e s) xs d) = outstanding d - int (length (filter playing xs)) \<and>
   captureOutstanding (fold (complete e s) xs d) = captureOutstanding d - int (length (filter capturing_xfer xs))"
proof (induction xs arbitrary: d)
  case (Cons x xs)
  note c = complete_stopping [OF Cons.prems, of e s x]
  have "stopRequested (mode (complete e s x d))" using Cons.prems c(1) by (simp add: winds_down_def)
  from Cons.IH [OF this] show ?case using winds_down_trans [OF c(1)] c(2-4) by simp
qed simp

text \<open>libusb completes only transfers it holds.\<close>

definition held :: "event_source \<Rightarrow> bool" where
  "held s \<longleftrightarrow> (\<forall>d. 0 \<le> outstanding d \<and> 0 \<le> captureOutstanding d \<longrightarrow>
     int (length (filter playing (due s d))) \<le> outstanding d \<and>
     int (length (filter capturing_xfer (due s d))) \<le> captureOutstanding d)"

text \<open>A stopping driver whose counts are those of transfers libusb holds, and how it goes on: nothing is
  submitted, and a count never grows nor falls below zero.\<close>

definition winding :: "driver \<Rightarrow> bool" where
  "winding d \<longleftrightarrow> stopRequested (mode d) \<and> 0 \<le> outstanding d \<and> 0 \<le> captureOutstanding d"

definition drains :: "driver \<Rightarrow> driver \<Rightarrow> bool" where
  "drains d d' \<longleftrightarrow> winds_down d d' \<and> winding d' \<and> outstanding d' \<le> outstanding d \<and> captureOutstanding d' \<le> captureOutstanding d"

lemma drains_refl: "winding d \<Longrightarrow> drains d d"
  by (simp add: drains_def)

lemma drains_trans: "drains a b \<Longrightarrow> drains b c \<Longrightarrow> drains a c"
  by (auto simp: drains_def intro: winds_down_trans)

lemma drains_then: "drains a b \<Longrightarrow> (winding b \<Longrightarrow> drains b c) \<Longrightarrow> drains a c"
  using drains_trans [of a b c] by (simp add: drains_def)

lemma drains_winding: "drains a b \<Longrightarrow> winding b"
  by (simp add: drains_def)

lemma handle_events_drains:
  assumes h: "held s" and w: "winding d"
  shows "drains d (handle_events e s d)"
  using fold_complete_stopping [of d e s "due s d"] h w
  by (simp add: drains_def winding_def held_def handle_events_def winds_down_def)

lemma clock_drains: "winding d \<Longrightarrow> monotonicNowNs e d = (now, d1) \<Longrightarrow> drains d d1"
  by (auto simp: monotonicNowNs_def drains_def winding_def winds_down_def outstanding_def captureOutstanding_def)

lemma service_until_drains:
  assumes h: "held s"
  shows "winding d \<Longrightarrow> drains d (service_until e s cnt deadline fuel d)"
proof (induction fuel arbitrary: d)
  case 0
  then show ?case by (simp add: drains_refl)
next
  case (Suc fuel)
  obtain now d1 where c: "monotonicNowNs e d = (now, d1)" by fastforce
  have d1: "drains d d1" using Suc.prems c by (rule clock_drains)
  then have "drains d (handle_events e s d1)" by (rule drains_then) (rule handle_events_drains [OF h])
  then have "drains d (service_until e s cnt deadline fuel (handle_events e s d1))" by (rule drains_then) (rule Suc.IH)
  then show ?case using Suc.prems d1 drains_refl by (simp add: c)
qed

lemma settle_drains: "held s \<Longrightarrow> winding d \<Longrightarrow> drains d (settle e s cnt d)"
proof -
  assume h: "held s" and w: "winding d"
  obtain now d1 where c: "monotonicNowNs e d = (now, d1)" by fastforce
  have "drains d d1" using w c by (rule clock_drains)
  then show ?thesis unfolding settle_def c prod.case by (rule drains_then) (rule service_until_drains [OF h])
qed

lemma cancel_all_drains:
  "winding d \<Longrightarrow> drains d (cancel_all e xs d)"
proof (induction xs arbitrary: d)
  case (Cons x xs)
  let ?d = "snd (usb e (Cancel (xf_id x)) d)"
  have "drains d ?d"
    using Cons.prems by (simp add: usb_def Let_def drains_def winding_def winds_down_def outstanding_def captureOutstanding_def)
  then have "drains d (cancel_all e xs ?d)" by (rule drains_then) (rule Cons.IH)
  then show ?case by (simp add: cancel_all_def)
qed (simp add: cancel_all_def drains_refl)

section \<open>Lemmas: which calls are made\<close>

text \<open>Servicing a stopping driver makes no libusb call, so what a stopping pump logs is its cancellations.\<close>

lemma handle_events_bus: "stopRequested (mode d) \<Longrightarrow> bus (handle_events e s d) = bus d"
proof -
  have "stopRequested (mode d) \<Longrightarrow> bus (fold (complete e s) xs d) = bus d" for xs
  proof (induction xs arbitrary: d)
    case (Cons x xs)
    then show ?case using complete_stopping(1) [OF Cons.prems, of e s x] by (simp add: complete_stopping_bus winds_down_def)
  qed simp
  then show "stopRequested (mode d) \<Longrightarrow> bus (handle_events e s d) = bus d" by (simp add: handle_events_def)
qed

lemma handle_events_mode: "stopRequested (mode d) \<Longrightarrow> mode (handle_events e s d) = mode d"
  using fold_complete_stopping [of d e s "due s d"] by (simp add: handle_events_def winds_down_def)

lemma service_until_bus: "stopRequested (mode d) \<Longrightarrow> bus (service_until e s cnt deadline fuel d) = bus d"
  by (induction fuel arbitrary: d)
    (auto simp: monotonicNowNs_def handle_events_bus handle_events_mode split: prod.splits)

lemma settle_bus: "stopRequested (mode d) \<Longrightarrow> bus (settle e s cnt d) = bus d"
  by (auto simp: settle_def monotonicNowNs_def service_until_bus split: prod.splits)

abbreviation (input) cancels :: "xfer list \<Rightarrow> usb_call list" where "cancels xs \<equiv> map (\<lambda>x. Cancel (xf_id x)) xs"

definition logs :: "usb_call list \<Rightarrow> driver \<Rightarrow> driver \<Rightarrow> bool" where
  "logs cs d d' \<longleftrightarrow> take (length (bus d)) (bus d') = bus d \<and> map fst (drop (length (bus d)) (bus d')) = cs"

lemma logs_iff: "logs cs d d' \<longleftrightarrow> (\<exists>calls. bus d' = bus d @ calls \<and> map fst calls = cs)"
  unfolding logs_def by (metis append_eq_conv_conj)

lemma logs_trans: "logs as a b \<Longrightarrow> logs bs b c \<Longrightarrow> logs (as @ bs) a c"
  by (auto simp: logs_iff)

lemma logs_nothing: "bus d' = bus d \<Longrightarrow> logs [] d d'"
  by (simp add: logs_iff)

lemma cancel_all_logs: "logs (cancels xs) d (cancel_all e xs d)"
proof (induction xs arbitrary: d)
  case (Cons x xs)
  have "logs [Cancel (xf_id x)] d (snd (usb e (Cancel (xf_id x)) d))" by (simp add: logs_iff usb_def Let_def)
  from logs_trans [OF this Cons.IH] show ?case by (simp add: cancel_all_def)
qed (simp add: cancel_all_def logs_iff)

section \<open>Lemmas: the pumps stop\<close>

lemma join_event_thread_drains:
  assumes "held s" "winding d"
  shows "winding (join_event_thread e s d)" "outstanding (join_event_thread e s d) \<le> outstanding d"
    "captureOutstanding (join_event_thread e s d) \<le> captureOutstanding d" "mode (join_event_thread e s d) = mode d"
    "claim (join_event_thread e s d) = claim d" "captureTransfers (ses (join_event_thread e s d)) = captureTransfers (ses d)"
    "device (ses (join_event_thread e s d)) = device (ses d)" "contextReady (ses (join_event_thread e s d)) = contextReady (ses d)"
    "\<not> eventThread (ses (join_event_thread e s d))"
  using handle_events_drains [OF assms, of e] assms(2)
  by (simp_all add: join_event_thread_def drains_def winding_def winds_down_def outstanding_def captureOutstanding_def)

lemma stopIsoPump_outcome:
  assumes h: "held s" and w: "0 \<le> outstanding d" "0 \<le> captureOutstanding d" and p: "stopIsoPump e s d = (ok, d')"
  shows "winding d'" "captureOutstanding d' \<le> captureOutstanding d" "claim d' = claim d" "device (ses d') = device (ses d)"
    "captureTransfers (ses d') = captureTransfers (ses d)" "contextReady (ses d') = contextReady (ses d)"
    "streaming (mode d') = streaming (mode d)" "captureActive (mode d') = captureActive (mode d)" "outstanding d' \<le> outstanding d"
    and "ok \<Longrightarrow> outstanding d' = 0 \<and> transfers (ses d') = [] \<and> feedbackTransfers (ses d') = [] \<and> \<not> eventThread (ses d')"
    and "\<not> ok \<Longrightarrow> outstanding d' \<noteq> 0 \<and> transfers (ses d') = transfers (ses d) \<and> feedbackTransfers (ses d') = feedbackTransfers (ses d)"
proof -
  define d1 where "d1 = mode_update (stopRequested_update (\<lambda>_. True)) d"
  have w1: "winding d1" using w by (simp add: winding_def d1_def outstanding_def captureOutstanding_def)
  define d2 where "d2 = settle e s outstanding (cancel_all e (feedbackTransfers (ses d1)) (cancel_all e (transfers (ses d1)) d1))"
  have "drains d1 (cancel_all e (transfers (ses d1)) d1)" by (rule cancel_all_drains [OF w1])
  then have "drains d1 (cancel_all e (feedbackTransfers (ses d1)) (cancel_all e (transfers (ses d1)) d1))"
    by (rule drains_then) (rule cancel_all_drains)
  then have dr: "drains d1 d2" unfolding d2_def by (rule drains_then) (rule settle_drains [OF h])
  have f2: "mode d2 = mode d1" "ses d2 = ses d" "claim d2 = claim d" "captureOutstanding d2 \<le> captureOutstanding d"
    "outstanding d2 \<le> outstanding d"
    using dr by (simp_all add: drains_def winds_down_def d1_def outstanding_def captureOutstanding_def)
  define d3 where "d3 = join_event_thread e s d2"
  note k = join_event_thread_drains [OF h drains_winding [OF dr], of e, folded d3_def]
  have o0: "outstanding d3 = 0" if "outstanding d2 = 0" using that k(1,2) by (simp add: winding_def)
  have pp: "(if outstanding d2 \<noteq> 0 then (False, count_lifecycle_failure d2)
      else (True, d3\<lparr>pendingImplicit := [], pcnt := (pcnt d3)\<lparr>pendingDepth := 0\<rparr>,
                 ses := (ses d3)\<lparr>transfers := [], feedbackTransfers := []\<rparr>,
                 led := (led d3)\<lparr>queuedOutFrames := 0\<rparr>, mode := (mode d3)\<lparr>playbackStarted := False\<rparr>\<rparr>)) = (ok, d')"
    using p unfolding stopIsoPump_def Let_def d1_def [symmetric] d2_def [symmetric] d3_def [symmetric] .
  have m1: "streaming (mode d1) = streaming (mode d)" "captureActive (mode d1) = captureActive (mode d)" by (simp_all add: d1_def)
  have "winding d' \<and> captureOutstanding d' \<le> captureOutstanding d \<and> claim d' = claim d \<and> device (ses d') = device (ses d) \<and>
    captureTransfers (ses d') = captureTransfers (ses d) \<and> contextReady (ses d') = contextReady (ses d) \<and>
    streaming (mode d') = streaming (mode d) \<and> captureActive (mode d') = captureActive (mode d) \<and> outstanding d' \<le> outstanding d \<and>
    (if ok then outstanding d' = 0 \<and> transfers (ses d') = [] \<and> feedbackTransfers (ses d') = [] \<and> \<not> eventThread (ses d')
     else outstanding d' \<noteq> 0 \<and> transfers (ses d') = transfers (ses d) \<and> feedbackTransfers (ses d') = feedbackTransfers (ses d))"
  proof (cases "outstanding d2 = 0")
    case True
    then have ok: "ok = True" and d': "d' = d3\<lparr>pendingImplicit := [], pcnt := (pcnt d3)\<lparr>pendingDepth := 0\<rparr>,
        ses := (ses d3)\<lparr>transfers := [], feedbackTransfers := []\<rparr>, led := (led d3)\<lparr>queuedOutFrames := 0\<rparr>,
        mode := (mode d3)\<lparr>playbackStarted := False\<rparr>\<rparr>" using pp by simp_all
    show ?thesis using k f2 m1 o0 [OF True] unfolding ok d' by (simp add: winding_def outstanding_def captureOutstanding_def)
  next
    case False
    then have ok: "ok = False" and d': "d' = count_lifecycle_failure d2" using pp by simp_all
    show ?thesis using drains_winding [OF dr] f2 m1 False unfolding ok d'
      by (simp add: count_lifecycle_failure_def winding_def outstanding_def captureOutstanding_def)
  qed
  then show "winding d'" "captureOutstanding d' \<le> captureOutstanding d" "claim d' = claim d" "device (ses d') = device (ses d)"
    "captureTransfers (ses d') = captureTransfers (ses d)" "contextReady (ses d') = contextReady (ses d)"
    "streaming (mode d') = streaming (mode d)" "captureActive (mode d') = captureActive (mode d)" "outstanding d' \<le> outstanding d"
    and "ok \<Longrightarrow> outstanding d' = 0 \<and> transfers (ses d') = [] \<and> feedbackTransfers (ses d') = [] \<and> \<not> eventThread (ses d')"
    and "\<not> ok \<Longrightarrow> outstanding d' \<noteq> 0 \<and> transfers (ses d') = transfers (ses d) \<and> feedbackTransfers (ses d') = feedbackTransfers (ses d)"
    by simp_all
qed

lemma stopCapturePump_outcome:
  assumes h: "held s" and w: "winding d" and p: "stopCapturePump e s d = (ok, d')"
  shows "winding d'" "outstanding d' \<le> outstanding d" "claim d' = claim d" "mode d' = mode d" "captureOutstanding d' \<le> captureOutstanding d"
    "captureFormat d' = captureFormat d" "device (ses d') = device (ses d)" "contextReady (ses d') = contextReady (ses d)"
    "transfers (ses d') = transfers (ses d)" "feedbackTransfers (ses d') = feedbackTransfers (ses d)"
    "eventThread (ses d') = eventThread (ses d)"
    and "ok \<Longrightarrow> captureOutstanding d' = 0 \<and> captureTransfers (ses d') = []"
    and "\<not> ok \<Longrightarrow> captureOutstanding d' \<noteq> 0 \<and> captureTransfers (ses d') = captureTransfers (ses d)"
proof -
  define d1 where "d1 = settle e s captureOutstanding (cancel_all e (captureTransfers (ses d)) d)"
  have "drains d (cancel_all e (captureTransfers (ses d)) d)" by (rule cancel_all_drains [OF w])
  then have dr: "drains d d1" unfolding d1_def by (rule drains_then) (rule settle_drains [OF h])
  have pp: "(if captureOutstanding d1 \<noteq> 0 then (False, count_lifecycle_failure d1)
      else (True, d1\<lparr>ses := (ses d1)\<lparr>captureTransfers := []\<rparr>,
                    buf := (buf d1)\<lparr>captureMaxFramesPerPacket := 0, captureTransferFrames := 0\<rparr>\<rparr>)) = (ok, d')"
    using p unfolding stopCapturePump_def Let_def d1_def [symmetric] .
  have "winding d' \<and> outstanding d' \<le> outstanding d \<and> claim d' = claim d \<and> mode d' = mode d \<and> captureOutstanding d' \<le> captureOutstanding d \<and>
    captureFormat d' = captureFormat d \<and> device (ses d') = device (ses d) \<and> contextReady (ses d') = contextReady (ses d) \<and>
    transfers (ses d') = transfers (ses d) \<and> feedbackTransfers (ses d') = feedbackTransfers (ses d) \<and>
    eventThread (ses d') = eventThread (ses d) \<and>
    (if ok then captureOutstanding d' = 0 \<and> captureTransfers (ses d') = []
     else captureOutstanding d' \<noteq> 0 \<and> captureTransfers (ses d') = captureTransfers (ses d))"
    using pp dr
    by (cases "captureOutstanding d1 = 0")
      (auto simp: count_lifecycle_failure_def drains_def winds_down_def winding_def outstanding_def captureOutstanding_def)
  then show "winding d'" "outstanding d' \<le> outstanding d" "claim d' = claim d" "mode d' = mode d" "captureOutstanding d' \<le> captureOutstanding d"
    "captureFormat d' = captureFormat d" "device (ses d') = device (ses d)" "contextReady (ses d') = contextReady (ses d)"
    "transfers (ses d') = transfers (ses d)" "feedbackTransfers (ses d') = feedbackTransfers (ses d)"
    "eventThread (ses d') = eventThread (ses d)"
    and "ok \<Longrightarrow> captureOutstanding d' = 0 \<and> captureTransfers (ses d') = []"
    and "\<not> ok \<Longrightarrow> captureOutstanding d' \<noteq> 0 \<and> captureTransfers (ses d') = captureTransfers (ses d)"
    by simp_all
qed

text \<open>Nothing of the device is held any more.\<close>

definition unclaimed :: "driver \<Rightarrow> bool" where
  "unclaimed d \<longleftrightarrow> \<not> interfaceClaimed (claim d) \<and> \<not> controlInterfaceClaimed (claim d) \<and> \<not> captureInterfaceClaimed (claim d)"

definition released :: "driver \<Rightarrow> bool" where
  "released d \<longleftrightarrow> transfers (ses d) = [] \<and> feedbackTransfers (ses d) = [] \<and> captureTransfers (ses d) = [] \<and>
     outstanding d = 0 \<and> captureOutstanding d = 0 \<and> unclaimed d"

text \<open>The teardown is deferred: at least one bounded drain ended with transfers in flight, and was counted; the
  claims stay, and so does all storage libusb may still write to.\<close>

definition deferred :: "driver \<Rightarrow> driver \<Rightarrow> bool" where
  "deferred d d' \<longleftrightarrow> lifecycleFailures (pcnt d') - lifecycleFailures (pcnt d) \<in> {1, 2} \<and> claim d' = claim d \<and>
     (outstanding d' \<noteq> 0 \<longrightarrow> transfers (ses d') = transfers (ses d) \<and> feedbackTransfers (ses d') = feedbackTransfers (ses d)) \<and>
     (captureOutstanding d' \<noteq> 0 \<longrightarrow> captureTransfers (ses d') = captureTransfers (ses d))"

lemma release_all:
  fixes e :: env
  defines "f \<equiv> \<lambda>d. release_capture e (release_control e (release_playback e d))"
  shows "device (ses d) \<noteq> None \<Longrightarrow> unclaimed (f d)" "ses (f d) = ses d" "led (f d) = led d" "mode (f d) = mode d"
    "\<exists>calls. bus (f d) = bus d @ calls"
  by (auto simp: f_def unclaimed_def release_capture_def release_control_def release_playback_def idle_capture_interface_def
      Let_def usb_def)

text \<open>The shape of \<open>stop\<close>: nothing to do, both pumps stopped, or a deferral.\<close>

definition stop_idle :: "driver \<Rightarrow> bool" where
  "stop_idle d \<longleftrightarrow> transfers (ses d) = [] \<and> captureTransfers (ses d) = [] \<and> unclaimed d"

definition stop_finish :: "env \<Rightarrow> driver \<Rightarrow> driver" where
  "stop_finish e d =
     (let d3 = release_capture e (release_control e (release_playback e d))
      in d3\<lparr>captureRing := (captureRing d3)\<lparr>rhead := 0, rtail := 0\<rparr>,
            ccnt := (ccnt d3)\<lparr>captureSequence := 0, metadataFifoOverruns := 0, captureUnderruns := 0, capturePacketDrops := 0\<rparr>\<rparr>)"

lemma requestStop_fields [simp]:
  "ses (requestStop d) = ses d" "claim (requestStop d) = claim d" "led (requestStop d) = led d" "pcnt (requestStop d) = pcnt d"
  "bus (requestStop d) = bus d" "stopRequested (mode (requestStop d))" "\<not> streaming (mode (requestStop d))"
  "\<not> captureActive (mode (requestStop d))" "clock_reads (requestStop d) = clock_reads d"
  by (simp_all add: requestStop_def)

lemma requestStop_counts [simp]:
  "outstanding (requestStop d) = outstanding d" "captureOutstanding (requestStop d) = captureOutstanding d"
  by (simp_all add: outstanding_def captureOutstanding_def)

lemma stop_when_idle: "stop_idle d \<Longrightarrow> stop e s d = requestStop d"
  by (simp add: stop_def Let_def stop_idle_def unclaimed_def)

lemma stop_split:
  assumes "\<not> stop_idle d" "stopIsoPump e s (requestStop d) = (ok1, d1)" "stopCapturePump e s d1 = (ok2, d2)"
  shows "stop e s d = (if ok1 \<and> ok2 then stop_finish e d2 else d2)"
proof -
  have "\<not> (transfers (ses (requestStop d)) = [] \<and> captureTransfers (ses (requestStop d)) = [] \<and> \<not> interfaceClaimed (claim (requestStop d)) \<and>
         \<not> controlInterfaceClaimed (claim (requestStop d)) \<and> \<not> captureInterfaceClaimed (claim (requestStop d)))"
    using assms(1) by (simp add: stop_idle_def unclaimed_def)
  then show ?thesis
    unfolding stop_def Let_def if_not_P [OF \<open>\<not> (_ \<and> _)\<close>] assms(2) prod.case assms(3) stop_finish_def by simp
qed

lemma stop_finish_fields:
  "ses (stop_finish e d) = ses d" "led (stop_finish e d) = led d" "mode (stop_finish e d) = mode d"
  "device (ses d) \<noteq> None \<Longrightarrow> unclaimed (stop_finish e d)" "\<exists>calls. bus (stop_finish e d) = bus d @ calls"
  using release_all [where e = e and d = d] by (simp_all add: stop_finish_def Let_def unclaimed_def)

lemma pumps_count_failures:
  assumes h: "held s"
  shows "0 \<le> outstanding d \<Longrightarrow> 0 \<le> captureOutstanding d \<Longrightarrow> stopIsoPump e s d = (ok, d') \<Longrightarrow>
      lifecycleFailures (pcnt d') = lifecycleFailures (pcnt d) + (if ok then 0 else 1)"
    and "winding d \<Longrightarrow> stopCapturePump e s d = (ok, d') \<Longrightarrow>
      lifecycleFailures (pcnt d') = lifecycleFailures (pcnt d) + (if ok then 0 else 1)"
proof -
  assume w: "0 \<le> outstanding d" "0 \<le> captureOutstanding d" and p: "stopIsoPump e s d = (ok, d')"
  define d1 where "d1 = mode_update (stopRequested_update (\<lambda>_. True)) d"
  have w1: "winding d1" using w by (simp add: winding_def d1_def outstanding_def captureOutstanding_def)
  define d2 where "d2 = settle e s outstanding (cancel_all e (feedbackTransfers (ses d1)) (cancel_all e (transfers (ses d1)) d1))"
  have "drains d1 (cancel_all e (transfers (ses d1)) d1)" by (rule cancel_all_drains [OF w1])
  then have "drains d1 (cancel_all e (feedbackTransfers (ses d1)) (cancel_all e (transfers (ses d1)) d1))"
    by (rule drains_then) (rule cancel_all_drains)
  then have dr: "drains d1 d2" unfolding d2_def by (rule drains_then) (rule settle_drains [OF h])
  then have "pcnt d2 = pcnt d" by (simp add: drains_def winds_down_def d1_def)
  moreover have "pcnt (join_event_thread e s d2) = pcnt d2"
    using handle_events_drains [OF h drains_winding [OF dr], of e] by (simp add: join_event_thread_def drains_def winds_down_def)
  ultimately show "lifecycleFailures (pcnt d') = lifecycleFailures (pcnt d) + (if ok then 0 else 1)"
    using p unfolding stopIsoPump_def Let_def d1_def [symmetric] d2_def [symmetric]
    by (auto simp: count_lifecycle_failure_def split: if_splits)
next
  assume w: "winding d" and p: "stopCapturePump e s d = (ok, d')"
  have "drains d (cancel_all e (captureTransfers (ses d)) d)" by (rule cancel_all_drains [OF w])
  then have "drains d (settle e s captureOutstanding (cancel_all e (captureTransfers (ses d)) d))"
    by (rule drains_then) (rule settle_drains [OF h])
  then show "lifecycleFailures (pcnt d') = lifecycleFailures (pcnt d) + (if ok then 0 else 1)"
    using p by (auto simp: stopCapturePump_def Let_def count_lifecycle_failure_def drains_def winds_down_def split: if_splits)
qed

lemma stop_both:
  fixes e :: env
  assumes h: "held s" and w: "0 \<le> outstanding d" "0 \<le> captureOutstanding d"
    and p: "stopIsoPump e s (requestStop d) = (ok1, d1)" "stopCapturePump e s d1 = (ok2, d2)"
  defines "d' \<equiv> (if ok1 \<and> ok2 then stop_finish e d2 else d2)"
  shows "winding d'" "\<not> streaming (mode d')" "\<not> captureActive (mode d')" "device (ses d') = device (ses d)"
    "contextReady (ses d') = contextReady (ses d)" "outstanding d' \<le> outstanding d" "captureOutstanding d' \<le> captureOutstanding d"
    and "ok1 \<and> ok2 \<Longrightarrow> device (ses d) \<noteq> None \<Longrightarrow> released d'" and "\<not> (ok1 \<and> ok2) \<Longrightarrow> deferred d d'"
proof -
  have w0: "0 \<le> outstanding (requestStop d)" "0 \<le> captureOutstanding (requestStop d)" using w by simp_all
  note a = stopIsoPump_outcome [OF h w0 p(1)]
  note b = stopCapturePump_outcome [OF h a(1) p(2)]
  note f = stop_finish_fields [where e = e and d = d2]
  have c: "ses d' = ses d2" "led d' = led d2" "mode d' = mode d2" using f(1-3) by (simp_all add: d'_def)
  then have o: "outstanding d' = outstanding d2" "captureOutstanding d' = captureOutstanding d2"
    by (simp_all add: outstanding_def captureOutstanding_def)
  show "winding d'" using b(1) c(3) o by (simp add: winding_def)
  show "\<not> streaming (mode d')" "\<not> captureActive (mode d')" using a(7,8) b(4) c(3) by simp_all
  show "device (ses d') = device (ses d)" "contextReady (ses d') = contextReady (ses d)" using a(4,6) b(7,8) c(1) by simp_all
  show "outstanding d' \<le> outstanding d" "captureOutstanding d' \<le> captureOutstanding d" using a(2,9) b(2,5) o by simp_all
  show "released d'" if ok: "ok1 \<and> ok2" and dev: "device (ses d) \<noteq> None"
  proof -
    have "outstanding d2 = 0" using a(10) b(1,2) ok by (simp add: winding_def)
    moreover have "unclaimed d'" using f(4) dev ok a(4) b(7) by (simp add: d'_def)
    ultimately show ?thesis using a(10) b(9,10,12) ok c(1) o by (simp add: released_def)
  qed
  show "deferred d d'" if n: "\<not> (ok1 \<and> ok2)"
  proof -
    have "transfers (ses d2) = transfers (ses d) \<and> feedbackTransfers (ses d2) = feedbackTransfers (ses d)" if "outstanding d2 \<noteq> 0"
      using that a(1,10,11) b(1,2,9,10) by (cases ok1) (auto simp: winding_def)
    moreover have "captureTransfers (ses d2) = captureTransfers (ses d)" if "captureOutstanding d2 \<noteq> 0"
      using that a(5) b(12,13) by (cases ok2) auto
    moreover have "lifecycleFailures (pcnt d2) - lifecycleFailures (pcnt d) \<in> {1, 2}"
      using pumps_count_failures(1) [OF h w0 p(1)] pumps_count_failures(2) [OF h a(1) p(2)] n by auto
    ultimately show ?thesis using a(3) b(3) n by (auto simp: deferred_def d'_def)
  qed
qed

lemma cancel_all_keeps:
  "mode (cancel_all e xs d) = mode d" "ses (cancel_all e xs d) = ses d" "led (cancel_all e xs d) = led d"
  "clock_reads (cancel_all e xs d) = clock_reads d"
proof -
  have "mode (cancel_all e xs d) = mode d \<and> ses (cancel_all e xs d) = ses d \<and> led (cancel_all e xs d) = led d \<and>
    clock_reads (cancel_all e xs d) = clock_reads d" unfolding cancel_all_def
    by (induction xs arbitrary: d) (simp_all add: usb_def Let_def)
  then show "mode (cancel_all e xs d) = mode d" "ses (cancel_all e xs d) = ses d" "led (cancel_all e xs d) = led d"
    "clock_reads (cancel_all e xs d) = clock_reads d" by simp_all
qed

lemma settle_mode: "held s \<Longrightarrow> winding d \<Longrightarrow> mode (settle e s cnt d) = mode d"
  using settle_drains by (auto simp: drains_def winds_down_def)

lemma stopIsoPump_logs:
  assumes h: "held s" and w: "0 \<le> outstanding d" "0 \<le> captureOutstanding d" and p: "stopIsoPump e s d = (ok, d')"
  shows "logs (cancels (transfers (ses d)) @ cancels (feedbackTransfers (ses d))) d d'"
proof -
  define d1 where "d1 = mode_update (stopRequested_update (\<lambda>_. True)) d"
  define da where "da = cancel_all e (transfers (ses d1)) d1"
  define db where "db = cancel_all e (feedbackTransfers (ses d1)) da"
  define d2 where "d2 = settle e s outstanding db"
  have wd: "winding db"
    using w by (simp add: winding_def db_def da_def d1_def cancel_all_keeps outstanding_def captureOutstanding_def)
  have "logs (cancels (transfers (ses d)) @ cancels (feedbackTransfers (ses d))) d1 db"
    using logs_trans [OF cancel_all_logs cancel_all_logs] by (simp add: db_def da_def d1_def)
  moreover have "bus d2 = bus db" "stopRequested (mode d2)"
    using wd settle_mode [OF h wd] by (simp_all add: d2_def settle_bus winding_def)
  moreover have "bus d' = bus d2"
    using p \<open>stopRequested (mode d2)\<close>
    unfolding stopIsoPump_def Let_def d1_def [symmetric] da_def [symmetric] db_def [symmetric] d2_def [symmetric]
    by (auto simp: count_lifecycle_failure_def join_event_thread_def handle_events_bus split: if_splits)
  ultimately show ?thesis by (simp add: logs_def d1_def)
qed

lemma stopCapturePump_logs:
  assumes "stopRequested (mode d)" "stopCapturePump e s d = (ok, d')"
  shows "logs (cancels (captureTransfers (ses d))) d d'"
  using assms cancel_all_logs [of "captureTransfers (ses d)" d e]
  by (auto simp: stopCapturePump_def Let_def logs_def settle_bus cancel_all_keeps count_lifecycle_failure_def split: if_splits)

text \<open>A prompt libusb: a round of events completes every transfer of a stopping driver, and a round takes less
  than half a second on the driver's clock.\<close>

definition completes_all :: "event_source \<Rightarrow> bool" where
  "completes_all s \<longleftrightarrow> (\<forall>d. stopRequested (mode d) \<and> 0 \<le> outstanding d \<and> 0 \<le> captureOutstanding d \<longrightarrow>
     int (length (filter playing (due s d))) = outstanding d \<and>
     int (length (filter capturing_xfer (due s d))) = captureOutstanding d)"

definition prompt :: "env \<Rightarrow> event_source \<Rightarrow> nat \<Rightarrow> bool" where
  "prompt e s n \<longleftrightarrow> completes_all s \<and> 0 < spin_fuel e \<and>
     (\<forall>k \<in> {n..n + 2}. clock_ns e (Suc k) < clock_ns e k + 500000000)"

lemma service_until_finished: "cnt d = 0 \<Longrightarrow> service_until e s cnt deadline fuel d = d"
  by (cases fuel) simp_all

lemma settle_prompt:
  assumes w: "winding d" and p: "completes_all s" "0 < spin_fuel e"
    and clk: "clock_ns e (Suc (clock_reads d)) < clock_ns e (clock_reads d) + 500000000"
    and c: "cnt = outstanding \<or> cnt = captureOutstanding"
  shows "cnt (settle e s cnt d) = 0" "clock_reads (settle e s cnt d) \<in> {Suc (clock_reads d), Suc (Suc (clock_reads d))}"
proof -
  define d1 where "d1 = d\<lparr>clock_reads := Suc (clock_reads d)\<rparr>"
  define d2 where "d2 = d\<lparr>clock_reads := Suc (Suc (clock_reads d))\<rparr>"
  obtain f where f: "spin_fuel e = Suc f" using p(2) by (cases "spin_fuel e") simp_all
  have w2: "winding d2" using w by (simp add: winding_def d2_def outstanding_def captureOutstanding_def)
  have "cnt (handle_events e s d2) = 0" "clock_reads (handle_events e s d2) = clock_reads d2"
    using c w2 p(1) fold_complete_stopping [of d2 e s "due s d2"]
    by (auto simp: completes_all_def winding_def handle_events_def)
  moreover have "settle e s cnt d = (if cnt d1 = 0 then d1 else service_until e s cnt (clock_ns e (clock_reads d) + 500000000) f (handle_events e s d2))"
    using clk by (simp add: settle_def monotonicNowNs_def f d1_def d2_def)
  ultimately have "settle e s cnt d = (if cnt d1 = 0 then d1 else handle_events e s d2)"
    by (simp add: service_until_finished)
  then show "cnt (settle e s cnt d) = 0" "clock_reads (settle e s cnt d) \<in> {Suc (clock_reads d), Suc (Suc (clock_reads d))}"
    using \<open>cnt (handle_events e s d2) = 0\<close> \<open>clock_reads (handle_events e s d2) = clock_reads d2\<close>
    by (simp_all add: d1_def d2_def)
qed

lemma stopIsoPump_prompt:
  assumes h: "held s" and w: "0 \<le> outstanding d" "0 \<le> captureOutstanding d" and p: "stopIsoPump e s d = (ok, d')"
    and q: "prompt e s (clock_reads d)"
  shows "ok" "clock_reads d' \<in> {Suc (clock_reads d), Suc (Suc (clock_reads d))}"
proof -
  define d1 where "d1 = mode_update (stopRequested_update (\<lambda>_. True)) d"
  define db where "db = cancel_all e (feedbackTransfers (ses d1)) (cancel_all e (transfers (ses d1)) d1)"
  define d2 where "d2 = settle e s outstanding db"
  have k: "clock_reads db = clock_reads d" by (simp add: db_def d1_def cancel_all_keeps)
  have wd: "winding db"
    using w by (simp add: winding_def db_def d1_def cancel_all_keeps outstanding_def captureOutstanding_def)
  have "outstanding d2 = 0" "clock_reads d2 \<in> {Suc (clock_reads d), Suc (Suc (clock_reads d))}"
    using settle_prompt [OF wd, of s e outstanding] q unfolding d2_def prompt_def k by simp_all
  moreover have "winding d2" unfolding d2_def using settle_drains [OF h wd] by (rule drains_winding)
  then have "clock_reads (join_event_thread e s d2) = clock_reads d2"
    using fold_complete_stopping [of d2 e s "due s d2"] by (simp add: join_event_thread_def handle_events_def winding_def)
  ultimately show "ok" "clock_reads d' \<in> {Suc (clock_reads d), Suc (Suc (clock_reads d))}"
    using p unfolding stopIsoPump_def Let_def d1_def [symmetric] db_def [symmetric] d2_def [symmetric] by auto
qed

lemma stopCapturePump_prompt:
  assumes w: "winding d" and p: "stopCapturePump e s d = (ok, d')" and c: "completes_all s" "0 < spin_fuel e"
    and clk: "clock_ns e (Suc (clock_reads d)) < clock_ns e (clock_reads d) + 500000000"
  shows "ok"
proof -
  let ?d = "cancel_all e (captureTransfers (ses d)) d"
  have "winding ?d" using w by (simp add: winding_def cancel_all_keeps outstanding_def captureOutstanding_def)
  from settle_prompt(1) [OF this c, of captureOutstanding] clk p show ?thesis
    by (simp add: stopCapturePump_def Let_def cancel_all_keeps split: if_splits)
qed

text \<open>Counts and feedback transfers belong to pumps whose transfers are allocated.\<close>

definition accounted :: "driver \<Rightarrow> bool" where
  "accounted d \<longleftrightarrow> (transfers (ses d) = [] \<longrightarrow> feedbackTransfers (ses d) = [] \<and> outstanding d = 0) \<and>
     (captureTransfers (ses d) = [] \<longrightarrow> captureOutstanding d = 0)"

lemma stop_outcome:
  fixes e :: env
  assumes h: "held s" and w: "0 \<le> outstanding d" "0 \<le> captureOutstanding d"
  defines "d' \<equiv> stop e s d"
  shows "accounted d \<Longrightarrow> device (ses d) \<noteq> None \<Longrightarrow> released d' \<or> deferred d d'"
    "\<not> streaming (mode d')" "stopRequested (mode d')" "\<not> captureActive (mode d')"
    "winding d'" "device (ses d') = device (ses d)" "contextReady (ses d') = contextReady (ses d)"
    "outstanding d' \<le> outstanding d" "captureOutstanding d' \<le> captureOutstanding d"
proof -
  have all: "(accounted d \<longrightarrow> device (ses d) \<noteq> None \<longrightarrow> released d' \<or> deferred d d') \<and> \<not> streaming (mode d') \<and>
    \<not> captureActive (mode d') \<and> winding d' \<and> device (ses d') = device (ses d) \<and> contextReady (ses d') = contextReady (ses d) \<and>
    outstanding d' \<le> outstanding d \<and> captureOutstanding d' \<le> captureOutstanding d"
  proof (cases "stop_idle d")
    case True
    then show ?thesis using w
      by (auto simp: d'_def stop_when_idle winding_def accounted_def released_def stop_idle_def unclaimed_def)
  next
    case False
    obtain ok1 d1 where p1: "stopIsoPump e s (requestStop d) = (ok1, d1)" by fastforce
    obtain ok2 d2 where p2: "stopCapturePump e s d1 = (ok2, d2)" by fastforce
    show ?thesis unfolding d'_def stop_split [OF False p1 p2] using stop_both [OF h w p1 p2] by blast
  qed
  then show "accounted d \<Longrightarrow> device (ses d) \<noteq> None \<Longrightarrow> released d' \<or> deferred d d'"
    "\<not> streaming (mode d')" "stopRequested (mode d')" "\<not> captureActive (mode d')"
    "winding d'" "device (ses d') = device (ses d)" "contextReady (ses d') = contextReady (ses d)"
    "outstanding d' \<le> outstanding d" "captureOutstanding d' \<le> captureOutstanding d" by (simp_all add: winding_def)
qed

text \<open>The calls of a stop start with the cancellation of everything allocated, and a prompt libusb lets it finish.\<close>

abbreviation (input) allocated :: "driver \<Rightarrow> xfer list" where
  "allocated d \<equiv> transfers (ses d) @ feedbackTransfers (ses d) @ captureTransfers (ses d)"

lemma stop_cancels:
  assumes h: "held s" and w: "0 \<le> outstanding d" "0 \<le> captureOutstanding d" and acc: "accounted d"
  shows "\<exists>rest. logs (cancels (allocated d) @ rest) d (stop e s d)"
proof (cases "stop_idle d")
  case True
  then have "logs (cancels (allocated d) @ []) d (stop e s d)"
    using acc by (simp add: stop_when_idle stop_idle_def accounted_def logs_iff)
  then show ?thesis ..
next
  case False
  obtain ok1 d1 where p1: "stopIsoPump e s (requestStop d) = (ok1, d1)" by fastforce
  obtain ok2 d2 where p2: "stopCapturePump e s d1 = (ok2, d2)" by fastforce
  have w0: "0 \<le> outstanding (requestStop d)" "0 \<le> captureOutstanding (requestStop d)" using w by simp_all
  note a = stopIsoPump_outcome [OF h w0 p1]
  have "logs (cancels (transfers (ses d)) @ cancels (feedbackTransfers (ses d))) d d1"
    using stopIsoPump_logs [OF h w0 p1] by (simp add: logs_def)
  moreover have "logs (cancels (captureTransfers (ses d))) d1 d2"
    using stopCapturePump_logs [OF _ p2] a(1,5) by (simp add: winding_def)
  ultimately have l: "logs (cancels (allocated d)) d d2" using logs_trans by fastforce
  obtain calls where "bus (stop_finish e d2) = bus d2 @ calls" using stop_finish_fields(5) by blast
  then have "logs (map fst calls) d2 (stop_finish e d2)" by (simp add: logs_iff)
  then have fin: "logs (cancels (allocated d) @ map fst calls) d (stop_finish e d2)" by (rule logs_trans [OF l])
  have "logs (cancels (allocated d) @ (if ok1 \<and> ok2 then map fst calls else [])) d (stop e s d)"
    unfolding stop_split [OF False p1 p2] using fin l by (auto split: if_splits)
  then show ?thesis ..
qed

lemma stop_when_prompt:
  assumes h: "held s" and w: "0 \<le> outstanding d" "0 \<le> captureOutstanding d" and acc: "accounted d" and dev: "device (ses d) \<noteq> None"
    and q: "prompt e s (clock_reads d)"
  shows "released (stop e s d)"
proof (cases "stop_idle d")
  case True
  then show ?thesis using acc by (simp add: stop_when_idle released_def stop_idle_def accounted_def unclaimed_def)
next
  case False
  obtain ok1 d1 where p1: "stopIsoPump e s (requestStop d) = (ok1, d1)" by fastforce
  obtain ok2 d2 where p2: "stopCapturePump e s d1 = (ok2, d2)" by fastforce
  have w0: "0 \<le> outstanding (requestStop d)" "0 \<le> captureOutstanding (requestStop d)" using w by simp_all
  have q0: "prompt e s (clock_reads (requestStop d))" using q by simp
  note k = stopIsoPump_prompt [OF h w0 p1 q0]
  have "clock_reads d1 \<in> {clock_reads d..clock_reads d + 2}" using k(2) by auto
  then have "ok2" using q stopCapturePump_prompt [OF stopIsoPump_outcome(1) [OF h w0 p1] p2] by (simp add: prompt_def)
  then show ?thesis using k(1) stop_both(8) [OF h w p1 p2] dev unfolding stop_split [OF False p1 p2] by simp
qed

section \<open>Lemmas: the destructor\<close>

text \<open>libusb delivers: while a stopping driver has transfers outstanding, servicing completes some.\<close>

definition delivers :: "event_source \<Rightarrow> bool" where
  "delivers s \<longleftrightarrow> (\<forall>d. stopRequested (mode d) \<and> (0 < outstanding d \<or> 0 < captureOutstanding d) \<longrightarrow> due s d \<noteq> [])"

lemma handle_events_progress:
  assumes "held s" "delivers s" "winding d" "outstanding d \<noteq> 0 \<or> captureOutstanding d \<noteq> 0"
  shows "outstanding (handle_events e s d) + captureOutstanding (handle_events e s d) < outstanding d + captureOutstanding d"
proof -
  have "0 < length (due s d)" using assms(2-4) by (auto simp: delivers_def winding_def)
  then have "0 < length (filter playing (due s d)) + length (filter capturing_xfer (due s d))"
    using sum_length_filter_compl [of playing "due s d"] by simp
  moreover have "outstanding (handle_events e s d) = outstanding d - int (length (filter playing (due s d)))"
    "captureOutstanding (handle_events e s d) = captureOutstanding d - int (length (filter capturing_xfer (due s d)))"
    using fold_complete_stopping [of d e s "due s d"] assms(3) by (simp_all add: handle_events_def winding_def)
  ultimately show ?thesis by linarith
qed

lemma await_quiet_returns:
  assumes h: "held s" "delivers s"
  shows "winding d \<Longrightarrow> \<exists>d'. await_quiet e s d = Some d' \<and> drains d d' \<and> outstanding d' = 0 \<and> captureOutstanding d' = 0"
proof (induction "nat (outstanding d + captureOutstanding d)" arbitrary: d rule: less_induct)
  case less
  show ?case
  proof (cases "outstanding d \<noteq> 0 \<or> captureOutstanding d \<noteq> 0")
    case True
    have dr: "drains d (handle_events e s d)" by (rule handle_events_drains [OF h(1) less.prems])
    have "nat (outstanding (handle_events e s d) + captureOutstanding (handle_events e s d)) < nat (outstanding d + captureOutstanding d)"
      using handle_events_progress [OF h less.prems True, of e] drains_winding [OF dr] by (simp add: winding_def)
    from less.hyps [OF this drains_winding [OF dr]] show ?thesis
      using True drains_trans [OF dr] by (subst await_quiet.simps) auto
  next
    case False
    then show ?thesis using less.prems by (subst await_quiet.simps) (simp add: drains_refl)
  qed
qed

lemma close_device_outcome:
  fixes e :: env
  assumes "held s" "0 \<le> outstanding d" "0 \<le> captureOutstanding d"
  defines "d' \<equiv> close_device e s d"
  shows "winding d'" "contextReady (ses d') = contextReady (ses d)" "outstanding d' \<le> outstanding d"
    "captureOutstanding d' \<le> captureOutstanding d"
  using stop_outcome(5,7-9) [OF assms(1-3), of e]
  by (auto simp: d'_def close_device_def Let_def close_handle_def usb_def winding_def outstanding_def captureOutstanding_def)

lemma stop_then_close:
  fixes e :: env
  assumes "held s" "0 \<le> outstanding d" "0 \<le> captureOutstanding d"
  defines "d' \<equiv> close_device e s (stop e s d)"
  shows "winding d'" "contextReady (ses d') = contextReady (ses d)" "outstanding d' \<le> outstanding d"
    "captureOutstanding d' \<le> captureOutstanding d"
proof -
  note a = stop_outcome(5,7-9) [OF assms(1-3), of e]
  have "0 \<le> outstanding (stop e s d)" "0 \<le> captureOutstanding (stop e s d)" using a(1) by (simp_all add: winding_def)
  note b = close_device_outcome [OF assms(1) this, of e, folded d'_def]
  show "winding d'" "contextReady (ses d') = contextReady (ses d)" "outstanding d' \<le> outstanding d"
    "captureOutstanding d' \<le> captureOutstanding d" using a b by simp_all
qed

lemma destroy_returns:
  assumes h: "held s" "delivers s" and w: "0 \<le> outstanding d" "0 \<le> captureOutstanding d" and ctx: "contextReady (ses d)"
  shows "\<exists>d'. destroy e s d = Some d' \<and> outstanding d' = 0 \<and> captureOutstanding d' = 0 \<and> \<not> contextReady (ses d') \<and>
    fst (last (bus d')) = ExitContext"
proof -
  define d1 where "d1 = close_device e s (stop e s d)"
  note a = stop_then_close [OF h(1) w, of e, folded d1_def]
  define leave where "leave = (\<lambda>d1. let d2 = d1\<lparr>captureWake := wake_close (captureWake d1), playbackWake := wake_close (playbackWake d1)\<rparr>
      in if contextReady (ses d2) then ses_update (contextReady_update (\<lambda>_. False)) (snd (usb e ExitContext d2)) else d2)"
  have fin: "outstanding (leave d2) = 0 \<and> captureOutstanding (leave d2) = 0 \<and> \<not> contextReady (ses (leave d2)) \<and>
      fst (last (bus (leave d2))) = ExitContext"
    if "outstanding d2 = 0" "captureOutstanding d2 = 0" "contextReady (ses d2)" for d2
    using that by (simp add: leave_def Let_def usb_def outstanding_def captureOutstanding_def)
  note des = destroy_def [of e s d, unfolded Let_def [of "close_device e s (stop e s d)"], folded d1_def leave_def]
  show ?thesis
  proof (cases "outstanding d1 \<noteq> 0 \<or> captureOutstanding d1 \<noteq> 0")
    case True
    define d2 where "d2 = cancel_all e (captureTransfers (ses d1)) (cancel_all e (feedbackTransfers (ses d1))
      (cancel_all e (transfers (ses d1)) (mode_update (stopRequested_update (\<lambda>_. True)) d1)))"
    have m: "mode_update (stopRequested_update (\<lambda>_. True)) d1 = d1"
      using a(1) by (cases d1, cases "mode d1") (simp add: winding_def)
    have "drains d1 (cancel_all e (transfers (ses d1)) d1)" by (rule cancel_all_drains [OF a(1)])
    then have "drains d1 (cancel_all e (feedbackTransfers (ses d1)) (cancel_all e (transfers (ses d1)) d1))"
      by (rule drains_then) (rule cancel_all_drains)
    then have dr: "drains d1 d2" unfolding d2_def m by (rule drains_then) (rule cancel_all_drains)
    obtain d3 where d3: "await_quiet e s d2 = Some d3" "drains d2 d3" "outstanding d3 = 0" "captureOutstanding d3 = 0"
      using await_quiet_returns [OF h drains_winding [OF dr]] by blast
    define d4 where "d4 = close_device e s (stop e s d3)"
    note b = stop_then_close [OF h(1), of d3, where e = e, folded d4_def]
    have "contextReady (ses d3)" using drains_trans [OF dr d3(2)] a(2) ctx by (simp add: drains_def winds_down_def)
    then have "outstanding d4 = 0" "captureOutstanding d4 = 0" "contextReady (ses d4)"
      using b d3(3,4) by (auto simp: winding_def intro: antisym)
    from fin [OF this] show ?thesis
      using True a(2) ctx d3(1) unfolding des d2_def [symmetric] by (simp add: d4_def)
  next
    case False
    then have "outstanding d1 = 0" "captureOutstanding d1 = 0" "contextReady (ses d1)" using a(2) ctx by simp_all
    from fin [OF this] show ?thesis using False unfolding des by simp
  qed
qed

section \<open>A concrete shutdown\<close>

text \<open>A bus that completes everything it holds on the next round, and a driver with one OUT transfer in
  flight and the streaming interface claimed.\<close>

definition cancelling_source :: event_source where
  "cancelling_source = \<lparr>due = (\<lambda>d. replicate (nat (outstanding d)) demo_xfer @ replicate (nat (captureOutstanding d)) demo_in),
     callback_times = (\<lambda>_ _. (0, 0, 0))\<rparr>"

definition demo_live :: driver where
  "demo_live = demo_duplex
     \<lparr>led := (led demo_duplex)\<lparr>inflight := 1\<rparr>,
      ses := (ses demo_duplex)\<lparr>contextReady := True, device := Some 3, transfers := [demo_xfer]\<rparr>,
      claim := (claim demo_duplex)\<lparr>interfaceClaimed := True\<rparr>\<rparr>"

lemma cancelling_source_ok: "held cancelling_source" "delivers cancelling_source"
  by (auto simp: held_def delivers_def cancelling_source_def demo_xfer_def demo_in_def)

lemma demo_live_ok:
  "outstanding demo_live = 1" "captureOutstanding demo_live = 0" "device (ses demo_live) = Some 3" "contextReady (ses demo_live)"
  by (simp_all add: demo_live_def outstanding_def captureOutstanding_def demo_duplex_def demo_stream_def initLedger_def)

lemma demo_live_prompt:
  "accounted demo_live" "prompt demo_env cancelling_source (clock_reads demo_live)" "transfers (ses demo_live) = [demo_xfer]"
  "feedbackTransfers (ses demo_live) = []" "captureTransfers (ses demo_live) = []" "\<not> released demo_live"
proof -
  have "k \<in> {0, 1, 2}" if "k \<in> {0..0 + 2}" for k :: nat using that by auto
  then have "clock_ns demo_env (Suc k) < clock_ns demo_env k + 500000000" if "k \<in> {0..0 + 2}" for k
    using that by (fastforce simp: demo_env_def)
  moreover have "clock_reads demo_live = 0"
    by (simp add: demo_live_def demo_duplex_def demo_stream_def demo_driver_def newDriver_def)
  ultimately show "prompt demo_env cancelling_source (clock_reads demo_live)"
    by (auto simp: prompt_def completes_all_def cancelling_source_def demo_xfer_def demo_in_def demo_env_def)
qed (simp_all add: accounted_def released_def demo_live_def demo_duplex_def demo_stream_def demo_driver_def newDriver_def initSession_def
      outstanding_def captureOutstanding_def initLedger_def)

section \<open>Properties\<close>



text \<open>C7. The destructor returns, and only once libusb holds nothing.  As long as libusb delivers the
  cancellations, the final barrier ends; the object is then torn down with both in-flight counts
  zero, and leaving the libusb context is the last call it makes.\<close>

theorem destroy_terminates:
  assumes "held s" "delivers s" "0 \<le> outstanding d" "0 \<le> captureOutstanding d" "contextReady (ses d)"
  shows "\<exists>d'. destroy e s d = Some d' \<and> outstanding d' = 0 \<and> captureOutstanding d' = 0 \<and> \<not> contextReady (ses d') \<and>
    fst (last (bus d')) = ExitContext"
  using destroy_returns [OF assms] .

theorem destroy_terminates_witness:
  "\<exists>d'. destroy demo_env cancelling_source demo_live = Some d' \<and> outstanding d' = 0"
  using destroy_terminates [OF cancelling_source_ok, of demo_live demo_env] demo_live_ok by auto

end
