(* ===== verification/Session_Start.thy ===== *)
theory Session_Start
  imports Shutdown
begin

text \<open>
  What a successful \<open>open\<close> and a successful \<open>start\<close> imply.  Opening never happens over live transfers.
  A playback-only \<open>start\<close> clears the ring and then asks the ring for the startup prime, so it
  succeeds only when that prime is empty; the duplex path, which submits later, is not affected.
\<close>

section \<open>Frames of the pump\<close>

text \<open>What preparing the pump leaves alone.\<close>

definition same_stream :: "driver \<Rightarrow> driver \<Rightarrow> bool" where
  "same_stream d d' \<longleftrightarrow> ring d' = ring d \<and> fmt d' = fmt d \<and> mode d' = mode d"

lemma same_stream_refl [simp]: "same_stream d d"
  by (simp add: same_stream_def)

lemma same_stream_trans: "same_stream a b \<Longrightarrow> same_stream b c \<Longrightarrow> same_stream a c"
  by (simp add: same_stream_def)

lemma alloc_playback_same:
  "alloc_playback e s n t stride d = (True, d') \<Longrightarrow> same_stream d d' \<and> buf d' = buf d"
proof (induction n arbitrary: t d)
  case (Suc n)
  obtain ls sch where sl: "scheduled_lengths (nat (playbackPacketsPerTransfer (buf d))) stride (nominalScheduler (pace d)) = (ls, sch)"
    by fastforce
  obtain d1 where "alloc_playback e s n (t + 1) stride d1 = (True, d')" "same_stream d d1" "buf d1 = buf d"
    using Suc.prems sl by (auto simp: Let_def usb_def same_stream_def split: if_splits)
  then show ?case using Suc.IH same_stream_trans by metis
qed simp

lemma alloc_feedback_same: "alloc_feedback e s n d = (True, d') \<Longrightarrow> same_stream d d' \<and> buf d' = buf d"
  using alloc_feedback_ok [of e s n d d'] by (auto simp: same_stream_def)

lemma consumed_same: "consumed d d' \<Longrightarrow> same_stream d d' \<and> buf d' = buf d"
  by (auto simp: consumed_def same_stream_def)

lemma metadata_lengths_same: "metadata_lengths n stride d = (r, d') \<Longrightarrow> same_stream d d' \<and> buf d' = buf d"
proof (induction n arbitrary: d r d')
  case (Suc n)
  obtain r1 d1 where nm: "next_metadata d = (r1, d1)" by fastforce
  have c: "same_stream d d1 \<and> buf d1 = buf d" using next_metadata_consumes [OF nm] consumed_same by blast
  show ?case
  proof (cases r1)
    case None
    then show ?thesis using Suc.prems nm c by simp
  next
    case (Some f)
    obtain r2 d2 where m: "metadata_lengths n stride d1 = (r2, d2)" by fastforce
    then have "d' = d2" using Suc.prems nm Some by (auto split: option.splits)
    then show ?thesis using Suc.IH [OF m] c same_stream_trans by auto
  qed
qed simp

lemma plan_from_metadata_same: "plan_from_metadata stride xs d = (r, d') \<Longrightarrow> same_stream d d' \<and> buf d' = buf d"
proof (induction xs arbitrary: d r d')
  case (Cons x xs)
  obtain r1 d1 where m: "metadata_lengths (length (xf_pkts x)) stride d = (r1, d1)" by fastforce
  have c: "same_stream d d1 \<and> buf d1 = buf d" by (rule metadata_lengths_same [OF m])
  show ?case
  proof (cases r1)
    case None
    then show ?thesis using Cons.prems m c by simp
  next
    case (Some ls)
    obtain r2 d2 where p: "plan_from_metadata stride xs d1 = (r2, d2)" by fastforce
    then have "d' = d2" using Cons.prems m Some by (auto split: option.splits)
    then show ?thesis using Cons.IH [OF p] c same_stream_trans by auto
  qed
qed simp

lemma prepared_same:
  assumes "startIsoPump e s u False d0 = (True, d')"
  shows "same_stream d0 d'"
    and "65536 div strideOf (fmt d0) \<le> graphQuantum (buf d0) \<Longrightarrow> startupPrimeFrames (buf d') = 0"
proof -
  obtain d1 d2 d3 xs d5 where st: "0 < strideOf (fmt d0)"
    and d1: "d1 = pace_update (maxFramesPerPacket_update (\<lambda>_. min (cdiv (maxIsoPacketSize u (endpointAddress (fmt d0))) (strideOf (fmt d0)))
       (nominal_max_frames (set_cadence d0) + 1))) (set_cadence d0)"
    and al: "alloc_playback e s (nat (transferCount (buf d1))) 0 (strideOf (fmt d0)) d1 = (True, d2)"
    and plan: "(if implicit_mode d2 then plan_from_metadata (strideOf (fmt d0)) (transfers (ses d2)) d2
      else (Some (transfers (ses d2)), d2)) = (Some xs, d3)"
    and fb: "(if feedbackEndpointAddress (fmt d3) \<noteq> 0
      then alloc_feedback e s 2 (set_prime (strideOf (fmt d0)) (ses_update (transfers_update (\<lambda>_. xs)) d3))
      else (True, set_prime (strideOf (fmt d0)) (ses_update (transfers_update (\<lambda>_. xs)) d3))) = (True, d5)"
    and d': "d' = ses_update (eventThread_update (\<lambda>_. True)) d5"
    using startIsoPump_cases [OF assms] by metis
  have a: "same_stream d0 d1" "graphQuantum (buf d1) = graphQuantum (buf d0)" by (simp_all add: d1 same_stream_def set_cadence_fields)
  have b: "same_stream d1 d2" "buf d2 = buf d1" using alloc_playback_same [OF al] by simp_all
  have c: "same_stream d2 d3" "buf d3 = buf d2" using plan plan_from_metadata_same by (auto split: if_splits)
  define d4 where "d4 = set_prime (strideOf (fmt d0)) (ses_update (transfers_update (\<lambda>_. xs)) d3)"
  have d: "same_stream d3 d4" by (simp add: d4_def set_prime_def Let_def same_stream_def)
  have f: "same_stream d4 d5" "buf d5 = buf d4" using fb alloc_feedback_same by (auto simp: d4_def split: if_splits)
  have "same_stream d0 d5" using a(1) b(1) c(1) d f(1) same_stream_trans by blast
  then show "same_stream d0 d'" by (simp add: d' same_stream_def)
  assume "65536 div strideOf (fmt d0) \<le> graphQuantum (buf d0)"
  then show "startupPrimeFrames (buf d') = 0"
    using st a(2) b(2) c(2) f(2) by (simp add: d' d4_def set_prime_def Let_def startupPlaybackPrimeFrames_def)
qed

lemma prime_transfers_frame: "prime_transfers e xs d = (ys, d') \<Longrightarrow> drain_frame d d'"
proof (induction xs arbitrary: d ys d')
  case (Cons x xs)
  have pk: "drain_frame d (snd (prime_packets e i n off y d))" for i n off y d
  proof (induction n arbitrary: i off y d)
    case (Suc n)
    obtain out d1 where dr: "drainRing e (sint (pk_length (xf_pkts y ! i))) d = (out, d1)" by fastforce
    show ?case using drain_frame_trans [OF drainRing_drain_frame [OF dr] Suc.IH] by (simp add: Let_def dr)
  qed simp
  obtain x1 d1 where p: "prime_packets e 0 (length (xf_pkts x)) 0 x d = (x1, d1)" by fastforce
  obtain ys1 d2 where q: "prime_transfers e xs d1 = (ys1, d2)" by fastforce
  have "drain_frame d d1" using pk [of d 0 "length (xf_pkts x)" 0 x] p by simp
  then show ?case using Cons.prems p q drain_frame_trans Cons.IH [OF q] by auto
qed simp

lemma submit_needs_prime:
  assumes "submitIsoPump e s u d = (True, d')"
  shows "startupPrimeFrames (buf d') \<le> bufferedFrames d"
proof -
  obtain xs d1 d3 d4 where p: "startupPrimeFrames (buf d) \<le> bufferedFrames d"
    and pr: "prime_transfers e (transfers (ses d)) d = (xs, d1)"
    and fb: "submit_feedback e s u (feedbackTransfers (ses d1)) (ses_update (transfers_update (\<lambda>_. xs)) d1) = (True, d3)"
    and pl: "submit_playback e s u xs d3 = (True, d4)"
    and d': "d' = mode_update (playbackStarted_update (\<lambda>_. True) \<circ> streaming_update (\<lambda>_. True)) d4"
    using submitIsoPump_cases [OF assms] by metis
  have "buf d1 = buf d" using prime_transfers_frame [OF pr] by (simp add: drain_frame_def)
  then show ?thesis using p submit_all [OF fb pl] by (simp add: d')
qed

lemma startIsoPump_split:
  "startIsoPump e s u True d0 =
     (case startIsoPump e s u False d0 of (ok, d1) \<Rightarrow> if ok then submitIsoPump e s u d1 else (False, d1))"
proof -
  define stride where "stride = strideOf (fmt (set_cadence d0))"
  define mp where "mp = maxIsoPacketSize u (endpointAddress (fmt (set_cadence d0)))"
  define d1 where "d1 = pace_update (maxFramesPerPacket_update (\<lambda>_. min (cdiv mp stride)
       (nominal_max_frames (set_cadence d0) + 1))) (set_cadence d0)"
  note eq = startIsoPump_def [of e s u _ d0, unfolded Let_def, folded stride_def mp_def, folded d1_def]
  show ?thesis
  proof (cases "(stride \<le> 0 \<or> mp \<le> 0) \<or> cdiv mp stride < nominal_max_frames (set_cadence d0)")
    case True
    then show ?thesis unfolding eq by auto
  next
    case False
    then have c: "\<not> (stride \<le> 0 \<or> mp \<le> 0)" "\<not> cdiv mp stride < nominal_max_frames (set_cadence d0)" by auto
    obtain ok d2 where al: "alloc_playback e s (nat (transferCount (buf d1))) 0 stride d1 = (ok, d2)" by fastforce
    obtain plan d3 where pl: "(if implicit_mode d2 then plan_from_metadata stride (transfers (ses d2)) d2
        else (Some (transfers (ses d2)), d2)) = (plan, d3)" by fastforce
    note eq1 = eq [unfolded if_not_P [OF c(1)] if_not_P [OF c(2)] al prod.case pl]
    show ?thesis
    proof (cases plan)
      case None
      then show ?thesis unfolding eq1 by simp
    next
      case (Some xs)
      define d4 where "d4 = set_prime stride (ses_update (transfers_update (\<lambda>_. xs)) d3)"
      obtain ok2 d5 where fb: "(if feedbackEndpointAddress (fmt d4) \<noteq> 0 then alloc_feedback e s 2 d4 else (True, d4)) = (ok2, d5)"
        by fastforce
      show ?thesis
        unfolding eq1 Some option.case d4_def [symmetric] fb prod.case ensureEventThread_def by simp
    qed
  qed
qed

lemma bufferedFrames_empty: "rhead (ring d) = rtail (ring d) \<Longrightarrow> bufferedFrames d = 0"
  by (simp add: bufferedFrames_def Let_def ringSize_def int_of_size_def)

lemma fresh_start_needs_no_prime:
  assumes "startIsoPump e s u True (reset_session d) = (True, d')"
  shows "startupPrimeFrames (buf d') \<le> 0"
proof -
  obtain d1 where p: "startIsoPump e s u False (reset_session d) = (True, d1)" and q: "submitIsoPump e s u d1 = (True, d')"
    using assms unfolding startIsoPump_split by (auto split: prod.splits if_splits)
  have "ring d1 = ring (reset_session d)" using prepared_same(1) [OF p] by (simp add: same_stream_def)
  then have "bufferedFrames d1 = 0" by (intro bufferedFrames_empty) (simp add: reset_session_def)
  then show ?thesis using submit_needs_prime [OF q] by simp
qed

section \<open>The start sequence\<close>

lemma winds_down_stopping: "winds_down d d' \<Longrightarrow> stopRequested (mode d) \<Longrightarrow> stopRequested (mode d')"
  by (simp add: winds_down_def)

lemma settle_winds_down:
  assumes "stopRequested (mode d)"
  shows "winds_down d (settle e s cnt d)"
proof -
  have clk: "winds_down d d1" if "monotonicNowNs e d = (now, d1)" for d now d1
    using that by (auto simp: monotonicNowNs_def winds_down_def)
  have su: "winds_down d (service_until e s cnt deadline fuel d)" if "stopRequested (mode d)" for deadline fuel d
    using that
  proof (induction fuel arbitrary: d)
    case (Suc fuel)
    obtain now d1 where c: "monotonicNowNs e d = (now, d1)" by fastforce
    note k = clk [OF c]
    have h: "winds_down d1 (handle_events e s d1)"
      using fold_complete_stopping [of d1 e s "due s d1"] winds_down_stopping [OF k Suc.prems] by (simp add: handle_events_def)
    have "winds_down d (handle_events e s d1)" by (rule winds_down_trans [OF k h])
    then have "winds_down d (service_until e s cnt deadline fuel (handle_events e s d1))"
      using Suc.prems by (intro winds_down_trans [OF _ Suc.IH]) (simp_all add: winds_down_def)
    then show ?case using k by (simp add: c)
  qed simp
  obtain now d1 where c: "monotonicNowNs e d = (now, d1)" by fastforce
  show ?thesis
    unfolding settle_def c prod.case by (rule winds_down_trans [OF clk [OF c]]) (rule su [OF winds_down_stopping [OF clk [OF c] assms]])
qed

lemma cancel_all_winds_down: "winds_down d (cancel_all e xs d)"
proof (induction xs arbitrary: d)
  case (Cons x xs)
  have "winds_down d (snd (usb e (Cancel (xf_id x)) d))" by (simp add: usb_def Let_def winds_down_def)
  then show ?case using winds_down_trans [OF _ Cons.IH] by (simp add: cancel_all_def)
qed (simp add: cancel_all_def)

lemma pumps_keep_defer:
  "deferOutputStart (mode (snd (stopIsoPump e s d))) = deferOutputStart (mode d)"
  "stopRequested (mode (snd (stopIsoPump e s d)))"
  "stopRequested (mode d) \<Longrightarrow> deferOutputStart (mode (snd (stopCapturePump e s d))) = deferOutputStart (mode d)"
proof -
  define d1 where "d1 = mode_update (stopRequested_update (\<lambda>_. True)) d"
  define d2 where "d2 = settle e s outstanding (cancel_all e (feedbackTransfers (ses d1)) (cancel_all e (transfers (ses d1)) d1))"
  have s1: "stopRequested (mode d1)" "deferOutputStart (mode d1) = deferOutputStart (mode d)" by (simp_all add: d1_def)
  have c: "winds_down d1 (cancel_all e (feedbackTransfers (ses d1)) (cancel_all e (transfers (ses d1)) d1))"
    by (rule winds_down_trans [OF cancel_all_winds_down cancel_all_winds_down])
  then have w: "winds_down d1 d2"
    unfolding d2_def by (rule winds_down_trans) (rule settle_winds_down [OF winds_down_stopping [OF c s1(1)]])
  have "winds_down d2 (handle_events e s d2)"
    using fold_complete_stopping [of d2 e s "due s d2"] winds_down_stopping [OF w s1(1)] by (simp add: handle_events_def)
  then have "mode (join_event_thread e s d2) = mode d2" by (simp add: join_event_thread_def winds_down_def)
  then show "deferOutputStart (mode (snd (stopIsoPump e s d))) = deferOutputStart (mode d)"
    "stopRequested (mode (snd (stopIsoPump e s d)))"
    using w s1 unfolding stopIsoPump_def Let_def d1_def [symmetric] d2_def [symmetric]
    by (auto simp: winds_down_def count_lifecycle_failure_def)
  assume s: "stopRequested (mode d)"
  define d3 where "d3 = settle e s captureOutstanding (cancel_all e (captureTransfers (ses d)) d)"
  have "winds_down d d3"
    unfolding d3_def by (rule winds_down_trans [OF cancel_all_winds_down])
      (rule settle_winds_down [OF winds_down_stopping [OF cancel_all_winds_down s]])
  then show "deferOutputStart (mode (snd (stopCapturePump e s d))) = deferOutputStart (mode d)"
    unfolding stopCapturePump_def Let_def d3_def [symmetric] by (auto simp: winds_down_def count_lifecycle_failure_def)
qed

lemma reconfigure_keeps_defer: "deferOutputStart (mode (snd (reconfigure e s d))) = deferOutputStart (mode d)"
proof (cases "needs_reconfigure d")
  case True
  obtain ok1 d1 where a: "stopIsoPump e s (mode_update (captureActive_update (\<lambda>_. False)) d) = (ok1, d1)" by fastforce
  obtain ok2 d2 where b: "stopCapturePump e s d1 = (ok2, d2)" by fastforce
  have "deferOutputStart (mode d1) = deferOutputStart (mode d)" "stopRequested (mode d1)"
    using pumps_keep_defer(1,2) [of e s "mode_update (captureActive_update (\<lambda>_. False)) d"] a by simp_all
  then have "deferOutputStart (mode d2) = deferOutputStart (mode d)" using pumps_keep_defer(3) [of d1 e s] b by simp
  then show ?thesis
    using True by (simp add: reconfigure_def a b Let_def report_error_def idle_capture_interface_def usb_def)
qed (simp add: reconfigure_def)

lemma claims_keep_mode:
  "mode (snd (claim_streaming e u f d)) = mode d" "mode (claim_control e f d) = mode d" "mode (snd (usb e c d)) = mode d"
  by (simp_all add: claim_streaming_def claim_control_def usb_def Let_def report_error_def split: prod.split)

lemma selectAltSetting_mode: "selectAltSetting u rate bits chans nbytes f d = Some (r, d') \<Longrightarrow> mode d' = mode d"
  by (auto simp: selectAltSetting_def split: option.splits prod.splits)

lemma clock_mode:
  "mode (snd (try_set_cur e hz i ids d)) = mode d" "mode (snd (try_get_cur e hz i ids d)) = mode d"
  "mode (captureRangeForClock e c d) = mode d"
proof -
  have c: "mode (snd (control e a b v i' xs l d)) = mode d" for a b v i' xs l d by (simp add: control_def usb_def Let_def)
  have g: "mode (snd (get_range e i' c' d)) = mode d" for i' c' d using c by (simp add: get_range_def)
  have st: "mode (store_ranges c gr rng d) = mode d" for c gr rng d by (simp add: store_ranges_def)
  show r: "mode (captureRangeForClock e c d) = mode d" for c d
    using g by (auto simp: captureRangeForClock_def st split: prod.split) (metis snd_conv)+
  show "mode (snd (try_set_cur e hz i ids d)) = mode d"
    by (induction ids arbitrary: d) (auto simp: usb_def Let_def case_prod_beta r)
  show "mode (snd (try_get_cur e hz i ids d)) = mode d"
    by (induction ids arbitrary: d) (auto simp: usb_def Let_def case_prod_beta r st g)
qed

lemma setSampleRate_mode: "mode (snd (setSampleRate e hz d)) = mode d"
proof -
  have "mode (snd (setSampleRate_uac1 e hz d)) = mode d"
    by (simp add: setSampleRate_uac1_def Let_def usb_def)
  moreover obtain r1 d1 where a: "try_set_cur e hz (controlInterfaceNum (fmt d)) (tryIds (fmt d)) d = (r1, d1)" by fastforce
  moreover obtain r2 d2 where b: "try_get_cur e hz (controlInterfaceNum (fmt d)) (tryIds (fmt d)) d1 = (r2, d2)" by fastforce
  moreover have "mode d1 = mode d" "mode d2 = mode d1"
    using clock_mode(1,2) a b by (metis snd_conv)+
  ultimately show ?thesis by (simp add: setSampleRate_def Let_def clock_mode split: option.split)
qed

text \<open>A successful start ends with the pump, unless the output start is deferred.\<close>

lemma start_success:
  assumes s: "start e s u epoch rate bits chans nbytes d = Some (True, d')" and l6: "\<not> line6Profile (ses d)"
  obtains d5 d6 where "deferOutputStart (mode d5) = deferOutputStart (mode d)"
    "(if deferOutputStart (mode d5) then (True, reset_session d5) else startIsoPump e s u True (reset_session d5)) = (True, d6)"
    "d' = mode_update (streaming_update (\<lambda>_. \<not> deferOutputStart (mode d6))) d6"
proof -
  define d0 where "d0 = clear_error d"
  have d0: "mode d0 = mode d" "line6Profile (ses d0) = line6Profile (ses d)" by (simp_all add: d0_def clear_error_def)
  obtain ok1 d1 where r1: "reconfigure e s d0 = (ok1, d1)" by fastforce
  note s1 = s [unfolded start_def Let_def d0_def [symmetric] r1 prod.case]
  have ok1: ok1 and s2: "(case selectAltSetting u rate bits chans nbytes defaultStreamFormat d1 of
          None \<Rightarrow> None
        | Some (None, d2) \<Rightarrow> Some (False, report_error NoMatchingAlt
             (''no AS alt setting matches '' @ to_string rate @ '' Hz / '' @ to_string bits @ ''-bit / '' @ to_string chans @
              ''ch '' @ emdash @ '' DAC may not support this rate at this bit depth'') d2)
        | Some (Some f, d2) \<Rightarrow> Some (start_format e s u rate f d2)) = Some (True, d')"
    using s1 l6 d0(2) by (auto split: if_splits)
  obtain f d2 where sel: "selectAltSetting u rate bits chans nbytes defaultStreamFormat d1 = Some (Some f, d2)"
    using s2 by (auto split: option.splits prod.splits)
  obtain ok3 d3 where r3: "claim_streaming e u f d2 = (ok3, d3)" by fastforce
  obtain rc d4 where r4: "usb e (SetInterfaceAlt (interfaceNumber f) (altSetting f)) ((claim_control e f d3)\<lparr>fmt := f\<rparr>) = (rc, d4)" by fastforce
  obtain ok5 d5 where r5: "setSampleRate e (u32_of_int rate) d4 = (ok5, d5)" by fastforce
  obtain ok6 d6 where r6: "(if deferOutputStart (mode d5) then (True, reset_session d5)
     else startIsoPump e s u True (reset_session d5)) = (ok6, d6)" by fastforce
  note s3 = s2 [unfolded sel option.case prod.case start_format_def r3 r4 r5 r6]
  have ok6 and d': "d' = mode_update (streaming_update (\<lambda>_. \<not> deferOutputStart (mode d6))) d6"
    using s3 by (auto split: if_splits)
  moreover have "deferOutputStart (mode d5) = deferOutputStart (mode d)"
  proof -
    have "mode d5 = mode d4" using setSampleRate_mode [of e "u32_of_int rate" d4] r5 by simp
    also have "mode d4 = mode d3" using r4 by (auto simp: usb_def Let_def claims_keep_mode(2))
    also have "mode d3 = mode d2" using claims_keep_mode(1) [of e u f d2] r3 by simp
    also have "mode d2 = mode d1" by (rule selectAltSetting_mode [OF sel])
    finally show ?thesis using reconfigure_keeps_defer [of e s d0] r1 d0(1) by simp
  qed
  ultimately show thesis using that r6 by simp
qed

section \<open>A concrete start\<close>

lemma startIsoPump_accepts:
  assumes rc: "\<forall>h c. usb_rc e h c = 0" and c: "0 < strideOf (fmt d)" "0 < maxIsoPacketSize u (endpointAddress (fmt d))"
      "nominal_max_frames (set_cadence d) \<le> cdiv (maxIsoPacketSize u (endpointAddress (fmt d))) (strideOf (fmt d))"
    and m: "\<not> captureActive (mode d)"
  shows "fst (startIsoPump e s u False d)"
proof -
  define d1 where "d1 = pace_update (maxFramesPerPacket_update (\<lambda>_. min (cdiv (maxIsoPacketSize u (endpointAddress (fmt d)))
     (strideOf (fmt d))) (nominal_max_frames (set_cadence d) + 1))) (set_cadence d)"
  obtain d2 where al: "alloc_playback e s (nat (transferCount (buf d1))) 0 (strideOf (fmt d)) d1 = (True, d2)"
    using alloc_accepting(1) [OF rc] by (metis prod.collapse)
  have "\<not> implicit_mode d2"
    using alloc_playback_same [OF al] m by (simp add: same_stream_def implicit_mode_def d1_def set_cadence_fields)
  then show ?thesis
    using c al unfolding startIsoPump_def Let_def set_cadence_fields d1_def [symmetric]
    by (simp add: not_less not_le ensureEventThread_def alloc_accepting(2) [OF rc] case_prod_beta)
qed

text \<open>Without a prime, an accepting bus starts the pump at once.\<close>

lemma startIsoPump_submits:
  assumes "\<forall>h c. usb_rc e h c = 0" "fst (startIsoPump e s u False d)" "65536 div strideOf (fmt d) \<le> graphQuantum (buf d)"
    "0 < strideOf (fmt d)" "rhead (ring d) = rtail (ring d)" "\<not> stopRequested (mode d)"
  shows "fst (startIsoPump e s u True d)"
proof -
  obtain d1 where p: "startIsoPump e s u False d = (True, d1)" using assms(2) by (metis prod.collapse)
  note q = prepared_same [OF p]
  have "bufferedFrames d1 = 0" using q(1) assms(5) by (intro bufferedFrames_empty) (simp add: same_stream_def)
  then have "fst (submitIsoPump e s u d1)"
    using q assms(3,4,6) submit_accepting [OF assms(1)]
    by (simp add: submitIsoPump_def Let_def case_prod_beta same_stream_def)
  then show ?thesis by (simp add: startIsoPump_split p)
qed

definition demo_opened :: driver where
  "demo_opened = (newDriver 3 4)\<lparr>ses := initSession\<lparr>contextReady := True, device := Some 9\<rparr>,
     buf := initBuffering\<lparr>graphQuantum := 20000\<rparr>\<rparr>"

definition demo_format :: StreamFormat where
  "demo_format = defaultStreamFormat\<lparr>sampleRateHz := 48000, bitsPerSample := 16, bytesPerSample := 2, channels := 2,
     interfaceNumber := 1, altSetting := 1, endpointAddress := 1, terminalLink := 2, maxPacketSize := 200\<rparr>"

lemma demo_selected:
  "selectAltSetting (demo_device 1) 48000 16 2 0 defaultStreamFormat (clear_error demo_opened) = Some (Some demo_format, clear_error demo_opened)"
proof -
  have sel: "select_alts True 0 emptyTopology 48000 16 2 0 defaultStreamFormat (concat (demo_config 1)) [] = Some (Some demo_format, [])"
    by code_simp
  have "supportedRates (ses (clear_error demo_opened)) = []" "ses_update (supportedRates_update (\<lambda>_. [])) (clear_error demo_opened) = clear_error demo_opened"
    by (simp_all add: clear_error_def demo_opened_def newDriver_def)
  then show ?thesis
    by (simp add: selectAltSetting_def demo_device_simps demo_device_config(1) sel)
qed

lemma demo_start_succeeds: "\<exists>d'. start demo_env demo_source (demo_device 1) 0 48000 16 2 0 demo_opened = Some (True, d')"
proof -
  have rc: "\<forall>h c. usb_rc demo_env h c = 0" by (simp add: demo_env_def)
  define d0 where "d0 = clear_error demo_opened"
  have m: "mode d0 = initModes" "ses d0 = initSession\<lparr>contextReady := True, device := Some 9\<rparr>" "claim d0 = initClaims"
    "led d0 = initLedger" "buf d0 = initBuffering\<lparr>graphQuantum := 20000\<rparr>" "wake_valid (captureWake d0)" "wake_valid (playbackWake d0)"
    by (simp_all add: d0_def clear_error_def demo_opened_def newDriver_def initSession_def wake_open_def newWake_def wake_valid_def)
  have nr: "reconfigure demo_env demo_source d0 = (True, d0)"
    by (simp add: reconfigure_def needs_reconfigure_def m initModes_def initSession_def initLedger_def initClaims_def
        outstanding_def captureOutstanding_def)
  have "\<exists>d'. start_format demo_env demo_source (demo_device 1) 48000 demo_format d0 = (True, d')"
  proof -
    obtain d3 where r3: "claim_streaming demo_env (demo_device 1) demo_format d0 = (True, d3)" "buf d3 = buf d0" "mode d3 = mode d0" "ring d3 = ring d0"
      using rc by (auto simp: claim_streaming_def m initClaims_def usb_def Let_def)
    obtain d4 where r4: "usb demo_env (SetInterfaceAlt (interfaceNumber demo_format) (altSetting demo_format))
        ((claim_control demo_env demo_format d3)\<lparr>fmt := demo_format\<rparr>) = (0, d4)"
        "buf d4 = buf d0" "mode d4 = mode d0" "ring d4 = ring d0" "fmt d4 = demo_format"
      using rc r3 by (auto simp: usb_def Let_def claim_control_def)
    have r5: "setSampleRate demo_env 48000 d4 = (True, d4)"
      by (simp add: setSampleRate_def r4(5) demo_format_def defaultStreamFormat_def tryIds_def)
    define d5 where "d5 = reset_session d4"
    have f: "fmt d5 = demo_format" "graphQuantum (buf d5) = 20000" "rhead (ring d5) = rtail (ring d5)" "\<not> stopRequested (mode d5)"
      "\<not> captureActive (mode d5)" "\<not> deferOutputStart (mode d4)"
      using r4 m by (simp_all add: d5_def reset_session_def initModes_def)
    have st: "strideOf demo_format = 4" "endpointAddress demo_format = 1" "packets_per_sec demo_format = 8000" "sampleRateHz demo_format = 48000"
      by (simp_all add: strideOf_def demo_format_def packets_per_sec_def packet_interval_def defaultStreamFormat_def)
    have "fst (startIsoPump demo_env demo_source (demo_device 1) False d5)"
      using rc f by (intro startIsoPump_accepts)
        (simp_all add: f st demo_device_def nominal_max_frames_def Let_def set_cadence_fields)
    then have "fst (startIsoPump demo_env demo_source (demo_device 1) True d5)"
      using rc f by (intro startIsoPump_submits) (simp_all add: st)
    then show ?thesis
      unfolding start_format_def r3 prod.case r4(1)
      by (simp add: u32_of_int_def r5 f d5_def [symmetric] case_prod_beta)
  qed
  then show ?thesis
    using m nr demo_selected
    unfolding start_def Let_def d0_def [symmetric]
    by (auto simp: initSession_def)
qed

section \<open>Properties\<close>

text \<open>C18. A playback-only start cannot succeed with a startup prime.  \<open>start\<close> empties the ring and then
  submits, which demands the prime from the ring; so outside duplex operation success means the
  prime is zero, whatever the device answers.  With any positive target that fits the ring,
  \<open>start\<close> always reports failure.\<close>

theorem start_succeeds_only_without_prime:
  assumes "start e s u epoch rate bits chans nbytes d = Some (True, d')" "\<not> line6Profile (ses d)" "\<not> deferOutputStart (mode d)"
  shows "startupPrimeFrames (buf d') \<le> 0"
proof -
  obtain d5 d6 where "deferOutputStart (mode d5) = deferOutputStart (mode d)"
    "(if deferOutputStart (mode d5) then (True, reset_session d5) else startIsoPump e s u True (reset_session d5)) = (True, d6)"
    "d' = mode_update (streaming_update (\<lambda>_. \<not> deferOutputStart (mode d6))) d6"
    using start_success [OF assms(1,2)] by metis
  then show ?thesis using fresh_start_needs_no_prime [of e s u d5 d6] assms(3) by simp
qed

theorem start_succeeds_only_without_prime_witness:
  "\<exists>d'. start demo_env demo_source (demo_device 1) 0 48000 16 2 0 demo_opened = Some (True, d') \<and> startupPrimeFrames (buf d') \<le> 0"
proof -
  obtain d' where "start demo_env demo_source (demo_device 1) 0 48000 16 2 0 demo_opened = Some (True, d')"
    using demo_start_succeeds by blast
  moreover from this have "startupPrimeFrames (buf d') \<le> 0"
    by (rule start_succeeds_only_without_prime) (simp_all add: demo_opened_def newDriver_def initSession_def initModes_def)
  ultimately show ?thesis by blast
qed

text \<open>C19. Opening is exclusive.  When \<open>open\<close> succeeds the requested descriptor and profile are in place and
  nothing of a previous session is live: no transfer is allocated and none is outstanding.  With
  transfers still live it fails, counts a lifecycle failure and leaves the old handle alone.\<close>

theorem open_only_when_quiet:
  "case open_device e s u fd code d of (ok, d') \<Rightarrow>
     (ok \<longrightarrow> device (ses d') \<noteq> None \<and> fileDescriptor (ses d') = fd \<and> driverCode (ses d') = code \<and> \<not> still_live d') \<and>
     (contextReady (ses d) \<and> still_live (stop e s d) \<longrightarrow>
        \<not> ok \<and> d' = count_lifecycle_failure (stop e s d) \<and> device (ses d') = device (ses (stop e s d)))"
proof -
  obtain ready d1 where c: "ensureContext e d = (ready, d1)" by fastforce
  have ctx: "contextReady (ses d) \<Longrightarrow> ready \<and> d1 = d" using c by (simp add: ensureContext_def)
  define d2 where "d2 = stop e s d1"
  note eq = open_device_def [of e s u fd code d, unfolded c prod.case Let_def [of "stop e s d1"], folded d2_def]
  consider "\<not> ready" | "ready" "still_live d2" | "ready" "\<not> still_live d2" "device (ses d2) \<noteq> None \<and> fileDescriptor (ses d2) = fd \<and> driverCode (ses d2) = code"
    | "ready" "\<not> still_live d2" "\<not> (device (ses d2) \<noteq> None \<and> fileDescriptor (ses d2) = fd \<and> driverCode (ses d2) = code)" by blast
  then show ?thesis
  proof cases
    case 4
    define d3 where "d3 = (if device (ses d2) \<noteq> None then close_handle e d2 else d2)"
    have q: "\<not> still_live d3" using 4(2) by (simp add: d3_def close_handle_def usb_def Let_def still_live_def outstanding_def captureOutstanding_def)
    note eq4 = eq [unfolded if_not_P [OF 4(2)] if_not_P [OF 4(3)] Let_def, folded d3_def]
    have "\<not> (contextReady (ses d) \<and> still_live (stop e s d))" using 4(2) ctx by (auto simp: d2_def)
    moreover obtain ok d' where r: "open_device e s u fd code d = (ok, d')" by fastforce
    moreover have "ok \<longrightarrow> device (ses d') \<noteq> None \<and> fileDescriptor (ses d') = fd \<and> driverCode (ses d') = code \<and> \<not> still_live d'"
      using r 4(1) q unfolding eq4 by (auto simp: usb_def Let_def still_live_def outstanding_def captureOutstanding_def split: if_splits)
    ultimately show ?thesis by auto
  qed (use ctx in \<open>auto simp: eq d2_def count_lifecycle_failure_def\<close>)
qed

definition demo_open_env :: env where
  "demo_open_env = demo_env\<lparr>usb_data := (\<lambda>_ _. [1])\<rparr>"

theorem open_only_when_quiet_witness:
  "\<exists>d'. open_device demo_open_env demo_source (demo_device 1) 9 0 (newDriver 3 4) = (True, d') \<and>
     fileDescriptor (ses d') = 9 \<and> \<not> still_live d'"
proof -
  have rc: "usb_rc demo_open_env h c = 0" "usb_data demo_open_env h c = [1]" for h c by (simp_all add: demo_open_env_def demo_env_def)
  obtain d1 where e1: "ensureContext demo_open_env (newDriver 3 4) = (True, d1)" "ses d1 = initSession\<lparr>contextReady := True\<rparr>"
    "claim d1 = initClaims" "led d1 = initLedger"
    by (auto simp: ensureContext_def usb_def Let_def rc newDriver_def initSession_def)
  have st: "stop demo_open_env demo_source d1 = requestStop d1"
    by (simp add: stop_def requestStop_def e1 initSession_def initClaims_def)
  have q: "ses (requestStop d1) = initSession\<lparr>contextReady := True\<rparr>" "\<not> still_live (requestStop d1)"
    by (simp_all add: requestStop_def e1 still_live_def outstanding_def captureOutstanding_def initSession_def initLedger_def)
  have "fst (open_device demo_open_env demo_source (demo_device 1) 9 0 (newDriver 3 4))"
    by (simp add: open_device_def e1 st q rc usb_def Let_def initSession_def)
  then show ?thesis
    using open_only_when_quiet [where e = demo_open_env and s = demo_source and u = "demo_device 1" and fd = 9 and code = 0 and d = "newDriver 3 4"]
    by (cases "open_device demo_open_env demo_source (demo_device 1) 9 0 (newDriver 3 4)") simp
qed

end
