(* ===== verification/Waits.thy ===== *)
theory Waits
  imports Lifecycle
begin

text \<open>
  The blocking waits of the render thread (\<^verbatim>\<open>src/libusb_uac_driver.cpp\<close>): for captured frames, for
  playback credit and for room in the ring.  While a wait polls its channel, the event thread works
  (\<open>handle_events\<close>); a poll returns when the channel is signalled or its time has passed.  A value
  \<open>None\<close> is a wait that never returns.

  Deadlines are clock readings.  The waits only observe the driver; what changes it meanwhile are
  the handlers of the event thread.
\<close>

section \<open>Polling a channel\<close>

text \<open>\<open>poll\<close>: \<open>None\<close> as limit is an infinite timeout.\<close>

partial_function (option) poll_chan ::
  "(driver \<Rightarrow> wake) \<Rightarrow> env \<Rightarrow> event_source \<Rightarrow> u64 option \<Rightarrow> driver \<Rightarrow> (bool \<times> driver) option" where
  "poll_chan ch e s limit d =
     (if wk_fd (ch d) < 0 then Some (False, d)
      else if wk_count (ch d) \<noteq> 0 then Some (True, d)
      else (case limit of
          None \<Rightarrow> poll_chan ch e s limit (handle_events e s d)
        | Some t \<Rightarrow> (case monotonicNowNs e d of (now, d1) \<Rightarrow>
            if now \<ge> t then Some (False, d1) else poll_chan ch e s limit (handle_events e s d1))))"

text \<open>\<open>pollUntil\<close>: an expired deadline returns at once, signalled or not.\<close>

definition poll_until :: "(driver \<Rightarrow> wake) \<Rightarrow> env \<Rightarrow> event_source \<Rightarrow> u64 \<Rightarrow> driver \<Rightarrow> (bool \<times> driver) option" where
  "poll_until ch e s deadline d =
     (if wk_fd (ch d) < 0 then Some (False, d)
      else (case monotonicNowNs e d of (now, d1) \<Rightarrow>
        if now \<ge> deadline then Some (False, d1) else poll_chan ch e s (Some deadline) d1))"

definition enter_capture :: "driver \<Rightarrow> driver" where
  "enter_capture d = d\<lparr>captureWake := wake_register (captureWake d)\<rparr>"

definition leave_capture :: "driver \<Rightarrow> driver" where
  "leave_capture d = d\<lparr>captureWake := wake_unregister (captureWake d)\<rparr>"

definition enter_playback :: "driver \<Rightarrow> driver" where
  "enter_playback d = d\<lparr>playbackWake := wake_register (playbackWake d)\<rparr>"

definition leave_playback :: "driver \<Rightarrow> driver" where
  "leave_playback d = d\<lparr>playbackWake := wake_unregister (playbackWake d)\<rparr>"

section \<open>Waiting for captured frames\<close>

partial_function (option) capture_loop :: "env \<Rightarrow> event_source \<Rightarrow> int \<Rightarrow> u64 option \<Rightarrow> driver \<Rightarrow> driver option" where
  "capture_loop e s frames limit d =
     (if captureAvailableFrames d < frames \<and> streaming (mode d)
      then (case limit of
          None \<Rightarrow> (case poll_chan captureWake e s None d of None \<Rightarrow> None
            | Some (ok, d1) \<Rightarrow> if \<not> ok then Some d1
                else capture_loop e s frames limit (d1\<lparr>captureWake := wake_drain (captureWake d1)\<rparr>))
        | Some t \<Rightarrow> (case monotonicNowNs e d of (now, d1) \<Rightarrow>
            if remaining_ms t now \<le> 0 then Some d1
            else (case poll_chan captureWake e s (Some (now + of_int (remaining_ms t now) * 1000000)) d1 of None \<Rightarrow> None
              | Some (ok, d2) \<Rightarrow> if \<not> ok then Some d2
                  else capture_loop e s frames limit (d2\<lparr>captureWake := wake_drain (captureWake d2)\<rparr>))))
      else Some d)"

definition waitForCaptureFrames :: "env \<Rightarrow> event_source \<Rightarrow> int \<Rightarrow> int \<Rightarrow> driver \<Rightarrow> (bool \<times> driver) option" where
  "waitForCaptureFrames e s frames timeoutMs d0 =
     (if frames \<le> 0 then Some (True, d0)
      else
        let d = enter_capture d0;
            (limit, d1) = (if timeoutMs > 0
                           then (case monotonicNowNs e d of (now, d2) \<Rightarrow> (Some (now + of_int timeoutMs * 1000000), d2))
                           else (None, d))
        in map_option (\<lambda>d2. (captureAvailableFrames d2 \<ge> frames, leave_capture d2)) (capture_loop e s frames limit d1))"

partial_function (option) capture_until_loop :: "env \<Rightarrow> event_source \<Rightarrow> int \<Rightarrow> u64 \<Rightarrow> driver \<Rightarrow> driver option" where
  "capture_until_loop e s frames deadline d =
     (if captureAvailableFrames d < frames \<and> streaming (mode d)
      then (case poll_until captureWake e s deadline d of None \<Rightarrow> None
        | Some (ok, d1) \<Rightarrow> if \<not> ok then Some d1
            else capture_until_loop e s frames deadline (d1\<lparr>captureWake := wake_drain (captureWake d1)\<rparr>))
      else Some d)"

definition waitForCaptureFramesUntil :: "env \<Rightarrow> event_source \<Rightarrow> int \<Rightarrow> u64 \<Rightarrow> driver \<Rightarrow> (bool \<times> driver) option" where
  "waitForCaptureFramesUntil e s frames deadline d =
     (if frames \<le> 0 then Some (True, d)
      else map_option (\<lambda>d1. (captureAvailableFrames d1 \<ge> frames, leave_capture d1))
             (capture_until_loop e s frames deadline (enter_capture d)))"

section \<open>Waiting for playback\<close>

text \<open>The loops that poll up to a deadline and leave the channel as they find it; \<open>ready\<close> is the condition
  they wait for.\<close>

partial_function (option) playback_until_loop ::
  "(driver \<Rightarrow> bool) \<Rightarrow> env \<Rightarrow> event_source \<Rightarrow> u64 \<Rightarrow> driver \<Rightarrow> driver option" where
  "playback_until_loop ready e s deadline d =
     (if \<not> ready d \<and> streaming (mode d) \<and> \<not> transportFailed (mode d)
      then (case monotonicNowNs e d of (now, d1) \<Rightarrow>
        let remaining = pollMillisUntil (uint deadline) (uint now) in
        if remaining \<le> 0 then Some d1
        else (case poll_chan playbackWake e s (Some (now + of_int remaining * 1000000)) d1 of None \<Rightarrow> None
          | Some (ok, d2) \<Rightarrow> if \<not> ok then Some d2 else playback_until_loop ready e s deadline d2))
      else Some d)"

definition gate_floor :: "driver \<Rightarrow> int" where
  "gate_floor d = - playbackTargetFrames (buf d) - sint (queuedOutFrames (led d)) - playbackCreditReserve (led d)"

definition waitForPlaybackCreditUntil :: "env \<Rightarrow> event_source \<Rightarrow> int \<Rightarrow> u64 \<Rightarrow> driver \<Rightarrow> (bool \<times> driver) option" where
  "waitForPlaybackCreditUntil e s frames deadline d =
     (if frames \<le> 0 \<or> \<not> playbackStarted (mode d) then Some (True, d)
      else map_option (\<lambda>d1. (playbackCredit (led d1) - frames \<ge> gate_floor d, leave_playback d1))
             (playback_until_loop (\<lambda>d1. \<not> playbackCredit (led d1) - frames < gate_floor d) e s deadline (enter_playback d)))"

definition waitForWritableFramesUntil :: "env \<Rightarrow> event_source \<Rightarrow> int \<Rightarrow> u64 \<Rightarrow> driver \<Rightarrow> (bool \<times> driver) option" where
  "waitForWritableFramesUntil e s frames deadline d =
     (if frames \<le> 0 then Some (True, d)
      else map_option (\<lambda>d1. (writableFrames d1 \<ge> frames, leave_playback d1))
             (playback_until_loop (\<lambda>d1. \<not> writableToTargetFrames d1 < frames) e s deadline (enter_playback d)))"

partial_function (option) writable_loop :: "env \<Rightarrow> event_source \<Rightarrow> int \<Rightarrow> u64 option \<Rightarrow> driver \<Rightarrow> driver option" where
  "writable_loop e s frames limit d =
     (if writableFrames d < frames \<and> streaming (mode d) \<and> \<not> transportFailed (mode d)
      then (case limit of
          None \<Rightarrow> (case poll_chan playbackWake e s None d of None \<Rightarrow> None
            | Some (ok, d1) \<Rightarrow> if \<not> ok then Some d1
                else writable_loop e s frames limit (d1\<lparr>playbackWake := wake_drain (playbackWake d1)\<rparr>))
        | Some t \<Rightarrow> (case monotonicNowNs e d of (now, d1) \<Rightarrow>
            if remaining_ms t now \<le> 0 then Some d1
            else (case poll_chan playbackWake e s (Some (now + of_int (remaining_ms t now) * 1000000)) d1 of None \<Rightarrow> None
              | Some (ok, d2) \<Rightarrow> if \<not> ok then Some d2
                  else writable_loop e s frames limit (d2\<lparr>playbackWake := wake_drain (playbackWake d2)\<rparr>))))
      else Some d)"

definition waitForWritableFrames :: "env \<Rightarrow> event_source \<Rightarrow> int \<Rightarrow> int \<Rightarrow> driver \<Rightarrow> (bool \<times> driver) option" where
  "waitForWritableFrames e s frames timeoutMs d0 =
     (if frames \<le> 0 then Some (True, d0)
      else
        let d = enter_playback d0;
            (limit, d1) = (if timeoutMs > 0
                           then (case monotonicNowNs e d of (now, d2) \<Rightarrow> (Some (now + of_int timeoutMs * 1000000), d2))
                           else (None, d))
        in map_option (\<lambda>d2. (writableFrames d2 \<ge> frames, leave_playback d2)) (writable_loop e s frames limit d1))"

section \<open>Lemmas: the clock advances\<close>

text \<open>No handler ever takes a clock reading back.\<close>

definition ticks :: "driver \<Rightarrow> driver \<Rightarrow> bool" where
  "ticks d d' \<longleftrightarrow> clock_reads d \<le> clock_reads d'"

lemma ticks_refl [simp]: "ticks d d"
  by (simp add: ticks_def)

lemma ticks_trans: "ticks a b \<Longrightarrow> ticks b c \<Longrightarrow> ticks a c"
  by (simp add: ticks_def)

lemma ticks_record [simp]: "clock_reads (record_event e ev a b x y d) = Suc (clock_reads d)"
  by (simp add: record_event_def monotonicNowNs_def)

lemma ticks_inspect: "ticks d (inspectTransferContinuity e data d)"
proof -
  have s: "ticks d (inspect_sample e f v d)" for f v d by (simp add: ticks_def inspect_sample_def Let_def)
  have "ticks d (inspect_frames e st n i data d)" for st n i d
  proof (induction n arbitrary: i d)
    case (Suc n)
    show ?case using ticks_trans [OF s Suc.IH] by (simp add: Let_def)
  qed simp
  then show ?thesis by (simp add: inspectTransferContinuity_def Let_def)
qed

lemma ticks_drainRing: "drainRing e n d = (out, d') \<Longrightarrow> ticks d d'"
proof -
  assume dr: "drainRing e n d = (out, d')"
  obtain o1 d1 where c: "drain_copy n d = (o1, d1)" by fastforce
  have "clock_reads d1 = clock_reads d" using c by (auto simp: drain_copy_def Let_def split: if_splits prod.splits)
  moreover have "ticks d1 (drain_short e a m n d1)" for a m by (simp add: drain_short_def Let_def ticks_def)
  ultimately have "ticks d (if int (length o1) < n then drain_short e a (int (length o1)) n d1
      else mode_update (playbackUnderrunActive_update (\<lambda>_. False)) d1)" for a
    by (simp add: ticks_def)
  then show ?thesis
    using dr ticks_trans [OF _ ticks_inspect] by (auto simp: drainRing_def Let_def c ticks_def split: if_splits)
qed

lemma ticks_ship_packet: "ticks d (snd (ship_packet e i f x d))"
  using ticks_drainRing by (auto simp: ship_packet_def Let_def split: prod.split)

lemma ticks_ship_packets: "ticks d (snd (ship_packets e i fs x d))"
proof (induction fs arbitrary: i x d)
  case (Cons f fs)
  show ?case using ticks_trans [OF ticks_ship_packet Cons.IH] by (simp add: case_prod_beta)
qed simp

lemma ticks_ship_scheduled: "ticks d (snd (ship_scheduled e r i n x d))"
proof (induction n arbitrary: i x d)
  case (Suc n)
  have "ticks d (snd (next_packet_frames r d))" by (simp add: next_packet_frames_def Let_def case_prod_beta ticks_def)
  then show ?case using ticks_trans [OF ticks_trans [OF _ ticks_ship_packet] Suc.IH] by (simp add: case_prod_beta)
qed simp

lemma ticks_prepare: "prepareImplicitTransfer e x d = (r, x1, d1) \<Longrightarrow> ticks d d1"
  using ticks_ship_packets [of "fifo_update (implicitRead_update (\<lambda>_. implicitRead (fifo d) + of_nat (length (xf_pkts x)))) d" e 0
      "planned_frames d (length (xf_pkts x))" x]
  by (auto simp: prepareImplicitTransfer_def Let_def ticks_def split: if_splits)

lemma ticks_failed [simp]: "clock_reads (markTransportFailed d) = clock_reads d"
  by (simp add: markTransportFailed_def)

lemma ticks_small [simp]:
  "clock_reads (retire_out d) = clock_reads d" "clock_reads (retire_capture d) = clock_reads d"
  "clock_reads (count_playback_error d) = clock_reads d" "clock_reads (count_capture_error d) = clock_reads d"
  "clock_reads (snd (usb e c d)) = clock_reads d"
  by (simp_all add: retire_defs usb_def Let_def)

lemma ticks_usb: "usb e c d = (rc, d') \<Longrightarrow> clock_reads d' = clock_reads d"
  by (auto simp: usb_def Let_def)

lemma ticks_submit_pending: "submit_pending e ps d = (n, left, d') \<Longrightarrow> ticks d d'"
proof (induction ps arbitrary: d n left d')
  case (Cons p ps)
  obtain x since where p: "p = (x, since)" by fastforce
  obtain r x1 d1 where pr: "prepareImplicitTransfer e x d = (r, x1, d1)" by (metis prod_cases3)
  have t1: "ticks d d1" by (rule ticks_prepare [OF pr])
  obtain rc d2 where u: "usb e (Submit x1) (led_update (inflight_update (\<lambda>n. n + 1)) d1) = (rc, d2)" by fastforce
  have t2: "ticks d d2" using t1 ticks_usb [OF u] by (simp add: ticks_def)
  define d4 where "d4 = (let age = fst (monotonicNowNs e d2) - since; frames = transfer_frames (strideOf (fmt d2)) x1;
      d3 = led_update (queuedOutFrames_update (\<lambda>q. q + frames))
             (pcnt_update (maxPendingAgeNs_update (keep_max age)) (snd (monotonicNowNs e d2)))
      in if frames > 0 then mode_update (implicitZeroRunwayActive_update (\<lambda>_. False)) d3 else d3)"
  have t4: "ticks d d4" using t2 by (simp add: d4_def Let_def monotonicNowNs_def ticks_def)
  obtain m l d5 where r5: "submit_pending e ps d4 = (m, l, d5)" by (metis prod_cases3)
  have "d' \<in> {d1, markTransportFailed (retire_out (count_playback_error d2)), d5}"
    using Cons.prems r5 unfolding d4_def Let_def by (auto simp: p pr u Let_def split: if_splits)
  then show ?case using t1 t2 ticks_trans [OF t4 Cons.IH [OF r5]] by (auto simp: ticks_def)
qed simp

lemma ticks_iso_parts:
  "ticks d (iso_count_errors x d)" "ticks d (iso_stall e d)" "ticks d (iso_envelope e n d)"
  "ticks d (iso_defer e x d)" "ticks d (iso_resubmit e n b x d)"
proof -
  have "clock_reads (fold (\<lambda>p d. if pk_status p \<noteq> Completed then count_playback_error d else d) ps d) = clock_reads d"
    for ps :: "iso_packet list" and d
    by (induction ps arbitrary: d) simp_all
  then show "ticks d (iso_count_errors x d)" by (simp add: iso_count_errors_def ticks_def)
  have sp: "clock_reads d \<le> clock_reads (spin_until e u n d)" for u n d
  proof (induction n arbitrary: d)
    case (Suc n)
    show ?case using Suc.IH [of "d\<lparr>clock_reads := Suc (clock_reads d)\<rparr>"] by (simp add: monotonicNowNs_def)
  qed simp
  show "ticks d (iso_stall e d)"
  proof -
    define d1 where "d1 = service_update (serviceStallUs_update (\<lambda>_. 0)) d"
    have "clock_reads d \<le> clock_reads (spin_until e u n (d1\<lparr>clock_reads := Suc (clock_reads d1)\<rparr>))" for u n
      using sp [of "d1\<lparr>clock_reads := Suc (clock_reads d1)\<rparr>" u n] by (simp add: d1_def)
    then show ?thesis by (simp add: iso_stall_def Let_def monotonicNowNs_def ticks_def d1_def)
  qed
  show "ticks d (iso_envelope e n d)"
  proof -
    have gap: "clock_reads (iso_gap now d) = clock_reads d" for now d
    proof -
      have "clock_reads (if c then gaps_update f d1 else d1) = clock_reads d1" for c f d1 by simp
      then show ?thesis unfolding iso_gap_def Let_def by (simp only: if_distrib [of clock_reads] driver.simps) simp
    qed
    have "clock_reads (iso_credit n d) = clock_reads d" "clock_reads (iso_occupancy d) = clock_reads d" for d
      by (simp_all add: iso_credit_def iso_occupancy_def Let_def)
    then show ?thesis by (simp add: iso_envelope_def monotonicNowNs_def gap ticks_def)
  qed
  show "ticks d (iso_defer e x d)"
    by (simp add: iso_defer_def Let_def monotonicNowNs_def ticks_def retire_defs)
  show "ticks d (iso_resubmit e n b x d)"
    by (auto simp: iso_resubmit_def Let_def ticks_def retire_defs usb_def)
qed

lemma ticks_onIso: "ticks d (onIso e x d)"
proof -
  have refill: "ticks d (iso_refill e n x d)" for n d
  proof -
    obtain r x1 d1 where p: "prepareImplicitTransfer e x d = (r, x1, d1)" by (metis prod_cases3)
    obtain x2 d2 where q: "ship_scheduled e (framesPerUframe_q16 (pace d)) 0 (length (xf_pkts x)) x d = (x2, d2)" by fastforce
    have "ticks d d1" "ticks d d2"
      using ticks_prepare [OF p] ticks_ship_scheduled [of d e "framesPerUframe_q16 (pace d)" 0 "length (xf_pkts x)" x] q by simp_all
    then show ?thesis using ticks_iso_parts(4,5) ticks_trans by (simp add: iso_refill_def p q)
  qed
  let ?d1 = "led_update (queuedOutFrames_update (\<lambda>q. subtractQueued q (transfer_frames (strideOf (fmt d)) x))) d"
  have "ticks ?d1 (iso_refill e n x (iso_envelope e n (iso_stall e (iso_count_errors x ?d1))))" for n
    using ticks_trans [OF ticks_trans [OF ticks_trans [OF ticks_iso_parts(1,2)] ticks_iso_parts(3)] refill] .
  then show ?thesis by (simp add: onIso_def Let_def ticks_def)
qed

lemma ticks_onCapture: "ticks d (onCapture e x d)"
proof -
  have pk: "clock_reads (snd (capture_packet x tl p st)) = clock_reads (snd st)" for tl p st
    by (cases st) (simp add: capture_packet_def Let_def push_metadata_def keep_packet_def)
  have fd: "clock_reads (snd (fold (capture_packet x tl) ps st)) = clock_reads (snd st)" for tl ps st
    by (induction ps arbitrary: st) (simp_all add: pk)
  obtain sc d1 where sc: "capture_scan_all x d = (sc, d1)" by fastforce
  have "clock_reads d1 = clock_reads d" using fd [of _ "xf_pkts x"] sc unfolding capture_scan_all_def by (metis snd_conv)
  then have p: "ticks d (capture_publish e sc d1)" by (simp add: capture_publish_def Let_def ticks_def)
  obtain n left d2 where sp: "submit_pending e (pendingImplicit (capture_publish e sc d1)) (capture_publish e sc d1) = (n, left, d2)"
    by (metis prod_cases3)
  have "ticks d (submitPendingImplicitTransfers e (capture_publish e sc d1))"
    using ticks_trans [OF p ticks_submit_pending [OF sp]] by (simp add: submitPendingImplicitTransfers_def sp Let_def ticks_def)
  then show ?thesis by (auto simp: onCapture_def sc Let_def ticks_def usb_def)
qed

lemma ticks_onFeedback: "ticks d (onFeedback e x d)"
proof -
  have "clock_reads (apply_feedback x d) = clock_reads d" by (simp add: apply_feedback_def Let_def)
  then show ?thesis by (simp add: onFeedback_def ticks_def usb_def Let_def)
qed

lemma ticks_handle_events: "ticks d (handle_events e s d)"
proof -
  have c: "ticks d (complete e s x d)" for x d
    using ticks_onIso [of "service_update (callbacksThisPoll_update (\<lambda>n. n + 1)) d" e x] ticks_onCapture ticks_onFeedback
    by (simp add: complete_def onIsoTrampoline_def Let_def ticks_def split: endpoint_kind.split prod.split)
  have "ticks d (fold (complete e s) xs d)" for xs
  proof (induction xs arbitrary: d)
    case (Cons x xs)
    show ?case using ticks_trans [OF c Cons.IH] by simp
  qed simp
  then show ?thesis by (simp add: handle_events_def)
qed

section \<open>Lemmas: waits end\<close>

text \<open>From the reading \<open>N\<close> on the clock is past \<open>t\<close>.\<close>

definition past :: "env \<Rightarrow> int \<Rightarrow> nat \<Rightarrow> bool" where
  "past e t N \<longleftrightarrow> (\<forall>n\<ge>N. t \<le> uint (clock_ns e n))"

lemma poll_chan_returns:
  assumes "past e (uint t) N"
  shows "\<exists>ok d'. poll_chan ch e s (Some t) d = Some (ok, d') \<and> ticks d d'"
proof (induction "N - clock_reads d" arbitrary: d rule: less_induct)
  case less
  show ?case
  proof (cases "wk_fd (ch d) < 0 \<or> wk_count (ch d) \<noteq> 0")
    case True
    then show ?thesis by (auto simp: poll_chan.simps [of ch e s "Some t" d])
  next
    case False
    define d1 where "d1 = d\<lparr>clock_reads := Suc (clock_reads d)\<rparr>"
    define d2 where "d2 = handle_events e s d1"
    have step: "poll_chan ch e s (Some t) d = (if clock_ns e (clock_reads d) \<ge> t then Some (False, d1) else poll_chan ch e s (Some t) d2)"
      using False by (subst poll_chan.simps) (simp add: monotonicNowNs_def d1_def d2_def)
    have t2: "ticks d1 d2" unfolding d2_def by (rule ticks_handle_events)
    show ?thesis
    proof (cases "clock_ns e (clock_reads d) \<ge> t")
      case True
      then show ?thesis using step by (auto simp: d1_def ticks_def)
    next
      case False
      then have "clock_reads d < N"
        using assms by (auto simp: past_def word_le_def intro: ccontr)
      then have "N - clock_reads d2 < N - clock_reads d" using t2 by (simp add: ticks_def d1_def)
      from less.hyps [OF this] show ?thesis using step False t2 by (auto simp: ticks_def d1_def)
    qed
  qed
qed

lemma pollMillis_limit:
  assumes "pollMillisUntil deadline now = r" "0 < r"
  shows "now < deadline" "now + r * 1000000 < deadline + 1000000"
proof -
  define ms where "ms = (deadline - now + 999999) div 1000000"
  have lt: "now < deadline" using assms by (simp add: pollMillisUntil_def Let_def split: if_splits)
  have ms: "1 \<le> ms" "ms * 1000000 < deadline - now + 1000000" using lt by (auto simp: ms_def)
  have "r = sint (word_of_int ms :: u32)"
    using assms lt ms(1) by (simp add: pollMillisUntil_def Let_def ms_def [symmetric])
  also have "\<dots> \<le> ms"
    using ms(1) assms(2) by (simp add: signed_of_int signed_take_bit_int_less_eq_self_iff)
  finally show "now < deadline" "now + r * 1000000 < deadline + 1000000" using lt ms by simp_all
qed

lemma playback_until_loop_returns:
  assumes p: "past e (uint deadline + 1000000) N" and b: "uint deadline + 1000000 < 2 ^ 64"
  shows "\<exists>d'. playback_until_loop ready e s deadline d = Some d' \<and> ticks d d'"
proof (induction "N - clock_reads d" arbitrary: d rule: less_induct)
  case less
  define now where "now = clock_ns e (clock_reads d)"
  define d1 where "d1 = d\<lparr>clock_reads := Suc (clock_reads d)\<rparr>"
  define r where "r = pollMillisUntil (uint deadline) (uint now)"
  define limit where "limit = now + of_int r * 1000000"
  have eq: "playback_until_loop ready e s deadline d =
      (if \<not> ready d \<and> streaming (mode d) \<and> \<not> transportFailed (mode d)
       then if r \<le> 0 then Some d1
            else (case poll_chan playbackWake e s (Some limit) d1 of None \<Rightarrow> None
              | Some (ok, d2) \<Rightarrow> if \<not> ok then Some d2 else playback_until_loop ready e s deadline d2)
       else Some d)"
    by (subst playback_until_loop.simps) (simp add: monotonicNowNs_def Let_def now_def d1_def r_def limit_def)
  have t1: "ticks d d1" "clock_reads d1 = Suc (clock_reads d)" by (simp_all add: d1_def ticks_def)
  show ?case
  proof (cases "\<not> ready d \<and> streaming (mode d) \<and> \<not> transportFailed (mode d) \<and> 0 < r")
    case False
    then show ?thesis using eq t1(1) by auto
  next
    case True
    note l = pollMillis_limit [OF r_def [symmetric]]
    have lim: "uint now < uint deadline" "uint now + r * 1000000 < uint deadline + 1000000" using l True by simp_all
    have "uint limit = uint now + r * 1000000"
    proof -
      have lw: "limit = word_of_int (uint now + r * 1000000)" by (simp add: limit_def)
      have "uint (word_of_int k :: u64) = k" if "0 \<le> k" "k < 2 ^ 64" for k
        using that by (simp add: unsigned_of_int take_bit_int_eq_self)
      moreover have "0 \<le> uint now + r * 1000000" "uint now + r * 1000000 < 2 ^ 64" using True lim(2) b by simp_all
      ultimately show ?thesis unfolding lw by blast
    qed
    then have "past e (uint limit) N" using p lim(2) by (force simp: past_def)
    from poll_chan_returns [OF this, of playbackWake s d1] obtain ok d2
      where pc: "poll_chan playbackWake e s (Some limit) d1 = Some (ok, d2)" "ticks d1 d2" by blast
    have "clock_reads d < N"
    proof (rule ccontr)
      assume "\<not> clock_reads d < N"
      then have "uint deadline + 1000000 \<le> uint now" using p by (simp add: past_def now_def)
      then show False using lim(1) by simp
    qed
    then have "N - clock_reads d2 < N - clock_reads d" using pc(2) t1(2) by (simp add: ticks_def)
    from less.hyps [OF this] show ?thesis
      using eq True pc ticks_trans [OF t1(1)] by (auto simp: ticks_def)
  qed
qed

text \<open>A channel that is already signalled is never drained: the loop then only reads the clock, over and
  over, until the condition holds or the deadline is reached.\<close>

lemma signalled_wait_spins:
  assumes "playback_until_loop ready e s deadline d = Some d'" "0 \<le> wk_fd (playbackWake d)" "wk_count (playbackWake d) \<noteq> 0"
  shows "\<exists>n. d' = d\<lparr>clock_reads := n\<rparr>"
proof -
  have "0 \<le> wk_fd (playbackWake d) \<and> wk_count (playbackWake d) \<noteq> 0 \<longrightarrow> (\<exists>n. d' = d\<lparr>clock_reads := n\<rparr>)"
    using assms(1)
  proof (induct rule: playback_until_loop.raw_induct [rotated 1, consumes 1, case_names step])
    case (step loop ready e s deadline d d')
    define d1 where "d1 = d\<lparr>clock_reads := Suc (clock_reads d)\<rparr>"
    show ?case
    proof (intro impI)
      assume w: "0 \<le> wk_fd (playbackWake d) \<and> wk_count (playbackWake d) \<noteq> 0"
      have pd: "poll_chan playbackWake e s l d1 = Some (True, d1)" for l
        using w by (subst poll_chan.simps) (simp add: d1_def)
      have "d' = d \<or> d' = d1 \<or> loop ready e s deadline d1 = Some d'"
        using step(2) by (auto simp: monotonicNowNs_def Let_def d1_def [symmetric] pd split: if_splits)
      moreover have "\<exists>n. d' = d\<lparr>clock_reads := n\<rparr>" if "loop ready e s deadline d1 = Some d'"
        using step(1) [OF that] w by (simp add: d1_def)
      moreover have "d = d\<lparr>clock_reads := clock_reads d\<rparr>" by simp
      ultimately show "\<exists>n. d' = d\<lparr>clock_reads := n\<rparr>" unfolding d1_def by metis
    qed
  qed
  then show ?thesis using assms by blast
qed

section \<open>Properties\<close>

text \<open>C20. The render thread's bounded waits return.  Once the clock is a millisecond past the deadline,
  \<open>waitForWritableFramesUntil\<close> and \<open>waitForPlaybackCreditUntil\<close> have returned, whatever the device
  does and however often the channel is signalled; and what they return is the truth about the
  state they leave: room for the frames, or credit above the floor taken at entry.\<close>

theorem bounded_waits_return:
  assumes "past e (uint deadline + 1000000) N" "uint deadline + 1000000 < 2 ^ 64" "0 < frames" "playbackStarted (mode d)"
  shows "(\<exists>d'. waitForWritableFramesUntil e s frames deadline d = Some (frames \<le> writableFrames d', d')) \<and>
    (\<exists>d'. waitForPlaybackCreditUntil e s frames deadline d = Some (gate_floor d \<le> playbackCredit (led d') - frames, d'))"
proof -
  have w: "writableFrames (leave_playback d1) = writableFrames d1" for d1 by (simp add: leave_playback_def writableFrames_def physical_free_def admission_limit_def Let_def)
  obtain d1 where d1: "playback_until_loop (\<lambda>d1. \<not> writableToTargetFrames d1 < frames) e s deadline (enter_playback d) = Some d1"
    using playback_until_loop_returns [OF assms(1,2)] by blast
  obtain d2 where d2: "playback_until_loop (\<lambda>d1. \<not> playbackCredit (led d1) - frames < gate_floor d) e s deadline (enter_playback d) = Some d2"
    using playback_until_loop_returns [OF assms(1,2)] by blast
  have "waitForWritableFramesUntil e s frames deadline d = Some (frames \<le> writableFrames (leave_playback d1), leave_playback d1)"
    using assms(3) by (simp add: waitForWritableFramesUntil_def d1 w)
  moreover have "waitForPlaybackCreditUntil e s frames deadline d =
      Some (gate_floor d \<le> playbackCredit (led (leave_playback d2)) - frames, leave_playback d2)"
    using assms(3,4) by (simp add: waitForPlaybackCreditUntil_def d2 leave_playback_def)
  ultimately show ?thesis by blast
qed

theorem bounded_waits_return_witness:
  "\<exists>d'. waitForWritableFramesUntil (demo_env\<lparr>clock_ns := (\<lambda>n. if n < 3 then 0 else 5000000)\<rparr>) demo_source 9 1000000 demo_driver =
     Some (9 \<le> writableFrames d', d')"
proof -
  have "past (demo_env\<lparr>clock_ns := (\<lambda>n. if n < 3 then 0 else 5000000)\<rparr>) (uint (1000000 :: u64) + 1000000) 3"
    by (simp add: past_def)
  moreover have "playbackStarted (mode demo_driver)" by (simp add: demo_driver_def)
  ultimately show ?thesis using bounded_waits_return [of _ 1000000 3 9 demo_driver demo_source] by simp
qed

end
