(* ===== verification/Adapter_Session.thy ===== *)
theory Adapter_Session
  imports Direct_Output Shutdown
begin

text \<open>
  Session control of \<^verbatim>\<open>include/liblowlatencyaudio/DirectUsbOutput.h\<close>: opening, starting, stopping
  and closing the bridge, on top of the driver's own life cycle.  The bridge is the adapter
  together with the error text of the last start.  Control calls are made while no writer is
  inside \<open>submitQuantum\<close>, so the loop of \<open>stop\<close> that waits for \<open>activeWriters_\<close> exits at its first
  test.  \<open>None\<close> is the undefined division of alternate-setting selection.
\<close>

section \<open>The bridge\<close>

record bridge =
  adapter_of :: adapter
  startErrorDetail :: string

abbreviation bridge_driver :: "bridge \<Rightarrow> driver" where
  "bridge_driver b \<equiv> ad_driver (adapter_of b)"

definition on_driver :: "(driver \<Rightarrow> driver) \<Rightarrow> bridge \<Rightarrow> bridge" where
  "on_driver f = adapter_of_update (ad_driver_update f)"

definition bridge_stop :: "env \<Rightarrow> event_source \<Rightarrow> bridge \<Rightarrow> bridge" where
  "bridge_stop e s b =
     on_driver (stop e s) (adapter_of_update (\<lambda>a. a\<lparr>accepting := False, adapterStreaming := False\<rparr>) b)"

definition bridge_requestStop :: "bridge \<Rightarrow> bridge" where
  "bridge_requestStop b = on_driver requestStop (adapter_of_update adapter_requestStop_flags b)"

definition bridge_close :: "env \<Rightarrow> event_source \<Rightarrow> bridge \<Rightarrow> bridge" where
  "bridge_close e s b = on_driver (close_device e s) (bridge_stop e s b)"

definition bridge_destroy :: "env \<Rightarrow> event_source \<Rightarrow> bridge \<Rightarrow> driver option" where
  "bridge_destroy e s b = destroy e s (bridge_driver (bridge_close e s (bridge_stop e s b)))"

definition bridge_open :: "env \<Rightarrow> event_source \<Rightarrow> usb_device \<Rightarrow> int \<Rightarrow> int \<Rightarrow> bridge \<Rightarrow> bool \<times> bridge" where
  "bridge_open e s u fd code b =
     (if fd < 0 then (False, b)
      else
        let b1 = bridge_close e s (bridge_stop e s b) in
        (case ensureContext e (bridge_driver b1) of (ready, d1) \<Rightarrow>
          if \<not> ready then (False, on_driver (\<lambda>_. d1) b1)
          else (case open_device e s u fd code d1 of (ok, d2) \<Rightarrow>
            let b2 = on_driver (\<lambda>_. d2) b1 in
            if \<not> ok then (False, b2)
            else (True, adapter_of_update (\<lambda>a. a\<lparr>accepting := False\<rparr>) b2))))"

section \<open>Starting\<close>

definition sample_bits :: "int \<Rightarrow> bool" where
  "sample_bits bits \<longleftrightarrow> bits = 16 \<or> bits = 24 \<or> bits = 32"

definition request_valid :: "int \<Rightarrow> int \<Rightarrow> int \<Rightarrow> int \<Rightarrow> int \<Rightarrow> bridge \<Rightarrow> bool" where
  "request_valid rate bits nbytes chans pair b \<longleftrightarrow>
     \<not> (device (ses (bridge_driver b)) = None \<or> rate \<le> 0 \<or> \<not> sample_bits bits \<or>
        nbytes < (bits + 7) div 8 \<or> nbytes > kMaxSubslotBytes \<or>
        chans < 2 \<or> chans > kMaxTransportChannels \<or> pair < 0 \<or> pair * 2 + 1 \<ge> chans)"

definition negotiated_valid :: "int \<Rightarrow> driver \<Rightarrow> bool" where
  "negotiated_valid pair d \<longleftrightarrow>
     (let capture = captureFormat d; chans = channels (fmt d) in
      \<not> (chans < 2 \<or> chans > kMaxTransportChannels \<or>
         channels capture \<le> 0 \<or> channels capture > kMaxTransportChannels \<or>
         \<not> sample_bits (bitsPerSample capture) \<or>
         bytesPerSample capture < (bitsPerSample capture + 7) div 8 \<or>
         bytesPerSample capture > kMaxSubslotBytes \<or> pair * 2 + 1 \<ge> chans))"

definition bridge_start ::
    "env \<Rightarrow> event_source \<Rightarrow> usb_device \<Rightarrow> u32 \<Rightarrow> int \<Rightarrow> int \<Rightarrow> int \<Rightarrow> int \<Rightarrow> int \<Rightarrow> bridge
       \<Rightarrow> (bool \<times> bridge) option" where
  "bridge_start e s u epoch rate bits nbytes chans pair b0 =
     (let b = b0\<lparr>startErrorDetail := []\<rparr> in
      if \<not> request_valid rate bits nbytes chans pair b then Some (False, b)
      else
        let b1 = bridge_stop e s b in
        (case startDuplex e s u epoch rate bits chans nbytes (bridge_driver b1) of
           None \<Rightarrow> None
         | Some (ok, d) \<Rightarrow> Some
             (let b2 = on_driver (\<lambda>_. d) b1 in
              if \<not> ok then (False, b2\<lparr>startErrorDetail := lastErrorDetail (ses d)\<rparr>)
              else
                let b3 = adapter_of_update (packing_update (\<lambda>p.
                       p\<lparr>formatBits := bits, formatBytes := nbytes, deviceChannels := channels (fmt d)\<rparr>)) b2
                in if \<not> negotiated_valid pair d
                   then (False, on_driver (stop e s)
                     (b3\<lparr>startErrorDetail := ''negotiated USB format is incompatible with the selected channels''\<rparr>))
                   else (True, adapter_of_update (\<lambda>a. a\<lparr>packing := (packing a)\<lparr>outputPair := pair\<rparr>,
                          accepting := True, playbackQuantumDrops := 0, minAdmissionMargin := INT_MAX,
                          adapterStreaming := True\<rparr>) b3))))"

definition bridge_startPlayback :: "env \<Rightarrow> event_source \<Rightarrow> usb_device \<Rightarrow> bridge \<Rightarrow> bool \<times> bridge" where
  "bridge_startPlayback e s u b =
     (case startPlayback e s u (bridge_driver b) of (ok, d) \<Rightarrow>
        let b1 = on_driver (\<lambda>_. d) b in
        if ok then (True, b1) else (False, b1\<lparr>startErrorDetail := lastErrorDetail (ses d)\<rparr>))"

definition bridge_lastErrorDetail :: "bridge \<Rightarrow> string" where
  "bridge_lastErrorDetail b =
     (if startErrorDetail b = [] then lastErrorDetail (ses (bridge_driver b)) else startErrorDetail b)"

definition bridge_isStreaming :: "bridge \<Rightarrow> bool" where
  "bridge_isStreaming b \<longleftrightarrow> adapterStreaming (adapter_of b) \<and> streaming (mode (bridge_driver b))"

section \<open>Lemmas\<close>

lemma on_driver_simps [simp]:
  "ad_driver (adapter_of (on_driver f b)) = f (bridge_driver b)"
  "accepting (adapter_of (on_driver f b)) = accepting (adapter_of b)"
  "adapterStreaming (adapter_of (on_driver f b)) = adapterStreaming (adapter_of b)"
  "packing (adapter_of (on_driver f b)) = packing (adapter_of b)"
  "playbackQuantumDrops (adapter_of (on_driver f b)) = playbackQuantumDrops (adapter_of b)"
  "startErrorDetail (on_driver f b) = startErrorDetail b"
  by (simp_all add: on_driver_def)

lemma bridge_stop_simps [simp]:
  "\<not> accepting (adapter_of (bridge_stop e s b))" "\<not> adapterStreaming (adapter_of (bridge_stop e s b))"
  "bridge_driver (bridge_stop e s b) = stop e s (bridge_driver b)"
  by (simp_all add: bridge_stop_def)

lemma request_packs:
  "request_valid rate bits nbytes chans pair b \<Longrightarrow> negotiated_valid pair d \<Longrightarrow>
     pack_ok (p\<lparr>formatBits := bits, formatBytes := nbytes, deviceChannels := channels (fmt d), outputPair := pair\<rparr>)"
  by (auto simp: request_valid_def negotiated_valid_def sample_bits_def pack_ok_def valid_bytes_def Let_def)

lemma refused_when_closed:
  "\<not> accepting a \<Longrightarrow> submitQuantum e l r n charge a = (False, a)"
  by (simp add: submitQuantum_def split: option.split)

section \<open>Properties\<close>

text \<open>C21. The outcome of starting the bridge, on every path.  An invalid request changes nothing but
  the error text.  A start that gets further and fails leaves the bridge closed: not streaming,
  and every later quantum is refused without touching the driver.  A successful start
  is accepting and streaming, with a fresh drop counter and a packing format the converters can
  carry on every one of the negotiated channels.\<close>

theorem bridge_start_outcome:
  "case bridge_start e s u epoch rate bits nbytes chans pair b of
     None \<Rightarrow> startDuplex e s u epoch rate bits chans nbytes (stop e s (bridge_driver b)) = None
   | Some (True, b') \<Rightarrow>
       accepting (adapter_of b') \<and> adapterStreaming (adapter_of b')
       \<and> playbackQuantumDrops (adapter_of b') = 0 \<and> pack_ok (packing (adapter_of b'))
       \<and> startDuplex e s u epoch rate bits chans nbytes (stop e s (bridge_driver b))
           = Some (True, bridge_driver b')
       \<and> deviceChannels (packing (adapter_of b')) = channels (fmt (bridge_driver b'))
       \<and> startErrorDetail b' = []
   | Some (False, b') \<Rightarrow>
       (if request_valid rate bits nbytes chans pair b
        then \<not> bridge_isStreaming b'
          \<and> (\<forall>l r n charge. submitQuantum e l r n charge (adapter_of b') = (False, adapter_of b'))
        else b' = b\<lparr>startErrorDetail := []\<rparr>)"
proof -
  let ?b = "b\<lparr>startErrorDetail := []\<rparr>"
  have rv: "request_valid rate bits nbytes chans pair ?b = request_valid rate bits nbytes chans pair b"
    by (simp add: request_valid_def)
  show ?thesis
  proof (cases "request_valid rate bits nbytes chans pair b")
    case False
    then show ?thesis by (simp add: bridge_start_def rv)
  next
    case True
    show ?thesis
    proof (cases "startDuplex e s u epoch rate bits chans nbytes (stop e s (bridge_driver b))")
      case None
      with True show ?thesis by (simp add: bridge_start_def rv)
    next
      case (Some r)
      obtain ok d where r: "r = (ok, d)" by fastforce
      show ?thesis
      proof (cases "ok \<and> negotiated_valid pair d")
        case ok: True
        with True Some r show ?thesis
          using request_packs [OF True, of d] by (simp add: bridge_start_def rv bridge_stop_def)
      next
        case False
        with True Some r show ?thesis
          by (cases ok) (simp_all add: bridge_start_def Let_def rv refused_when_closed bridge_isStreaming_def)
      qed
    qed
  qed
qed

end
