(* ===== verification/Thread_Affinity.thy ===== *)
theory Thread_Affinity
  imports Prelude
begin

text \<open>
  CPU placement of the audio and user-interface threads (ThreadUtils.h, lines 57 to 262 and
  504 to 537).  A \<open>cpu_set_t\<close> is a set of CPU numbers below \<open>CPU_SETSIZE\<close>; the loops over
  all CPUs are folds and searches over that range.  The process-wide flags are a record, the
  scheduler's answers are an argument, and what a routine asks of the scheduler is its result.
  The modelled build is the Android and Linux one.
\<close>

section \<open>CPU sets\<close>

type_synonym cpu_set = "nat set"

definition CPU_SETSIZE :: nat where
  "CPU_SETSIZE = 1024"

text \<open>The CPUs a counting loop meets, in ascending order.\<close>

definition cpus :: "cpu_set \<Rightarrow> nat list" where
  "cpus S = filter (\<lambda>cpu. cpu \<in> S) [0..<CPU_SETSIZE]"

definition CPU_COUNT :: "cpu_set \<Rightarrow> nat" where
  "CPU_COUNT S = fold (\<lambda>cpu n. n + (if cpu \<in> S then 1 else 0)) [0..<CPU_SETSIZE] 0"

definition lowest_cpu :: "cpu_set \<Rightarrow> nat option" where
  "lowest_cpu S = List.find (\<lambda>cpu. cpu \<in> S) [0..<CPU_SETSIZE]"

section \<open>Mask derivation\<close>

definition rank_step :: "cpu_set \<Rightarrow> nat \<Rightarrow> nat \<Rightarrow> nat \<Rightarrow> nat \<times> cpu_set \<Rightarrow> nat \<times> cpu_set" where
  "rank_step allowed firstRank lastRank cpu = (\<lambda>(rank, audio).
     if cpu \<notin> allowed then (rank, audio)
     else (rank + 1, if firstRank \<le> rank \<and> rank \<le> lastRank then insert cpu audio else audio))"

definition deriveAudioCpuMask :: "cpu_set \<Rightarrow> cpu_set" where
  "deriveAudioCpuMask allowed =
     (let allowedCount = CPU_COUNT allowed in
      if allowedCount = 0 then {}
      else
        let firstRank = allowedCount - 2;
            lastRank = allowedCount - 1
        in snd (fold (rank_step allowed firstRank lastRank) [0..<CPU_SETSIZE] (0, {})))"

datatype AudioCpuRole = Render | Service

datatype ServiceCpuPlacement = OneCoreOfPool | WholePool | ExclusiveSplit

record affinity_flags =
  audioAffinityEnabled :: bool
  uiAffinityEnabled :: bool
  serviceCpuPlacement :: ServiceCpuPlacement

definition default_flags :: affinity_flags where
  "default_flags = \<lparr>audioAffinityEnabled = True, uiAffinityEnabled = True,
                    serviceCpuPlacement = WholePool\<rparr>"

definition setAudioAffinityEnabled :: "bool \<Rightarrow> affinity_flags \<Rightarrow> affinity_flags" where
  "setAudioAffinityEnabled enabled f = f\<lparr>audioAffinityEnabled := enabled\<rparr>"

definition setUiAffinityEnabled :: "bool \<Rightarrow> affinity_flags \<Rightarrow> affinity_flags" where
  "setUiAffinityEnabled enabled f = f\<lparr>uiAffinityEnabled := enabled\<rparr>"

definition setServiceCpuPlacement :: "ServiceCpuPlacement \<Rightarrow> affinity_flags \<Rightarrow> affinity_flags" where
  "setServiceCpuPlacement placement f = f\<lparr>serviceCpuPlacement := placement\<rparr>"

definition deriveAudioRoleCpuMask :: "affinity_flags \<Rightarrow> cpu_set \<Rightarrow> AudioCpuRole \<Rightarrow> cpu_set" where
  "deriveAudioRoleCpuMask f allowed role =
     (let pool = deriveAudioCpuMask allowed;
          placement = serviceCpuPlacement f
      in if placement = ExclusiveSplit then
           (case lowest_cpu pool of
              None \<Rightarrow> pool
            | Some lowest \<Rightarrow>
                if CPU_COUNT pool < 2 then pool
                else if role = Service then {lowest}
                else fold (\<lambda>cpu chosen. if cpu \<in> pool \<and> cpu \<noteq> lowest then insert cpu chosen
                                        else chosen) [0..<CPU_SETSIZE] {})
         else if role = Render then pool
         else if placement = WholePool then pool
         else (case lowest_cpu pool of
                 None \<Rightarrow> allowed
               | Some lowestPool \<Rightarrow> {lowestPool}))"

definition deriveUiCpuMask :: "cpu_set \<Rightarrow> cpu_set" where
  "deriveUiCpuMask allowed =
     (let allowedCount = CPU_COUNT allowed in
      if allowedCount \<le> 0 then allowed
      else if allowedCount \<le> 2 then
        (case lowest_cpu allowed of None \<Rightarrow> {} | Some cpu \<Rightarrow> {cpu})
      else
        let audio = deriveAudioCpuMask allowed in
        (allowed - audio) \<union> (audio - allowed))"

section \<open>Requests to the scheduler\<close>

text \<open>
  \<open>getaffinity\<close> is what \<open>sched_getaffinity\<close> wrote, or \<open>None\<close> when it failed.  \<open>fifo_ok\<close> and
  \<open>nice_ok\<close> are the outcomes of \<open>pthread_setschedparam\<close> and \<open>setpriority\<close>.
\<close>

record scheduler =
  getaffinity :: "cpu_set option"
  fifo_ok :: bool
  nice_ok :: bool

datatype sched_call =
    SetName string
  | SetAffinity cpu_set
  | SetFifo int
  | SetNice int

definition applyCurrentThreadUiAffinity :: "affinity_flags \<Rightarrow> scheduler \<Rightarrow> sched_call list" where
  "applyCurrentThreadUiAffinity f s =
     (if \<not> uiAffinityEnabled f then []
      else case getaffinity s of
             None \<Rightarrow> []
           | Some allowed \<Rightarrow>
               let ui = deriveUiCpuMask allowed in
               if CPU_COUNT ui = 0 then [] else [SetAffinity ui])"

definition applyCurrentThreadAudioAffinity ::
    "affinity_flags \<Rightarrow> scheduler \<Rightarrow> AudioCpuRole \<Rightarrow> sched_call list" where
  "applyCurrentThreadAudioAffinity f s role =
     (if \<not> audioAffinityEnabled f then []
      else case getaffinity s of
             None \<Rightarrow> []
           | Some allowed \<Rightarrow>
               let audio = deriveAudioRoleCpuMask f allowed role in
               if CPU_COUNT audio = 0 then []
               else if audio = allowed then []
               else [SetAffinity audio])"

definition kUrgentAudioNice :: int where
  "kUrgentAudioNice = -19"

definition setCurrentThreadUrgentAudio ::
    "affinity_flags \<Rightarrow> scheduler \<Rightarrow> string option \<Rightarrow> AudioCpuRole \<Rightarrow> bool \<times> sched_call list" where
  "setCurrentThreadUrgentAudio f s name role =
     (let named = (case name of None \<Rightarrow> [] | Some n \<Rightarrow> [SetName n]);
          placed = named @ applyCurrentThreadAudioAffinity f s role;
          fifo = placed @ [SetFifo 1]
      in if fifo_ok s then (True, fifo)
         else (nice_ok s, fifo @ [SetNice kUrgentAudioNice]))"

section \<open>The loops in closed form\<close>

lemma set_cpus [simp]: "set (cpus S) = S \<inter> {..<CPU_SETSIZE}"
  by (auto simp: cpus_def)

lemma distinct_cpus [simp]: "distinct (cpus S)"
  by (simp add: cpus_def)

lemma sorted_cpus: "sorted_wrt (<) (cpus S)"
  by (simp add: cpus_def sorted_wrt_filter)

lemma count_fold:
  "fold (\<lambda>cpu n. n + (if cpu \<in> S then 1 else 0)) xs m = m + length (filter (\<lambda>cpu. cpu \<in> S) xs)"
  by (induction xs arbitrary: m) simp_all

lemma CPU_COUNT_cpus: "CPU_COUNT S = length (cpus S)"
  by (simp add: CPU_COUNT_def count_fold cpus_def)

lemma CPU_COUNT_card: "S \<subseteq> {..<CPU_SETSIZE} \<Longrightarrow> CPU_COUNT S = card S"
  using distinct_card [OF distinct_cpus, of S] by (simp add: CPU_COUNT_cpus Int_absorb2)

lemma find_filter: "List.find P xs = (case filter P xs of [] \<Rightarrow> None | x # _ \<Rightarrow> Some x)"
  by (induction xs) simp_all

lemma lowest_cpu_cpus: "lowest_cpu S = (case cpus S of [] \<Rightarrow> None | cpu # _ \<Rightarrow> Some cpu)"
  by (simp add: lowest_cpu_def cpus_def find_filter)

lemma rank_step_apply:
  "rank_step allowed lo hi x (r, A) =
     (if x \<notin> allowed then (r, A)
      else (Suc r, if lo \<le> r \<and> r \<le> hi then insert x A else A))"
  by (simp add: rank_step_def)

lemma rank_fold:
  "fold (rank_step allowed lo hi) xs (r, A) =
     (r + length (filter (\<lambda>cpu. cpu \<in> allowed) xs),
      A \<union> set (drop (lo - r) (take (Suc hi - r) (filter (\<lambda>cpu. cpu \<in> allowed) xs))))"
proof (induction xs arbitrary: r A)
  case (Cons x xs)
  show ?case
  proof (cases "x \<in> allowed")
    case True
    consider "hi < r" | "r < lo" "r \<le> hi" | "lo \<le> r" "r \<le> hi" by linarith
    then show ?thesis
    proof cases
      case 2
      then obtain k where "lo - r = Suc k" "lo - Suc r = k" by (metis Suc_diff_Suc)
      with 2 True show ?thesis by (simp add: Cons rank_step_apply Suc_diff_le)
    qed (use True in \<open>auto simp: Cons rank_step_apply Suc_diff_le\<close>)
  qed (simp add: Cons rank_step_apply)
qed simp

lemma deriveAudioCpuMask_eq:
  "deriveAudioCpuMask allowed = set (drop (length (cpus allowed) - 2) (cpus allowed))"
proof (cases "cpus allowed = []")
  case False
  then have "Suc (length (cpus allowed) - 1) = length (cpus allowed)" by simp
  with False show ?thesis
    by (simp add: deriveAudioCpuMask_def CPU_COUNT_cpus rank_fold flip: cpus_def)
qed (simp add: deriveAudioCpuMask_def CPU_COUNT_cpus)

lemma keep_fold:
  "fold (\<lambda>cpu chosen. if cpu \<in> pool \<and> cpu \<noteq> lowest then insert cpu chosen else chosen) xs C =
     C \<union> (set xs \<inter> pool - {lowest})"
  by (induction xs arbitrary: C) auto

section \<open>Placement\<close>

lemma audio_pool_subset: "deriveAudioCpuMask allowed \<subseteq> allowed \<inter> {..<CPU_SETSIZE}"
  unfolding deriveAudioCpuMask_eq using set_drop_subset [of _ "cpus allowed"] by auto

lemma audio_pool_card: "card (deriveAudioCpuMask allowed) = min 2 (length (cpus allowed))"
  by (simp add: deriveAudioCpuMask_eq distinct_card)

lemma audio_pool_highest:
  assumes "a \<in> deriveAudioCpuMask allowed" "b \<in> set (cpus allowed)" "b \<notin> deriveAudioCpuMask allowed"
  shows "b < a"
proof -
  let ?k = "length (cpus allowed) - 2"
  have "b \<in> set (take ?k (cpus allowed))"
    using assms(2,3) append_take_drop_id [of ?k "cpus allowed"]
    unfolding deriveAudioCpuMask_eq by (metis Un_iff set_append)
  moreover have "sorted_wrt (<) (take ?k (cpus allowed) @ drop ?k (cpus allowed))"
    using sorted_cpus [of allowed] by simp
  ultimately show ?thesis
    using assms(1) unfolding deriveAudioCpuMask_eq sorted_wrt_append by blast
qed

lemma audio_pool_empty: "deriveAudioCpuMask allowed = {} \<longleftrightarrow> cpus allowed = []"
  unfolding deriveAudioCpuMask_eq set_empty drop_eq_Nil
  by (cases "cpus allowed") auto

lemma pool_range [simp]: "deriveAudioCpuMask allowed \<inter> {..<CPU_SETSIZE} = deriveAudioCpuMask allowed"
  using audio_pool_subset by blast

lemma lowest_cpu_None: "lowest_cpu S = None \<longleftrightarrow> S \<inter> {..<CPU_SETSIZE} = {}"
  by (simp add: lowest_cpu_cpus flip: set_cpus split: list.split)

lemma lowest_cpu_Some: "lowest_cpu S = Some c \<Longrightarrow> c \<in> S \<and> c < CPU_SETSIZE"
proof (cases "cpus S")
  case (Cons x xs)
  assume "lowest_cpu S = Some c"
  with Cons have "c \<in> set (cpus S)" by (simp add: lowest_cpu_cpus)
  then show ?thesis by simp
qed (simp add: lowest_cpu_cpus)


lemma cpu_count_positive: "CPU_COUNT S \<noteq> 0 \<longleftrightarrow> S \<inter> {..<CPU_SETSIZE} \<noteq> {}"
  by (simp add: CPU_COUNT_cpus flip: set_cpus)

text \<open>What the role masks share: they come from the pool, and are empty only with it.\<close>

lemma role_mask_subset:
  "allowed \<subseteq> {..<CPU_SETSIZE} \<Longrightarrow> deriveAudioRoleCpuMask f allowed role \<subseteq> allowed"
  using audio_pool_subset [of allowed] lowest_cpu_Some [of "deriveAudioCpuMask allowed"]
  by (auto simp: deriveAudioRoleCpuMask_def Let_def keep_fold split: option.splits)

lemma split_masks:
  assumes "serviceCpuPlacement f = ExclusiveSplit" "2 \<le> CPU_COUNT allowed"
  obtains lowest where "lowest \<in> deriveAudioCpuMask allowed"
    "deriveAudioRoleCpuMask f allowed Service = {lowest}"
    "deriveAudioRoleCpuMask f allowed Render = deriveAudioCpuMask allowed - {lowest}"
    "deriveAudioCpuMask allowed - {lowest} \<noteq> {}"
proof -
  let ?pool = "deriveAudioCpuMask allowed"
  have two: "card ?pool = 2" using assms(2) by (simp add: audio_pool_card CPU_COUNT_cpus)
  have count: "CPU_COUNT ?pool = 2"
    using two CPU_COUNT_card audio_pool_subset by (metis le_inf_iff)
  have "lowest_cpu ?pool \<noteq> None" using two by (auto simp: lowest_cpu_None)
  then obtain lowest where l: "lowest_cpu ?pool = Some lowest" by blast
  have "card (?pool - {lowest}) = 1" using two lowest_cpu_Some [OF l] by simp
  then have "?pool - {lowest} \<noteq> {}" by (metis card.empty zero_neq_one)
  moreover have "{0..<CPU_SETSIZE} \<inter> ?pool = ?pool"
    using pool_range [of allowed] by (simp add: atLeast0LessThan Int_commute)
  ultimately show thesis
    using that [of lowest] l lowest_cpu_Some [OF l] count assms(1)
    by (simp add: deriveAudioRoleCpuMask_def keep_fold)
qed

section \<open>Properties\<close>

text \<open>C39. The audio pool is the (at most) two highest-numbered CPUs the process may use.  The
  user-interface mask is never empty when a CPU is allowed, stays within the allowed CPUs, and
  with more than two of them is exactly the CPUs the audio pool leaves.\<close>

theorem affinity_masks_partition:
  assumes "allowed \<subseteq> {..<CPU_SETSIZE}"
  defines "audio \<equiv> deriveAudioCpuMask allowed"
    and "ui \<equiv> deriveUiCpuMask allowed"
  shows "audio \<subseteq> allowed \<and> card audio = min 2 (card allowed)
    \<and> (\<forall>a\<in>audio. \<forall>b\<in>allowed - audio. b < a)
    \<and> ui \<subseteq> allowed \<and> (allowed \<noteq> {} \<longrightarrow> ui \<noteq> {})
    \<and> (2 < card allowed \<longrightarrow> ui \<inter> audio = {} \<and> ui \<union> audio = allowed)"
proof -
  have all: "set (cpus allowed) = allowed" using assms(1) by auto
  have n: "length (cpus allowed) = card allowed"
    using CPU_COUNT_card [OF assms(1)] by (simp add: CPU_COUNT_cpus)
  have sub: "audio \<subseteq> allowed" unfolding audio_def using audio_pool_subset by blast
  have cnt: "card audio = min 2 (card allowed)" unfolding audio_def by (simp add: audio_pool_card n)
  have "ui \<subseteq> allowed \<and> (allowed \<noteq> {} \<longrightarrow> ui \<noteq> {})
    \<and> (2 < card allowed \<longrightarrow> ui \<inter> audio = {} \<and> ui \<union> audio = allowed)"
  proof (cases "2 < card allowed")
    case True
    then have ui: "ui = allowed - audio"
      using sub by (auto simp: ui_def audio_def deriveUiCpuMask_def Let_def CPU_COUNT_cpus n)
    moreover have "allowed \<noteq> audio" using True cnt by auto
    ultimately show ?thesis using sub by blast
  next
    case False
    show ?thesis
    proof (cases "cpus allowed")
      case Nil
      then have "allowed = {}" using all by auto
      then show ?thesis using Nil by (simp add: ui_def deriveUiCpuMask_def CPU_COUNT_cpus)
    next
      case (Cons c cs)
      with False n all show ?thesis
        by (auto simp: ui_def deriveUiCpuMask_def CPU_COUNT_cpus lowest_cpu_cpus)
    qed
  qed
  moreover have "\<forall>a\<in>audio. \<forall>b\<in>allowed - audio. b < a"
    unfolding audio_def using audio_pool_highest all by blast
  ultimately show ?thesis using sub cnt by blast
qed

theorem affinity_masks_partition_witness:
  "deriveUiCpuMask {0, 1, 4, 7} \<inter> deriveAudioCpuMask {0, 1, 4, 7} = {}
   \<and> card (deriveAudioCpuMask {0, 1, 4, 7}) = 2"
  using affinity_masks_partition [of "{0, 1, 4, 7}"] by (simp add: CPU_SETSIZE_def)

text \<open>Whatever the flags and the role, the audio placement asks the scheduler only for a
  non-empty, proper part of the CPUs it reported; nothing is asked when the flag is off or the
  query failed; and under the exclusive split of two or more CPUs the servicing and the render
  thread are never given a common CPU.\<close>

theorem audio_affinity_requests:
  "(\<forall>mask. SetAffinity mask \<in> set (applyCurrentThreadAudioAffinity f s role) \<longrightarrow>
      audioAffinityEnabled f \<and> (\<exists>allowed. getaffinity s = Some allowed
        \<and> (allowed \<subseteq> {..<CPU_SETSIZE} \<longrightarrow> mask \<noteq> {} \<and> mask \<subset> allowed)))
   \<and> (serviceCpuPlacement f = ExclusiveSplit \<and> 2 \<le> CPU_COUNT allowed \<longrightarrow>
        deriveAudioRoleCpuMask f allowed Render \<inter> deriveAudioRoleCpuMask f allowed Service = {}
        \<and> deriveAudioRoleCpuMask f allowed Render \<union> deriveAudioRoleCpuMask f allowed Service
            = deriveAudioCpuMask allowed)"
proof (intro conjI impI allI)
  fix mask
  assume m: "SetAffinity mask \<in> set (applyCurrentThreadAudioAffinity f s role)"
  then show "audioAffinityEnabled f"
    by (simp add: applyCurrentThreadAudioAffinity_def split: if_splits)
  from m obtain al where al: "getaffinity s = Some al"
    by (cases "getaffinity s") (simp_all add: applyCurrentThreadAudioAffinity_def split: if_splits)
  with m have mask: "mask = deriveAudioRoleCpuMask f al role" "CPU_COUNT mask \<noteq> 0" "mask \<noteq> al"
    by (auto simp: applyCurrentThreadAudioAffinity_def Let_def split: if_splits)
  then have "mask \<noteq> {}" using cpu_count_positive [of mask] by blast
  with mask al role_mask_subset [of al f role]
  show "\<exists>allowed. getaffinity s = Some allowed
        \<and> (allowed \<subseteq> {..<CPU_SETSIZE} \<longrightarrow> mask \<noteq> {} \<and> mask \<subset> allowed)" by auto
next
  assume "serviceCpuPlacement f = ExclusiveSplit \<and> 2 \<le> CPU_COUNT allowed"
  then obtain l where
      "l \<in> deriveAudioCpuMask allowed" "deriveAudioRoleCpuMask f allowed Service = {l}"
      "deriveAudioRoleCpuMask f allowed Render = deriveAudioCpuMask allowed - {l}"
    using split_masks by blast
  then show "deriveAudioRoleCpuMask f allowed Render \<inter> deriveAudioRoleCpuMask f allowed Service = {}"
    and "deriveAudioRoleCpuMask f allowed Render \<union> deriveAudioRoleCpuMask f allowed Service
            = deriveAudioCpuMask allowed" by auto
qed

theorem audio_affinity_requests_witness:
  "deriveAudioRoleCpuMask (setServiceCpuPlacement ExclusiveSplit default_flags) {0, 1, 4, 7} Render
     \<inter> deriveAudioRoleCpuMask (setServiceCpuPlacement ExclusiveSplit default_flags) {0, 1, 4, 7} Service
   = {}"
proof -
  have "CPU_COUNT {0, 1, 4, 7} = 4" by (subst CPU_COUNT_card) (simp_all add: CPU_SETSIZE_def)
  then show ?thesis
    using audio_affinity_requests [of "setServiceCpuPlacement ExclusiveSplit default_flags"
        "\<lparr>getaffinity = Some {0, 1, 4, 7}, fifo_ok = True, nice_ok = True\<rparr>" Render "{0, 1, 4, 7}"]
    by (simp add: setServiceCpuPlacement_def)
qed

end
