(* ===== verification/Platform_Hints.thy ===== *)
theory Platform_Hints
  imports Prelude Complex_Main
begin

text \<open>
  The performance-hint session and the thermal-headroom monitor (ThreadUtils.h, lines 264 to
  502), on the Android build.  The platform library is an argument: whether it loads, which
  symbols it exports and what its entry points return.  A function pointer member is
  the question whether its symbol resolved; every call into the loader or the library is an
  element of the trace an operation returns, so that the trace of a whole object lifetime can be
  inspected.
\<close>

section \<open>The platform library\<close>

datatype hint_symbol =
    getManager | createSession | reportActual | closeSession | setThreadsFn
  | setPreferPowerEfficiency | workDurationCreate | workDurationRelease | workDurationSetStart
  | workDurationSetTotal | workDurationSetCpu | reportActual2
  | acquireManager | releaseManager | getThermalHeadroom

record platform =
  loads :: bool
  exports :: "hint_symbol \<Rightarrow> bool"
  gives_manager :: bool
  gives_session :: "int list \<Rightarrow> int \<Rightarrow> bool"
  gives_duration :: bool
  gives_thermal :: bool
  setThreads_result :: "int list \<Rightarrow> int"
  headroom :: "int \<Rightarrow> real"

datatype hint_call =
    Dlopen
  | Dlclose
  | Call hint_symbol "int list"

section \<open>Performance hint session\<close>

record hint_session =
  hint_library :: bool
  hint_handle :: bool
  hint_pointer :: "hint_symbol \<Rightarrow> bool"
  hint_duration :: bool

definition null_session :: hint_session where
  "null_session = \<lparr>hint_library = False, hint_handle = False, hint_pointer = (\<lambda>_. False), hint_duration = False\<rparr>"

definition thread_args :: "int \<Rightarrow> int list \<Rightarrow> int list" where
  "thread_args currentTid threadIds = (if threadIds \<noteq> [] then threadIds else [currentTid])"

definition can_time :: "hint_session \<Rightarrow> bool" where
  "can_time h \<longleftrightarrow> hint_handle h \<and> hint_pointer h workDurationCreate \<and> hint_pointer h workDurationRelease
     \<and> hint_pointer h workDurationSetStart \<and> hint_pointer h workDurationSetTotal
     \<and> hint_pointer h workDurationSetCpu \<and> hint_pointer h reportActual2"

definition PerformanceHintSession ::
    "platform \<Rightarrow> int \<Rightarrow> int \<Rightarrow> int list \<Rightarrow> hint_session \<times> hint_call list" where
  "PerformanceHintSession p currentTid targetDurationNs threadIds =
     (if targetDurationNs \<le> 0 then (null_session, [])
      else if \<not> loads p then (null_session, [Dlopen])
      else
        let h = null_session\<lparr>hint_library := True, hint_pointer := exports p\<rparr> in
        if \<not> hint_pointer h getManager \<or> \<not> hint_pointer h createSession
           \<or> \<not> hint_pointer h reportActual \<or> \<not> hint_pointer h closeSession
        then (h\<lparr>hint_library := False\<rparr>, [Dlopen, Dlclose])
        else
          let initialThreadIds = thread_args currentTid threadIds;
              manager = gives_manager p;
              h = h\<lparr>hint_handle := manager \<and> gives_session p initialThreadIds targetDurationNs\<rparr>;
              calls = [Dlopen, Call getManager []] @
                      (if manager then [Call createSession (targetDurationNs # initialThreadIds)] else []);
              calls = calls @ (if hint_handle h \<and> hint_pointer h setPreferPowerEfficiency
                               then [Call setPreferPowerEfficiency [0]] else [])
          in if can_time h
             then (h\<lparr>hint_duration := gives_duration p\<rparr>, calls @ [Call workDurationCreate []])
             else (h, calls))"

definition destroy_session :: "hint_session \<Rightarrow> hint_call list" where
  "destroy_session h =
     (if hint_duration h \<and> hint_pointer h workDurationRelease then [Call workDurationRelease []] else []) @
     (if hint_handle h \<and> hint_pointer h closeSession then [Call closeSession []] else []) @
     (if hint_library h then [Dlclose] else [])"

definition active :: "hint_session \<Rightarrow> bool" where
  "active h = hint_handle h"

definition canSetThreads :: "hint_session \<Rightarrow> bool" where
  "canSetThreads h \<longleftrightarrow> hint_handle h \<and> hint_pointer h setThreadsFn"

text \<open>The thread ids are \<open>None\<close> for a null pointer.\<close>

definition setThreads :: "platform \<Rightarrow> hint_session \<Rightarrow> int list option \<Rightarrow> bool \<times> hint_call list" where
  "setThreads p h tids =
     (case tids of
        None \<Rightarrow> (False, [])
      | Some ts \<Rightarrow>
          if hint_handle h \<and> hint_pointer h setThreadsFn \<and> ts \<noteq> []
          then (setThreads_result p ts = 0, [Call setThreadsFn ts])
          else (False, []))"

definition canReportWorkDuration :: "hint_session \<Rightarrow> bool" where
  "canReportWorkDuration h = hint_duration h"

definition reportWorkDuration ::
    "hint_session \<Rightarrow> int \<Rightarrow> u64 \<Rightarrow> u64 \<Rightarrow> hint_call list" where
  "reportWorkDuration h startTimestampNs totalNs cpuNs =
     (if \<not> hint_duration h \<or> totalNs = 0 then []
      else [Call workDurationSetStart [startTimestampNs],
            Call workDurationSetTotal [sint totalNs],
            Call workDurationSetCpu [sint (if cpuNs > 0 then cpuNs else 1)],
            Call reportActual2 []])"

definition reportActualWorkDuration :: "hint_session \<Rightarrow> u64 \<Rightarrow> hint_call list" where
  "reportActualWorkDuration h durationNs =
     (if hint_handle h \<and> durationNs > 0 then [Call reportActual [sint durationNs]] else [])"

section \<open>Thermal headroom monitor\<close>

record thermal_monitor =
  thermal_library :: bool
  thermal_manager :: bool
  thermal_pointer :: "hint_symbol \<Rightarrow> bool"

definition ThermalHeadroomMonitor :: "platform \<Rightarrow> thermal_monitor \<times> hint_call list" where
  "ThermalHeadroomMonitor p =
     (if \<not> loads p
      then (\<lparr>thermal_library = False, thermal_manager = False, thermal_pointer = (\<lambda>_. False)\<rparr>, [Dlopen])
      else
        let resolved = exports p acquireManager \<and> exports p releaseManager
                       \<and> exports p getThermalHeadroom;
            manager = resolved \<and> gives_thermal p;
            calls = Dlopen # (if resolved then [Call acquireManager []] else [])
        in (\<lparr>thermal_library = manager, thermal_manager = manager, thermal_pointer = exports p\<rparr>,
            calls @ (if manager then [] else [Dlclose])))"

definition destroy_monitor :: "thermal_monitor \<Rightarrow> hint_call list" where
  "destroy_monitor m =
     (if thermal_manager m \<and> thermal_pointer m releaseManager then [Call releaseManager []] else []) @
     (if thermal_library m then [Dlclose] else [])"

definition sample :: "platform \<Rightarrow> thermal_monitor \<Rightarrow> int \<Rightarrow> real \<times> hint_call list" where
  "sample p m forecastSeconds =
     (if thermal_manager m \<and> thermal_pointer m getThermalHeadroom
      then (headroom p forecastSeconds, [Call getThermalHeadroom [forecastSeconds]])
      else (-1, []))"

section \<open>Lifetimes\<close>

text \<open>A client's calls between construction and destruction, in any order.\<close>

datatype hint_op =
    SetThreads "int list option"
  | ReportDuration int u64 u64
  | ReportActual u64

fun hint_step :: "platform \<Rightarrow> hint_session \<Rightarrow> hint_op \<Rightarrow> hint_call list" where
  "hint_step p h (SetThreads tids) = snd (setThreads p h tids)"
| "hint_step p h (ReportDuration t0 wall cpu) = reportWorkDuration h t0 wall cpu"
| "hint_step p h (ReportActual d) = reportActualWorkDuration h d"

definition session_lifetime ::
    "platform \<Rightarrow> int \<Rightarrow> int \<Rightarrow> int list \<Rightarrow> hint_op list \<Rightarrow> hint_call list" where
  "session_lifetime p tid target tids ops =
     (let (h, calls) = PerformanceHintSession p tid target tids
      in calls @ concat (map (hint_step p h) ops) @ destroy_session h)"

definition monitor_lifetime :: "platform \<Rightarrow> int list \<Rightarrow> hint_call list" where
  "monitor_lifetime p forecasts =
     (let (m, calls) = ThermalHeadroomMonitor p
      in calls @ concat (map (\<lambda>s. snd (sample p m s)) forecasts) @ destroy_monitor m)"

text \<open>
  Reading a trace from left to right: \<open>held\<close> is the set of resources held so far.  A trace is
  disciplined when no entry point is used before the library is loaded or after it is
  unloaded, every used entry point is exported, session and work-duration entry points
  are used only while their object exists, and nothing is acquired twice.
\<close>

datatype resource = Library | Session | Duration | Thermal

fun needs :: "hint_symbol \<Rightarrow> resource set" where
  "needs getManager = {Library}"
| "needs createSession = {Library}"
| "needs reportActual = {Library, Session}"
| "needs closeSession = {Library, Session}"
| "needs setThreadsFn = {Library, Session}"
| "needs setPreferPowerEfficiency = {Library, Session}"
| "needs workDurationCreate = {Library}"
| "needs workDurationRelease = {Library, Duration}"
| "needs workDurationSetStart = {Library, Duration}"
| "needs workDurationSetTotal = {Library, Duration}"
| "needs workDurationSetCpu = {Library, Duration}"
| "needs reportActual2 = {Library, Session, Duration}"
| "needs acquireManager = {Library}"
| "needs releaseManager = {Library, Thermal}"
| "needs getThermalHeadroom = {Library, Thermal}"

fun acquires :: "platform \<Rightarrow> hint_call \<Rightarrow> resource set" where
  "acquires p Dlopen = (if loads p then {Library} else {})"
| "acquires p Dlclose = {}"
| "acquires p (Call s args) =
     (if s = createSession \<and> args \<noteq> [] \<and> gives_session p (tl args) (hd args) then {Session}
      else if s = workDurationCreate \<and> gives_duration p then {Duration}
      else if s = acquireManager \<and> gives_thermal p then {Thermal}
      else {})"

fun releases :: "hint_call \<Rightarrow> resource set" where
  "releases Dlopen = {}"
| "releases Dlclose = {Library}"
| "releases (Call s args) =
     (if s = closeSession then {Session} else if s = workDurationRelease then {Duration}
      else if s = releaseManager then {Thermal} else {})"

fun permitted :: "platform \<Rightarrow> resource set \<Rightarrow> hint_call \<Rightarrow> bool" where
  "permitted p held Dlopen \<longleftrightarrow> Library \<notin> held"
| "permitted p held Dlclose \<longleftrightarrow> held = {Library}"
| "permitted p held (Call s args) \<longleftrightarrow> exports p s \<and> needs s \<subseteq> held
     \<and> acquires p (Call s args) \<inter> held = {}"

fun held_after :: "platform \<Rightarrow> resource set \<Rightarrow> hint_call list \<Rightarrow> resource set option" where
  "held_after p held [] = Some held"
| "held_after p held (c # cs) =
     (if permitted p held c then held_after p (held - releases c \<union> acquires p c) cs else None)"

lemma held_after_append:
  "held_after p held (xs @ ys) =
     (case held_after p held xs of None \<Rightarrow> None | Some h \<Rightarrow> held_after p h ys)"
  by (induction xs arbitrary: held) simp_all

lemma held_after_concat:
  "(\<And>x. x \<in> set xs \<Longrightarrow> held_after p held (g x) = Some held) \<Longrightarrow>
     held_after p held (concat (map g xs)) = Some held"
  by (induction xs) (simp_all add: held_after_append)

text \<open>What the members of a session say is held.\<close>

definition session_holds :: "hint_session \<Rightarrow> resource set" where
  "session_holds h = (if hint_library h then {Library} else {}) \<union> (if hint_handle h then {Session} else {})
     \<union> (if hint_duration h then {Duration} else {})"

definition session_ok :: "platform \<Rightarrow> hint_session \<Rightarrow> bool" where
  "session_ok p h \<longleftrightarrow> (hint_handle h \<longrightarrow> hint_library h \<and> hint_pointer h = exports p \<and> exports p reportActual
       \<and> exports p closeSession)
     \<and> (hint_duration h \<longrightarrow> hint_handle h \<and> can_time h)"

lemma can_time_iff:
  "can_time (h\<lparr>hint_duration := b\<rparr>) \<longleftrightarrow> can_time h"
  "can_time h \<Longrightarrow> hint_pointer h workDurationCreate"
  by (simp_all add: can_time_def)

lemma constructor_acquires:
  assumes "PerformanceHintSession p tid target tids = (h, calls)"
  shows "held_after p {} calls = Some (session_holds h) \<and> session_ok p h"
proof -
  let ?entry = "exports p getManager \<and> exports p createSession \<and> exports p reportActual
    \<and> exports p closeSession"
  consider "target \<le> 0 \<or> \<not> loads p" | "0 < target" "loads p" "\<not> ?entry"
    | "0 < target" "loads p" ?entry by linarith
  then show ?thesis
  proof cases
    case 3
    define s where "s = null_session\<lparr>hint_library := True, hint_pointer := exports p,
      hint_handle := gives_manager p \<and> gives_session p (thread_args tid tids) target\<rparr>"
    have timed: "can_time s \<Longrightarrow> hint_handle s \<and> exports p workDurationCreate"
      by (simp add: can_time_def s_def)
    define cs where "cs = [Dlopen, Call getManager []] @
          (if gives_manager p then [Call createSession (target # thread_args tid tids)] else []) @
          (if hint_handle s \<and> exports p setPreferPowerEfficiency
           then [Call setPreferPowerEfficiency [0]] else [])"
    have "PerformanceHintSession p tid target tids =
        (if can_time s then (s\<lparr>hint_duration := gives_duration p\<rparr>, cs @ [Call workDurationCreate []])
         else (s, cs))"
      using 3 by (simp add: PerformanceHintSession_def Let_def null_session_def s_def cs_def)
    then have eq: "h = (if can_time s then s\<lparr>hint_duration := gives_duration p\<rparr> else s)"
      "calls = cs @ (if can_time s then [Call workDurationCreate []] else [])"
      using assms by (auto split: if_splits)
    have members: "hint_library s" "hint_pointer s = exports p" "\<not> hint_duration s"
      "hint_handle s \<longleftrightarrow> gives_manager p \<and> gives_session p (thread_args tid tids) target"
      by (simp_all add: s_def null_session_def)
    show ?thesis
      unfolding eq cs_def
      using 3 timed members
      by (cases "gives_manager p"; cases "can_time s"; cases "hint_handle s";
          cases "exports p setPreferPowerEfficiency")
         (simp_all add: session_holds_def session_ok_def can_time_iff held_after_append)
  qed (use assms in \<open>auto simp: PerformanceHintSession_def null_session_def session_holds_def
        session_ok_def Let_def split: if_splits\<close>)
qed

lemma step_keeps_holdings:
  "session_ok p h \<Longrightarrow> held_after p (session_holds h) (hint_step p h op) = Some (session_holds h)"
  by (cases op)
     (auto simp: session_ok_def session_holds_def can_time_def setThreads_def
        reportWorkDuration_def reportActualWorkDuration_def split: option.splits)

lemma destructor_releases:
  "session_ok p h \<Longrightarrow> held_after p (session_holds h) (destroy_session h) = Some {}"
  by (auto simp: session_ok_def session_holds_def can_time_def destroy_session_def)

definition monitor_holds :: "thermal_monitor \<Rightarrow> resource set" where
  "monitor_holds m = (if thermal_manager m then {Library, Thermal} else {})"

lemma monitor_lifecycle:
  assumes "ThermalHeadroomMonitor p = (m, calls)"
  shows "held_after p {} calls = Some (monitor_holds m)
    \<and> held_after p (monitor_holds m) (destroy_monitor m) = Some {}
    \<and> (\<forall>s. held_after p (monitor_holds m) (snd (sample p m s)) = Some (monitor_holds m))"
proof -
  let ?entry = "exports p acquireManager \<and> exports p releaseManager \<and> exports p getThermalHeadroom"
  let ?live = "loads p \<and> ?entry \<and> gives_thermal p"
  have m: "m = \<lparr>thermal_library = ?live, thermal_manager = ?live,
      thermal_pointer = (if loads p then exports p else (\<lambda>_. False))\<rparr>"
    using assms by (cases "loads p") (simp_all add: ThermalHeadroomMonitor_def Let_def)
  have calls: "calls = Dlopen # (if loads p \<and> ?entry then [Call acquireManager []] else []) @
      (if loads p \<and> \<not> ?live then [Dlclose] else [])"
    using assms by (cases "loads p"; cases ?entry) (auto simp: ThermalHeadroomMonitor_def Let_def)
  show ?thesis
  proof (cases ?live)
    case True
    then show ?thesis unfolding m calls
      by (auto simp: monitor_holds_def destroy_monitor_def sample_def)
  next
    case False
    then have "\<not> thermal_manager m" "\<not> thermal_library m" unfolding m by simp_all
    moreover have "held_after p {} calls = Some {}"
      using False unfolding calls by (cases "loads p"; cases ?entry) auto
    ultimately show ?thesis by (simp add: monitor_holds_def destroy_monitor_def sample_def)
  qed
qed

section \<open>Properties\<close>

text \<open>C40. On every platform, and for every sequence of client calls, a performance-hint session
  and a thermal monitor only call entry points the platform library exports, only while the
  library is loaded and the object concerned exists, acquire nothing twice, and have released the
  session, the work-duration object, the thermal manager and the library when destroyed.\<close>

theorem hint_lifetimes_balanced:
  "held_after p {} (session_lifetime p tid target tids ops) = Some {}
   \<and> held_after p {} (monitor_lifetime p forecasts) = Some {}"
proof (rule conjI)
  obtain h calls where c: "PerformanceHintSession p tid target tids = (h, calls)" by fastforce
  note ok = constructor_acquires [OF c]
  then have "held_after p (session_holds h) (concat (map (hint_step p h) ops)) = Some (session_holds h)"
    using step_keeps_holdings by (intro held_after_concat) blast
  with c ok destructor_releases [of p h] show
    "held_after p {} (session_lifetime p tid target tids ops) = Some {}"
    by (simp add: session_lifetime_def held_after_append)
next
  obtain m calls where c: "ThermalHeadroomMonitor p = (m, calls)" by fastforce
  note ok = monitor_lifecycle [OF c]
  then have "held_after p (monitor_holds m) (concat (map (\<lambda>s. snd (sample p m s)) forecasts))
      = Some (monitor_holds m)"
    by (intro held_after_concat) blast
  with c ok show "held_after p {} (monitor_lifetime p forecasts) = Some {}"
    by (simp add: monitor_lifetime_def held_after_append)
qed

end
