(* ===== verification/Spec2Isabelle.thy ===== *)
theory Spec2Isabelle
  imports Prelude Scheduling Byte_Ring Flight_Recorder Wake_Channel Driver_State Playback Capture
    Completions Transfers Packet_Plans Handlers Capture_Completion Streaming
    Float_Model Pcm Accounting Configuration Direct_Output
    Descriptors Clock_Control Alt_Select Pumps Startup
    Lifecycle Shutdown Session_Start Waits Adapter_Session Thread_Affinity Platform_Hints
begin

text \<open>
  Verification of the USB audio transport library: a user-space USB Audio Class driver
  (\<^verbatim>\<open>src/libusb_uac_driver.cpp\<close> and its header), the full-duplex bridge above it
  (\<^verbatim>\<open>DirectUsbOutput.h\<close>), and the policies and utilities they use (\<^verbatim>\<open>UsbScheduling.h\<close>,
  \<^verbatim>\<open>PacketFlightRecorder.h\<close>, \<^verbatim>\<open>WakeChannel.h\<close>, \<^verbatim>\<open>ThreadUtils.h\<close>).

  \<^bold>\<open>How the program works.\<close>  A render thread publishes blocks of PCM into the playback ring; isochronous
  OUT completions on the event thread drain it into USB packets.  IN completions append to the
  capture ring, from which the render thread reads, and their packet sizes are the clock of an
  implicit-feedback device.  Control threads open the device, negotiate a format from its
  descriptors, start, stop and destroy the session.  Threads wait on eventfd channels.

  \<^bold>\<open>The model.\<close>  \<open>Driver_State\<close> has the members of \<open>LibusbUacDriver\<close> as one record, \<open>driver\<close>, with nested
  records for the groups that change together; \<open>Direct_Output.adapter\<close> and
  \<open>Adapter_Session.bridge\<close> hold the members of \<open>DirectUsbOutput\<close>.  An operation is a function from
  state to result and state; a failure is a returned flag, an option or a \<open>StartError\<close>.  \<open>size_t\<close>
  counters and wire values are words of their width; an \<open>int\<close> that the code keeps in range is an
  integer.  libusb, the clock and the operating system are not part of the repository: they are the
  argument \<open>env\<close> (result codes, data, packet addresses, clock readings), the descriptors are
  \<open>usb_device\<close>, and \<open>event_source\<close> says which transfers complete when events are handled.  Every libusb
  call is logged in \<open>bus\<close>, every submitted payload in \<open>wire\<close>.  An atomic operation is one step, a callback is
  one step; interleavings are sequences of steps (\<open>Playback\<close>, \<open>Wake_Channel\<close>, \<open>Streaming\<close>).

  \<^bold>\<open>Foundations.\<close>  \<open>Prelude\<close>: machine-integer conversions and list lemmas.  \<open>Byte_Ring\<close>: the power-of-two
  ring with masked cursors, the locale \<open>byte_fifo\<close> of what a ring promises, its interpretation, and
  \<open>byte_pipe\<close>, the contract of a stream of writes and drains.  \<open>Float_Model\<close>: rounding to a
  single-precision float.

  \<^bold>\<open>Policies.\<close>  \<open>Scheduling\<close> (\<^verbatim>\<open>UsbScheduling.h\<close>): frame budgets, poll times, the rational packet scheduler and its
  exact cadence.  \<open>Flight_Recorder\<close>: the event recorder; snapshots return the newest accepted
  events.  \<open>Wake_Channel\<close>: the eventfd channel and its protocol as a step relation; no wake-up is
  lost.

  \<^bold>\<open>Data path.\<close>  \<open>Playback\<close>: two-phase writes, drains and admission, refining a byte queue in every interleaving.
  \<open>Capture\<close>: reads, trimming and the live handover.  \<open>Completions\<close>: the completion handlers \<open>onIso\<close>,
  \<open>onCapture\<close>, \<open>onFeedback\<close> with the implicit-feedback refill.  \<open>Transfers\<close>, \<open>Packet_Plans\<close>, \<open>Handlers\<close> and
  \<open>Capture_Completion\<close> hold their lemmas.  \<open>Streaming\<close> is the running system: the driver with the
  transfers libusb holds; its invariant, and its refinement of an abstract line, give that
  the wire carries exactly the accepted bytes.  \<open>Accounting\<close>: credit, histogram, statistics.
  \<open>Configuration\<close>: buffer validation and budgets.  \<open>Pcm\<close> and \<open>Direct_Output\<close>: sample conversion, whole-quantum
  submission and reads, the signal detectors.

  \<^bold>\<open>Session.\<close>  \<open>Descriptors\<close>: the descriptor walk and the format enumeration.  \<open>Clock_Control\<close>: sample-rate
  negotiation.  \<open>Alt_Select\<close>: alternate-setting selection, with division by zero as an outcome.
  \<open>Pumps\<close>: allocation, priming, submission and draining of transfers.  \<open>Startup\<close>: a started pump satisfies
  the invariant of \<open>Streaming\<close>.  \<open>Lifecycle\<close>: context, open, close, start, duplex start, stop, destruction.
  \<open>Shutdown\<close>: stopping releases everything or keeps what libusb may still write to; destruction
  ends.  \<open>Session_Start\<close>: opening and starting.  \<open>Waits\<close>: the waits of the render thread return.
  \<open>Adapter_Session\<close>: every outcome of starting the bridge.

  \<^bold>\<open>Platform.\<close>  \<open>Thread_Affinity\<close>: CPU masks and scheduler requests.  \<open>Platform_Hints\<close>: lifetimes of the
  performance-hint session and the thermal monitor.

  \<^bold>\<open>Fuel and loops.\<close>  Loops with a static bound recurse on it.  Loops that end when the clock passes a
  deadline (the service stall, the bounded drains, the metadata wait) take \<open>spin_fuel\<close>, a bound
  on clock reads; running out is the expired deadline, which the code handles the same way.  Waits that may
  block forever and the destructor's final barrier are partial functions into \<open>option\<close>; that
  they return is proved under a clock that passes the deadline (\<open>past\<close>) and a libusb that delivers
  cancellations (\<open>delivers\<close>).

  \<^bold>\<open>Not modelled.\<close>  Logging and \<open>PlatformLog.h\<close>; \<open>getTid\<close> and \<open>threadCpuNanoseconds\<close> (single system calls whose readings
  are arguments); memory orderings weaker than the atomic steps and the mutexes that serialise control
  calls; one-line getters that return a field; floats are rationals rounded to single
  precision, without NaN and infinities.  The Python telemetry script and the tests are not part of
  the library.
\<close>

end
